(* ===== verification/Prelude.thy ===== *)
theory Prelude
  imports Main "HOL-Library.Word"
begin

text \<open>
  What every component of the development shares: the machine types of the MIPS port
  (\<^verbatim>\<open>arch/mips/include/types.h\<close>), the kernel's error numbers
  (\<^verbatim>\<open>kern/include/kern/errno.h\<close>), and the shape of a kernel routine.

  A kernel routine is a function from the state it works on to an outcome.
  \<^item> \<open>Done x s\<close>: it returned \<open>x\<close> (a routine of C type \<^verbatim>\<open>int\<close> that reports errors
    returned 0, and \<open>x\<close> is what it handed back through its pointer arguments);
  \<^item> \<open>Fail e s\<close>: it returned the error number \<open>e\<close>; \<open>s\<close> is the state it left, which in C
    need not be the state it started from;
  \<^item> \<open>Panic m\<close>: an \<^verbatim>\<open>assert\<close> or a \<^verbatim>\<open>panic\<close> went off, or the routine dereferenced
    something it may not; the system is down and no state is left.
  \<open>kbind\<close> is the idiom \<^verbatim>\<open>result = f(...); if (result) return result;\<close>, and \<open>kcatch\<close> the
  idiom in which the caller looks at the result itself.
\<close>

named_theorems kprog \<open>how kernel routines execute\<close>
named_theorems khoare_intros \<open>rules that decompose a claim about a kernel routine\<close>

type_synonym byte = "8 word"
type_synonym u16 = "16 word"
type_synonym u32 = "32 word"

datatype errno =
    EINVAL | EFAULT | ENAMETOOLONG | ENOMEM | EIO | ENOENT | ENOTDIR | EISDIR | EEXIST
  | EXDEV | EAGAIN | ESPIPE | EUNIMP | ENXIO | ENODEV | EBUSY | EIOCTL | ENOTEMPTY
  | ERANGE | ENOSPC | EMFILE | ENFILE | ENOSYS | ENOEXEC | E2BIG | EBADF
  | EMINUS1

fun errno_code :: "errno \<Rightarrow> int" where
  "errno_code EINVAL = 1" | "errno_code EFAULT = 2" | "errno_code ENAMETOOLONG = 3"
| "errno_code ENOMEM = 4" | "errno_code EIO = 5" | "errno_code ENOENT = 6"
| "errno_code ENOTDIR = 7" | "errno_code EISDIR = 8" | "errno_code EEXIST = 9"
| "errno_code EXDEV = 10" | "errno_code EAGAIN = 11" | "errno_code ESPIPE = 12"
| "errno_code EUNIMP = 13" | "errno_code ENXIO = 14" | "errno_code ENODEV = 15"
| "errno_code EBUSY = 16" | "errno_code EIOCTL = 17" | "errno_code ENOTEMPTY = 18"
| "errno_code ERANGE = 19" | "errno_code ENOSPC = 20" | "errno_code EMFILE = 21"
| "errno_code ENFILE = 22" | "errno_code ENOSYS = 23" | "errno_code ENOEXEC = 24"
| "errno_code E2BIG = 25" | "errno_code EBADF = 26"
| "errno_code EMINUS1 = -1"

datatype ('s, 'a) outcome =
    Done 'a 's
  | Fail errno 's
  | Panic string

type_synonym ('s, 'a) prog = "'s \<Rightarrow> ('s, 'a) outcome"

definition kret :: "'a \<Rightarrow> ('s, 'a) prog" where
  "kret x = (\<lambda>s. Done x s)"

definition kfail :: "errno \<Rightarrow> ('s, 'a) prog" where
  "kfail e = (\<lambda>s. Fail e s)"

definition kpanic :: "string \<Rightarrow> ('s, 'a) prog" where
  "kpanic m = (\<lambda>s. Panic m)"

definition kbind :: "('s, 'a) prog \<Rightarrow> ('a \<Rightarrow> ('s, 'b) prog) \<Rightarrow> ('s, 'b) prog" where
  "kbind m f = (\<lambda>s. case m s of Done x t \<Rightarrow> f x t | Fail e t \<Rightarrow> Fail e t | Panic p \<Rightarrow> Panic p)"

definition kthen :: "('s, 'a) prog \<Rightarrow> ('s, 'b) prog \<Rightarrow> ('s, 'b) prog" where
  "kthen m n = kbind m (\<lambda>_. n)"

definition kassert :: "bool \<Rightarrow> ('s, unit) prog" where
  "kassert b = (if b then kret () else kpanic ''assertion failed'')"

definition kget :: "('s \<Rightarrow> 'a) \<Rightarrow> ('s, 'a) prog" where
  "kget f = (\<lambda>s. Done (f s) s)"

definition kmod :: "('s \<Rightarrow> 's) \<Rightarrow> ('s, unit) prog" where
  "kmod f = (\<lambda>s. Done () (f s))"

definition kcatch :: "('s, 'a) prog \<Rightarrow> ('s, errno + 'a) prog" where
  "kcatch m = (\<lambda>s. case m s of Done x t \<Rightarrow> Done (Inr x) t | Fail e t \<Rightarrow> Done (Inl e) t
                              | Panic p \<Rightarrow> Panic p)"

text \<open>A fixed list of routines, one after the other, stopping at the first error.\<close>

fun kseq :: "('s, unit) prog list \<Rightarrow> ('s, unit) prog" where
  "kseq [] = kret ()"
| "kseq (m # ms) = kthen m (kseq ms)"

text \<open>
  \<open>kzoom\<close> runs a routine that works on one object inside the routine of a bigger one (a
  bitmap inside a file system, an array inside the thread system).
\<close>

definition kzoom :: "('s \<Rightarrow> 't) \<Rightarrow> ('t \<Rightarrow> 's \<Rightarrow> 's) \<Rightarrow> ('t, 'a) prog \<Rightarrow> ('s, 'a) prog" where
  "kzoom get put m = (\<lambda>s. case m (get s) of Done x t \<Rightarrow> Done x (put t s)
                                           | Fail e t \<Rightarrow> Fail e (put t s)
                                           | Panic p \<Rightarrow> Panic p)"

text \<open>
  Reading a pointer: \<open>None\<close> is the null (or a dangling) pointer, and following it brings
  the kernel down.
\<close>

definition kderef :: "'a option \<Rightarrow> ('s, 'a) prog" where
  "kderef p = (case p of None \<Rightarrow> kpanic ''bad pointer'' | Some x \<Rightarrow> kret x)"

text \<open>A 32-bit signed value: what is left of an unbounded sum or product on this machine.\<close>

definition wrap32 :: "int \<Rightarrow> int" where
  "wrap32 i = (i + 2 ^ 31) mod 2 ^ 32 - 2 ^ 31"

text \<open>Subtraction on \<^verbatim>\<open>u_int32_t\<close> and \<^verbatim>\<open>size_t\<close>.\<close>

definition usub32 :: "nat \<Rightarrow> nat \<Rightarrow> nat" where
  "usub32 a b = (a + 2 ^ 32 - b) mod 2 ^ 32"

text \<open>\<^verbatim>\<open>DIVROUNDUP\<close> of \<^verbatim>\<open>kern/include/lib.h\<close>.\<close>

definition divroundup :: "nat \<Rightarrow> nat \<Rightarrow> nat" where
  "divroundup a b = (a + b - 1) div b"

text \<open>The same on \<^verbatim>\<open>u_int32_t\<close>: the sum wraps before the division.\<close>

definition divroundup32 :: "nat \<Rightarrow> nat \<Rightarrow> nat" where
  "divroundup32 a b = ((a + b - 1) mod 2 ^ 32) div b"

text \<open>Indexing an array object: past its end is undefined in C, a panic here.\<close>

definition knth :: "'a list \<Rightarrow> nat \<Rightarrow> ('s, 'a) prog" where
  "knth xs i = (if i < length xs then kret (xs ! i) else kpanic ''out of bounds'')"

text \<open>
  \<^verbatim>\<open>kmalloc\<close> as its callers see it: whether a request for that many bytes is granted.
\<close>

type_synonym kmalloc_fn = "nat \<Rightarrow> bool"

text \<open>
  A claim about a routine: from a state with \<open>P\<close> it does not panic, a normal return gives
  \<open>Q\<close>, an error return \<open>E\<close>.
\<close>

definition khoare :: "('s \<Rightarrow> bool) \<Rightarrow> ('s, 'a) prog \<Rightarrow> ('a \<Rightarrow> 's \<Rightarrow> bool)
    \<Rightarrow> (errno \<Rightarrow> 's \<Rightarrow> bool) \<Rightarrow> bool" where
  "khoare P m Q E \<longleftrightarrow> (\<forall>s. P s \<longrightarrow> (case m s of Done x t \<Rightarrow> Q x t | Fail e t \<Rightarrow> E e t
                                                | Panic p \<Rightarrow> False))"

text \<open>\<open>kkeeps I m\<close>: whenever \<open>m\<close> returns, normally or not, it has kept \<open>I\<close>.\<close>

definition kkeeps :: "('s \<Rightarrow> bool) \<Rightarrow> ('s, 'a) prog \<Rightarrow> bool" where
  "kkeeps I m \<longleftrightarrow> (\<forall>s. I s \<longrightarrow> (case m s of Done x t \<Rightarrow> I t | Fail e t \<Rightarrow> I t | Panic p \<Rightarrow> True))"

subsection \<open>Execution\<close>

lemma kret_run [kprog]: "kret x s = Done x s"
  by (simp add: kret_def)

lemma kfail_run [kprog]: "kfail e s = Fail e s"
  by (simp add: kfail_def)

lemma kpanic_run [kprog]: "kpanic m s = Panic m"
  by (simp add: kpanic_def)

lemma kget_run [kprog]: "kget f s = Done (f s) s"
  by (simp add: kget_def)

lemma kmod_run [kprog]: "kmod f s = Done () (f s)"
  by (simp add: kmod_def)

lemma kassert_run [kprog]: "kassert b s = (if b then Done () s else Panic ''assertion failed'')"
  by (simp add: kassert_def kret_def kpanic_def)

lemma kderef_Some_run [kprog]: "kderef (Some x) s = Done x s"
  by (simp add: kderef_def kret_def)

lemma kderef_None_run [kprog]: "kderef None s = Panic ''bad pointer''"
  by (simp add: kderef_def kpanic_def)

lemma knth_run [kprog]:
  "knth xs i s = (if i < length xs then Done (xs ! i) s else Panic ''out of bounds'')"
  by (simp add: knth_def kret_def kpanic_def)

lemma kbind_run [kprog]:
  "kbind m f s = (case m s of Done x t \<Rightarrow> f x t | Fail e t \<Rightarrow> Fail e t | Panic p \<Rightarrow> Panic p)"
  by (simp add: kbind_def)

lemma kthen_run [kprog]:
  "kthen m n s = (case m s of Done x t \<Rightarrow> n t | Fail e t \<Rightarrow> Fail e t | Panic p \<Rightarrow> Panic p)"
  by (simp add: kthen_def kbind_def)

lemma kcatch_run [kprog]:
  "kcatch m s = (case m s of Done x t \<Rightarrow> Done (Inr x) t | Fail e t \<Rightarrow> Done (Inl e) t
                 | Panic p \<Rightarrow> Panic p)"
  by (simp add: kcatch_def)

lemma kzoom_run [kprog]:
  "kzoom get put m s = (case m (get s) of Done x t \<Rightarrow> Done x (put t s)
                        | Fail e t \<Rightarrow> Fail e (put t s) | Panic p \<Rightarrow> Panic p)"
  by (simp add: kzoom_def)

text \<open>The three monad laws: sequencing may be regrouped freely.\<close>

lemma kbind_kret: "kbind (kret x) f = f x"
  by (simp add: fun_eq_iff kprog)

lemma kbind_kret_right: "kbind m kret = m"
  by (simp add: fun_eq_iff kprog split: outcome.split)

lemma kbind_assoc: "kbind (kbind m f) g = kbind m (\<lambda>x. kbind (f x) g)"
  by (simp add: fun_eq_iff kprog split: outcome.split)

subsection \<open>Claims about routines\<close>

lemma khoareD:
  assumes "khoare P m Q E" and "P s"
  shows "(\<exists>x t. m s = Done x t \<and> Q x t) \<or> (\<exists>e t. m s = Fail e t \<and> E e t)"
proof -
  have "case m s of Done x t \<Rightarrow> Q x t | Fail e t \<Rightarrow> E e t | Panic p \<Rightarrow> False"
    using assms by (simp add: khoare_def)
  then show ?thesis by (cases "m s") simp_all
qed

lemma khoareI:
  assumes "\<And>s. P s \<Longrightarrow> (case m s of Done x t \<Rightarrow> Q x t | Fail e t \<Rightarrow> E e t | Panic p \<Rightarrow> False)"
  shows "khoare P m Q E"
  using assms by (simp add: khoare_def)

lemma khoare_weaken:
  assumes "khoare P' m Q' E'" and "\<And>s. P s \<Longrightarrow> P' s"
    and "\<And>x t. Q' x t \<Longrightarrow> Q x t" and "\<And>e t. E' e t \<Longrightarrow> E e t"
  shows "khoare P m Q E"
proof (rule khoareI)
  fix s assume "P s"
  then have "P' s" by (rule assms(2))
  then have "case m s of Done x t \<Rightarrow> Q' x t | Fail e t \<Rightarrow> E' e t | Panic p \<Rightarrow> False"
    using assms(1) by (simp add: khoare_def)
  then show "case m s of Done x t \<Rightarrow> Q x t | Fail e t \<Rightarrow> E e t | Panic p \<Rightarrow> False"
    by (cases "m s") (simp_all add: assms(3,4))
qed

lemma khoare_bind:
  assumes "khoare P m R E" and "\<And>x. khoare (R x) (f x) Q E"
  shows "khoare P (kbind m f) Q E"
proof (rule khoareI)
  fix s assume "P s"
  then have "case m s of Done x t \<Rightarrow> R x t | Fail e t \<Rightarrow> E e t | Panic p \<Rightarrow> False"
    using assms(1) by (simp add: khoare_def)
  then show "case kbind m f s of Done x t \<Rightarrow> Q x t | Fail e t \<Rightarrow> E e t | Panic p \<Rightarrow> False"
    using assms(2) by (cases "m s") (simp_all add: kbind_run khoare_def)
qed

lemma kkeeps_ret [khoare_intros]: "kkeeps I (kret x)"
  by (simp add: kkeeps_def kprog)

lemma kkeeps_fail [khoare_intros]: "kkeeps I (kfail e)"
  by (simp add: kkeeps_def kprog)

lemma kkeeps_panic [khoare_intros]: "kkeeps I (kpanic m)"
  by (simp add: kkeeps_def kprog)

lemma kkeeps_assert [khoare_intros]: "kkeeps I (kassert b)"
  by (simp add: kkeeps_def kprog)

lemma kkeeps_get [khoare_intros]: "kkeeps I (kget f)"
  by (simp add: kkeeps_def kprog)

lemma kkeeps_deref [khoare_intros]: "kkeeps I (kderef p)"
  by (cases p) (simp_all add: kkeeps_def kprog)

lemma kkeepsI:
  assumes "\<And>s x t. I s \<Longrightarrow> m s = Done x t \<Longrightarrow> I t" and "\<And>s e t. I s \<Longrightarrow> m s = Fail e t \<Longrightarrow> I t"
  shows "kkeeps I m"
  unfolding kkeeps_def
proof (intro allI impI)
  fix s assume "I s"
  show "case m s of Done x t \<Rightarrow> I t | Fail e t \<Rightarrow> I t | Panic p \<Rightarrow> True"
  proof (cases "m s")
    case (Done x t)
    with assms(1) [OF \<open>I s\<close> Done] show ?thesis by simp
  next
    case (Fail e t)
    with assms(2) [OF \<open>I s\<close> Fail] show ?thesis by simp
  qed simp
qed

lemma kkeepsD:
  assumes "kkeeps I m" and "I s"
  shows "m s = Done x t \<Longrightarrow> I t" and "m s = Fail e t \<Longrightarrow> I t"
proof -
  have "case m s of Done x t \<Rightarrow> I t | Fail e t \<Rightarrow> I t | Panic p \<Rightarrow> True"
    using assms by (simp add: kkeeps_def)
  then show "m s = Done x t \<Longrightarrow> I t" and "m s = Fail e t \<Longrightarrow> I t" by simp_all
qed

lemma kkeeps_nth [khoare_intros]: "kkeeps I (knth xs i)"
  by (simp add: knth_def kkeeps_ret kkeeps_panic)

lemma kkeeps_bind [khoare_intros]:
  assumes m: "kkeeps I m" and f: "\<And>x. kkeeps I (f x)"
  shows "kkeeps I (kbind m f)"
proof (rule kkeepsI)
  fix s x t assume "I s" and run: "kbind m f s = Done x t"
  then obtain y u where u: "m s = Done y u" and "f y u = Done x t"
    by (auto simp: kbind_run split: outcome.splits)
  from kkeepsD(1) [OF m \<open>I s\<close> u] \<open>f y u = Done x t\<close> show "I t"
    by (rule kkeepsD(1) [OF f])
next
  fix s e t assume "I s" and run: "kbind m f s = Fail e t"
  show "I t"
  proof (cases "m s")
    case (Done y u)
    with run have "f y u = Fail e t" by (simp add: kbind_run)
    with kkeepsD(1) [OF m \<open>I s\<close> Done] show ?thesis by (rule kkeepsD(2) [OF f])
  next
    case (Fail e' u)
    with run show ?thesis using kkeepsD(2) [OF m \<open>I s\<close> Fail] by (simp add: kbind_run)
  next
    case (Panic p)
    with run show ?thesis by (simp add: kbind_run)
  qed
qed

lemma kkeeps_then [khoare_intros]:
  "kkeeps I m \<Longrightarrow> kkeeps I n \<Longrightarrow> kkeeps I (kthen m n)"
  unfolding kthen_def by (rule kkeeps_bind)

lemma kkeeps_catch [khoare_intros]: "kkeeps I m \<Longrightarrow> kkeeps I (kcatch m)"
  unfolding kkeeps_def
proof (intro allI impI)
  fix s assume "\<forall>s. I s \<longrightarrow> (case m s of Done x t \<Rightarrow> I t | Fail e t \<Rightarrow> I t | Panic p \<Rightarrow> True)" and "I s"
  then have "case m s of Done x t \<Rightarrow> I t | Fail e t \<Rightarrow> I t | Panic p \<Rightarrow> True" by blast
  then show "case kcatch m s of Done x t \<Rightarrow> I t | Fail e t \<Rightarrow> I t | Panic p \<Rightarrow> True"
    by (cases "m s") (simp_all add: kcatch_run)
qed

lemma kkeeps_mod: "(\<And>s. I s \<Longrightarrow> I (f s)) \<Longrightarrow> kkeeps I (kmod f)"
  by (simp add: kkeeps_def kprog)

subsection \<open>Machine integers\<close>

lemma wrap32_id: "- (2 ^ 31) \<le> i \<Longrightarrow> i < 2 ^ 31 \<Longrightarrow> wrap32 i = i"
  by (simp add: wrap32_def)

lemma wrap32_range: "- (2 ^ 31) \<le> wrap32 i" "wrap32 i < 2 ^ 31"
  by (simp_all add: wrap32_def)

lemma wrap32_double_neg:
  assumes "2 ^ 30 \<le> i" and "i < 2 ^ 31"
  shows "wrap32 (2 * i) < 0"
proof -
  have "(2 * i + 2 ^ 31 - 2 ^ 32) mod 2 ^ 32 = 2 * i + 2 ^ 31 - 2 ^ 32"
    using assms by (intro mod_pos_pos_trivial) auto
  then have "(2 * i + 2 ^ 31) mod 2 ^ 32 = 2 * i + 2 ^ 31 - 2 ^ 32"
    by (simp only: minus_mod_self2)
  then show ?thesis using assms by (simp add: wrap32_def)
qed

lemma usub32_eq: "b \<le> a \<Longrightarrow> a < 2 ^ 32 \<Longrightarrow> usub32 a b = a - b"
proof -
  assume ba: "b \<le> a" and a: "a < 2 ^ 32"
  then have "a + 2 ^ 32 - b = a - b + 2 ^ 32" by simp
  then show ?thesis unfolding usub32_def using a by (simp only: mod_add_self2) simp
qed

lemma divroundup_le_iff:
  assumes "0 < b"
  shows "divroundup a b \<le> k \<longleftrightarrow> a \<le> k * b"
proof -
  have "(a + b - 1) div b \<le> k \<longleftrightarrow> (a + b - 1) div b < Suc k"
    by auto
  also have "\<dots> \<longleftrightarrow> a + b - 1 < Suc k * b"
    using assms by (simp add: div_less_iff_less_mult)
  also have "\<dots> \<longleftrightarrow> a \<le> k * b"
    using assms by auto
  finally show ?thesis by (simp add: divroundup_def)
qed

lemma divroundup_mult: "0 < b \<Longrightarrow> divroundup (k * b) b = k"
proof (rule antisym)
  assume b: "0 < b"
  show "divroundup (k * b) b \<le> k" using b by (simp add: divroundup_le_iff)
  have "k * b \<le> divroundup (k * b) b * b" using divroundup_le_iff [OF b, of "k * b"] by blast
  with b show "k \<le> divroundup (k * b) b" by simp
qed

lemma divroundup32_eq: "a + b \<le> 2 ^ 32 \<Longrightarrow> 0 < b \<Longrightarrow> divroundup32 a b = divroundup a b"
  by (simp add: divroundup32_def divroundup_def)

subsection \<open>Lists\<close>

lemma take_update_beyond: "n \<le> i \<Longrightarrow> take n (xs[i := x]) = take n xs"
  by simp

lemma nth_drop_take: "i < n \<Longrightarrow> m + n \<le> length xs \<Longrightarrow> take n (drop m xs) ! i = xs ! (m + i)"
  by simp

end
