(* ===== verification/Bitmap.thy ===== *)
theory Bitmap
  imports Prelude
begin

unbundle bit_operations_syntax

text \<open>
  The fixed-size array of bits of \<^verbatim>\<open>kern/lib/bitmap.c\<close>, which SFS uses as its free-block
  map. A bitmap is its number of bits and its bytes; bit \<open>i\<close> is bit \<open>i mod 8\<close> of byte
  \<open>i div 8\<close>. \<open>bm_set\<close> reads it as the set of its marked indices.
\<close>

record bitmap =
  bm_nbits :: nat
  bm_v :: "byte list"

abbreviation (input) BITS_PER_WORD :: nat where "BITS_PER_WORD \<equiv> 8"
abbreviation (input) WORD_ALLBITS :: byte where "WORD_ALLBITS \<equiv> 0xff"

text \<open>The mask \<^verbatim>\<open>((WORD_TYPE)1) << offset\<close>.\<close>

definition bitmask :: "nat \<Rightarrow> byte" where
  "bitmask offset = push_bit offset 1"

text \<open>The loop of \<^verbatim>\<open>bitmap_create\<close> that marks the leftover bits \<open>j, ..., 7\<close> of the last byte.\<close>

function mark_from :: "nat \<Rightarrow> byte \<Rightarrow> byte" where
  "mark_from j w = (if j < BITS_PER_WORD then mark_from (Suc j) (w OR bitmask j) else w)"
  by pat_completeness auto
termination
  by (relation "measure (\<lambda>(j, w). 8 - j)") auto

definition bitmap_create :: "kmalloc_fn \<Rightarrow> nat \<Rightarrow> ('s, bitmap option) prog" where
  "bitmap_create kmalloc nbits =
     (let words = divroundup32 nbits BITS_PER_WORD; zeros = replicate words 0 in
      if \<not> kmalloc 8 then kret None
      else if \<not> kmalloc words then kret None
      else if nbits div BITS_PER_WORD < words
      then let ix = words - 1; overbits = nbits - ix * BITS_PER_WORD in
           kthen (kassert (nbits div BITS_PER_WORD = words - 1))
           (kthen (kassert (overbits > 0 \<and> overbits < BITS_PER_WORD))
           (kret (Some \<lparr>bm_nbits = nbits, bm_v = zeros[ix := mark_from overbits (zeros ! ix)]\<rparr>)))
      else kret (Some \<lparr>bm_nbits = nbits, bm_v = zeros\<rparr>))"

definition bitmap_getdata :: "(bitmap, byte list) prog" where
  "bitmap_getdata = kget bm_v"

text \<open>
  \<^verbatim>\<open>bitmap_alloc\<close>: the outer loop looks for a byte that is not full, the inner one for the
  first clear bit in it. \<open>None\<close> from the inner loop is its \<^verbatim>\<open>assert(0)\<close>.
\<close>

function find_clear :: "byte \<Rightarrow> nat \<Rightarrow> nat option" where
  "find_clear w offset =
     (if offset < BITS_PER_WORD
      then if w AND bitmask offset = 0 then Some offset else find_clear w (Suc offset)
      else None)"
  by pat_completeness auto
termination
  by (relation "measure (\<lambda>(w, offset). 8 - offset)") auto

function bitmap_alloc_from :: "nat \<Rightarrow> nat \<Rightarrow> (bitmap, nat) prog" where
  "bitmap_alloc_from maxix ix =
     (if ix < maxix
      then kbind (kget bm_v) (\<lambda>v. kbind (knth v ix) (\<lambda>w.
        if w \<noteq> WORD_ALLBITS
        then case find_clear w 0 of
               None \<Rightarrow> kpanic ''assertion failed''
             | Some offset \<Rightarrow>
                 (let index = ix * BITS_PER_WORD + offset in
                  kthen (kmod (\<lambda>b. b\<lparr>bm_v := v[ix := w OR bitmask offset]\<rparr>))
                  (kbind (kget bm_nbits) (\<lambda>nbits.
                   kthen (kassert (index < nbits)) (kret index))))
        else bitmap_alloc_from maxix (Suc ix)))
      else kfail ENOSPC)"
  by pat_completeness auto
termination
  by (relation "measure (\<lambda>(maxix, ix). maxix - ix)") auto

definition bitmap_alloc :: "(bitmap, nat) prog" where
  "bitmap_alloc = kbind (kget bm_nbits) (\<lambda>nbits.
     bitmap_alloc_from (divroundup32 nbits BITS_PER_WORD) 0)"

definition bitmap_translate :: "nat \<Rightarrow> nat \<times> byte" where
  "bitmap_translate bitno = (bitno div BITS_PER_WORD, bitmask (bitno mod BITS_PER_WORD))"

definition bitmap_mark :: "nat \<Rightarrow> (bitmap, unit) prog" where
  "bitmap_mark index =
     kbind (kget (\<lambda>b. b)) (\<lambda>b.
     kthen (kassert (index < bm_nbits b))
     (let (ix, mask) = bitmap_translate index in
      kbind (knth (bm_v b) ix) (\<lambda>w.
      kthen (kassert (w AND mask = 0))
      (kmod (\<lambda>b. b\<lparr>bm_v := (bm_v b)[ix := w OR mask]\<rparr>)))))"

definition bitmap_unmark :: "nat \<Rightarrow> (bitmap, unit) prog" where
  "bitmap_unmark index =
     kbind (kget (\<lambda>b. b)) (\<lambda>b.
     kthen (kassert (index < bm_nbits b))
     (let (ix, mask) = bitmap_translate index in
      kbind (knth (bm_v b) ix) (\<lambda>w.
      kthen (kassert (w AND mask \<noteq> 0))
      (kmod (\<lambda>b. b\<lparr>bm_v := (bm_v b)[ix := w AND NOT mask]\<rparr>)))))"

definition bitmap_isset :: "nat \<Rightarrow> (bitmap, bool) prog" where
  "bitmap_isset index =
     (let (ix, mask) = bitmap_translate index in
      kbind (kget bm_v) (\<lambda>v. kbind (knth v ix) (\<lambda>w. kret (w AND mask \<noteq> 0))))"

subsection \<open>What a bitmap means\<close>

definition bm_bit :: "byte list \<Rightarrow> nat \<Rightarrow> bool" where
  "bm_bit v i = bit (v ! (i div 8)) (i mod 8)"

definition bm_set :: "bitmap \<Rightarrow> nat set" where
  "bm_set b = {i. i < bm_nbits b \<and> bm_bit (bm_v b) i}"

text \<open>
  Well-formed: there is a byte for every bit, and the bits of the last byte that are past
  the end are marked, so that no allocation hands one out.
\<close>

definition bm_ok :: "bitmap \<Rightarrow> bool" where
  "bm_ok b \<longleftrightarrow> bm_nbits b \<le> 2 ^ 32 - 8 \<and> length (bm_v b) = divroundup (bm_nbits b) 8 \<and>
     (\<forall>i. bm_nbits b \<le> i \<longrightarrow> i < 8 * length (bm_v b) \<longrightarrow> bm_bit (bm_v b) i)"

declare mark_from.simps [simp del] find_clear.simps [simp del] bitmap_alloc_from.simps [simp del]

lemma bit_bitmask: "bit (bitmask n) i \<longleftrightarrow> i = n \<and> n < 8"
  by (auto simp: bitmask_def bit_simps)

lemma and_mask_zero_iff: "(w :: byte) AND bitmask n = 0 \<longleftrightarrow> \<not> bit w n \<or> 8 \<le> n"
  using bit_imp_le_length [of w n]
  by (auto simp: bit_eq_iff [where 'a = byte] bit_and_iff bit_bitmask)

lemma bit_or_mask: "bit ((w :: byte) OR bitmask n) i \<longleftrightarrow> bit w i \<or> (i = n \<and> n < 8)"
  by (auto simp: bit_or_iff bit_bitmask)

lemma bit_and_not_mask: "bit ((w :: byte) AND NOT (bitmask n)) i \<longleftrightarrow> bit w i \<and> i \<noteq> n"
  using bit_imp_le_length [of w i]
  by (auto simp: bit_and_iff bit_not_iff bit_bitmask)

lemma bit_mark_from: "j \<le> 8 \<Longrightarrow> bit (mark_from j w) i \<longleftrightarrow> bit w i \<or> (j \<le> i \<and> i < 8)"
proof (induction j w rule: mark_from.induct)
  case (1 j w)
  show ?case
  proof (cases "j < 8")
    case True
    then have "bit (mark_from j w) i = bit (mark_from (Suc j) (w OR bitmask j)) i"
      by (simp add: mark_from.simps [of j w])
    also have "\<dots> \<longleftrightarrow> bit (w OR bitmask j) i \<or> (Suc j \<le> i \<and> i < 8)"
      using "1.IH" True by simp
    finally show ?thesis using True by (auto simp: bit_or_mask)
  next
    case False
    then show ?thesis by (auto simp: mark_from.simps [of j w])
  qed
qed

lemma allbits_iff: "(w :: byte) = WORD_ALLBITS \<longleftrightarrow> (\<forall>n<8. bit w n)"
proof -
  have "bit WORD_ALLBITS n \<longleftrightarrow> n < 8" for n
  proof -
    have "(0xff :: byte) = mask 8" by (simp add: mask_eq_exp_minus_1)
    then have "bit (0xff :: byte) n = bit (mask 8 :: byte) n" by (rule arg_cong)
    then show ?thesis by (simp only: bit_mask_iff) simp
  qed
  then show ?thesis by (auto simp: bit_eq_iff)
qed

lemma find_clear_Some:
  "find_clear w k = Some n \<Longrightarrow> k \<le> n \<and> n < 8 \<and> \<not> bit w n \<and> (\<forall>m. k \<le> m \<longrightarrow> m < n \<longrightarrow> bit w m)"
proof (induction w k rule: find_clear.induct)
  case (1 w k)
  show ?case
  proof (cases "k < 8 \<and> bit w k")
    case True
    with "1.prems" have "find_clear w (Suc k) = Some n"
      by (simp add: find_clear.simps [of w k] and_mask_zero_iff)
    with "1.IH" True show ?thesis
      by (auto simp: and_mask_zero_iff Suc_le_eq) (metis le_neq_implies_less)
  next
    case False
    with "1.prems" show ?thesis
      by (auto simp: find_clear.simps [of w k] and_mask_zero_iff split: if_splits)
  qed
qed

lemma find_clear_None: "find_clear w k = None \<Longrightarrow> k \<le> m \<Longrightarrow> m < 8 \<Longrightarrow> bit w m"
proof (induction w k rule: find_clear.induct)
  case (1 w k)
  then show ?case
    by (cases "k < 8 \<and> bit w k"; cases "m = k")
       (auto simp: find_clear.simps [of w k] and_mask_zero_iff split: if_splits)
qed

lemma bm_bit_update:
  assumes "n < 8" and "ix < length v"
  shows "bm_bit (v[ix := w]) i = (if i div 8 = ix then bit w (i mod 8) else bm_bit v i)"
  using assms by (simp add: bm_bit_def nth_list_update)

lemma index_split: "n < 8 \<Longrightarrow> (i::nat) = 8 * ix + n \<longleftrightarrow> i div 8 = ix \<and> i mod 8 = n"
  by (auto simp: mult.commute)

lemma bm_bit_mark:
  assumes "n < 8" and "ix < length v"
  shows "bm_bit (v[ix := v ! ix OR bitmask n]) i \<longleftrightarrow> bm_bit v i \<or> i = 8 * ix + n"
  unfolding bm_bit_update [OF assms] index_split [OF assms(1)]
  using assms(1) by (auto simp: bit_or_mask bm_bit_def)

lemma bm_bit_unmark:
  assumes "n < 8" and "ix < length v"
  shows "bm_bit (v[ix := v ! ix AND NOT (bitmask n)]) i \<longleftrightarrow> bm_bit v i \<and> i \<noteq> 8 * ix + n"
  unfolding bm_bit_update [OF assms] index_split [OF assms(1)]
  using assms(1) by (auto simp: bit_and_not_mask bm_bit_def)

lemma bm_ok_words: "bm_ok b \<Longrightarrow> divroundup32 (bm_nbits b) 8 = length (bm_v b)"
  by (simp add: bm_ok_def divroundup32_eq)

lemma bm_ok_index: "bm_ok b \<Longrightarrow> i < bm_nbits b \<Longrightarrow> i div 8 < length (bm_v b)"
proof -
  assume ok: "bm_ok b" and i: "i < bm_nbits b"
  then have "bm_nbits b \<le> length (bm_v b) * 8"
    using divroundup_le_iff [of 8 "bm_nbits b" "length (bm_v b)"] by (simp add: bm_ok_def)
  with i show ?thesis by (simp add: less_mult_imp_div_less)
qed

lemma bm_update_ok:
  assumes "bm_ok b" and "\<And>i. bm_nbits b \<le> i \<Longrightarrow> i < 8 * length (bm_v b) \<Longrightarrow> bm_bit v i"
    and "length v = length (bm_v b)"
  shows "bm_ok (b\<lparr>bm_v := v\<rparr>)"
  using assms by (simp add: bm_ok_def)

lemma bm_bit_zeros: "i < 8 * k \<Longrightarrow> \<not> bm_bit (replicate k 0) i"
  by (simp add: bm_bit_def less_mult_imp_div_less mult.commute)

lemma bm_bit_leftover:
  assumes "k = Suc (n div 8)" and "i < 8 * k"
  shows "bm_bit ((replicate k 0)[k - 1 := mark_from (n mod 8) 0]) i \<longleftrightarrow> n \<le> i"
proof (cases "i div 8 = n div 8")
  case True
  then have "n mod 8 \<le> i mod 8 \<longleftrightarrow> n \<le> i"
    using div_mult_mod_eq [of i 8] div_mult_mod_eq [of n 8] by linarith
  moreover have "k - 1 = n div 8" "n div 8 < k" using assms(1) by simp_all
  ultimately show ?thesis using True by (simp add: bm_bit_def bit_mark_from)
next
  case False
  then have "i div 8 < n div 8" using assms by simp
  moreover have "k - 1 = n div 8" "n div 8 < k" using assms(1) by simp_all
  moreover have "\<not> n \<le> i" using calculation(1) by (meson div_le_mono leD)
  ultimately show ?thesis by (simp add: bm_bit_def)
qed

lemma words_leftover: "n div 8 < divroundup n 8 \<Longrightarrow>
    divroundup n 8 = Suc (n div 8) \<and> 0 < n mod 8 \<and> n - n div 8 * 8 = n mod 8"
proof -
  assume lt: "n div 8 < divroundup n 8"
  have n: "n = n div 8 * 8 + n mod 8" by simp
  have "n mod 8 \<noteq> 0"
  proof
    assume "n mod 8 = 0"
    with n have "n \<le> n div 8 * 8" by simp
    then have "divroundup n 8 \<le> n div 8" by (simp add: divroundup_le_iff)
    with lt show False by simp
  qed
  moreover have "divroundup n 8 \<le> Suc (n div 8)" by (simp add: divroundup_le_iff)
  ultimately show ?thesis using lt n by linarith
qed

lemma bitmap_create_correct:
  assumes "n \<le> 2 ^ 32 - 8" and "kmalloc 8" and "kmalloc (divroundup n 8)"
  shows "\<exists>b. bitmap_create kmalloc n s = Done (Some b) s \<and> bm_ok b \<and> bm_nbits b = n \<and> bm_set b = {}"
proof -
  define k where "k = divroundup n 8"
  have words: "divroundup32 n 8 = k"
    using assms(1) by (simp add: k_def divroundup32_eq)
  have nk: "n \<le> 8 * k" using divroundup_le_iff [of 8 n k] by (simp add: k_def mult.commute)
  show ?thesis
  proof (cases "n div 8 < k")
    case True
    define v where "v = (replicate k (0::byte))[k - 1 := mark_from (n mod 8) 0]"
    have k: "k = Suc (n div 8)" and r: "0 < n mod 8" "n - n div 8 * 8 = n mod 8"
      using words_leftover [of n] True by (auto simp: k_def)
    have "bitmap_create kmalloc n s = Done (Some \<lparr>bm_nbits = n, bm_v = v\<rparr>) s"
    proof -
      have "k - 1 = n div 8" using k by simp
      moreover have "n div 8 * 8 < n" using r by linarith
      ultimately show ?thesis
        using True assms words r by (simp add: bitmap_create_def Let_def kprog v_def k_def)
    qed
    moreover have "bm_ok \<lparr>bm_nbits = n, bm_v = v\<rparr>"
      using assms bm_bit_leftover [OF k] by (simp add: bm_ok_def k_def [symmetric] v_def)
    moreover have "bm_set \<lparr>bm_nbits = n, bm_v = v\<rparr> = {}"
      using bm_bit_leftover [OF k] nk by (auto simp: bm_set_def v_def)
    ultimately show ?thesis by auto
  next
    case False
    have "bitmap_create kmalloc n s = Done (Some \<lparr>bm_nbits = n, bm_v = replicate k 0\<rparr>) s"
      using False assms words by (simp add: bitmap_create_def Let_def kprog k_def)
    moreover have "bm_ok \<lparr>bm_nbits = n, bm_v = replicate k 0\<rparr>"
      using assms False by (auto simp: bm_ok_def k_def)
    moreover have "bm_set \<lparr>bm_nbits = n, bm_v = replicate k 0\<rparr> = {}"
      using bm_bit_zeros [of _ k] nk by (auto simp: bm_set_def)
    ultimately show ?thesis by auto
  qed
qed

subsection \<open>The operations against the set of marked bits\<close>

lemma bitmap_isset_correct:
  assumes "bm_ok b" and "i < bm_nbits b"
  shows "bitmap_isset i b = Done (i \<in> bm_set b) b"
  using assms bm_ok_index [OF assms]
  by (auto simp: bitmap_isset_def bitmap_translate_def kprog and_mask_zero_iff bm_set_def bm_bit_def
      not_le)

lemma bitmap_mark_correct:
  assumes ok: "bm_ok b" and i: "i < bm_nbits b"
  shows "if i \<in> bm_set b then bitmap_mark i b = Panic ''assertion failed''
         else \<exists>c. bitmap_mark i b = Done () c \<and> bm_ok c \<and> bm_nbits c = bm_nbits b \<and>
                  bm_set c = insert i (bm_set b)"
proof (cases "i \<in> bm_set b")
  case True
  then show ?thesis using i bm_ok_index [OF ok i]
    by (auto simp: bitmap_mark_def bitmap_translate_def kprog and_mask_zero_iff bm_set_def bm_bit_def
        not_le)
next
  case False
  let ?v = "(bm_v b)[i div 8 := bm_v b ! (i div 8) OR bitmask (i mod 8)]"
  have len: "i div 8 < length (bm_v b)" using ok i by (rule bm_ok_index)
  have bits: "bm_bit ?v j \<longleftrightarrow> bm_bit (bm_v b) j \<or> j = i" for j
    using bm_bit_mark [OF _ len, of "i mod 8" j] by simp
  have "bitmap_mark i b = Done () (b\<lparr>bm_v := ?v\<rparr>)"
    using False i len
    by (auto simp: bitmap_mark_def bitmap_translate_def kprog and_mask_zero_iff bm_set_def bm_bit_def)
  moreover have "bm_ok (b\<lparr>bm_v := ?v\<rparr>)"
    using ok bits by (simp add: bm_ok_def)
  moreover have "bm_set (b\<lparr>bm_v := ?v\<rparr>) = insert i (bm_set b)"
    using i bits by (auto simp: bm_set_def)
  ultimately show ?thesis using False by simp
qed

lemma bitmap_unmark_correct:
  assumes ok: "bm_ok b" and i: "i < bm_nbits b"
  shows "if i \<in> bm_set b
         then \<exists>c. bitmap_unmark i b = Done () c \<and> bm_ok c \<and> bm_nbits c = bm_nbits b \<and>
                  bm_set c = bm_set b - {i}
         else bitmap_unmark i b = Panic ''assertion failed''"
proof (cases "i \<in> bm_set b")
  case False
  then show ?thesis using i bm_ok_index [OF ok i]
    by (auto simp: bitmap_unmark_def bitmap_translate_def kprog and_mask_zero_iff bm_set_def bm_bit_def
        not_le)
next
  case True
  let ?v = "(bm_v b)[i div 8 := bm_v b ! (i div 8) AND NOT (bitmask (i mod 8))]"
  have len: "i div 8 < length (bm_v b)" using ok i by (rule bm_ok_index)
  have bits: "bm_bit ?v j \<longleftrightarrow> bm_bit (bm_v b) j \<and> j \<noteq> i" for j
    using bm_bit_unmark [OF _ len, of "i mod 8" j] by simp
  have "bitmap_unmark i b = Done () (b\<lparr>bm_v := ?v\<rparr>)"
    using True i len
    by (auto simp: bitmap_unmark_def bitmap_translate_def kprog and_mask_zero_iff bm_set_def bm_bit_def
        not_le)
  moreover have "bm_ok (b\<lparr>bm_v := ?v\<rparr>)"
    using ok bits i by (simp add: bm_ok_def)
  moreover have "bm_set (b\<lparr>bm_v := ?v\<rparr>) = bm_set b - {i}"
    using i bits by (auto simp: bm_set_def)
  ultimately show ?thesis using True by simp
qed

lemma bitmap_mark_outside: "bm_nbits b \<le> i \<Longrightarrow> bitmap_mark i b = Panic ''assertion failed''"
  by (simp add: bitmap_mark_def kprog)

lemma bitmap_unmark_outside: "bm_nbits b \<le> i \<Longrightarrow> bitmap_unmark i b = Panic ''assertion failed''"
  by (simp add: bitmap_unmark_def kprog)

text \<open>
  The search of \<^verbatim>\<open>bitmap_alloc\<close> from byte \<open>ix\<close> on: it skips full bytes, and the bit it takes
  is the first clear one.
\<close>

lemma bm_full_byte:
  assumes "\<And>i. i < 8 * ix \<Longrightarrow> bm_bit v i" and "v ! ix = WORD_ALLBITS" and "i < 8 * Suc ix"
  shows "bm_bit v i"
proof (cases "i < 8 * ix")
  case False
  then have "i div 8 = ix" using assms(3) by (intro div_nat_eqI) auto
  moreover have "bit (v ! ix) (i mod 8)" using assms(2) allbits_iff [of "v ! ix"] by simp
  ultimately show ?thesis by (simp add: bm_bit_def)
qed (simp add: assms(1))

lemma bm_take_first:
  assumes ok: "bm_ok b" and full: "\<And>i. i < 8 * ix \<Longrightarrow> bm_bit (bm_v b) i"
    and lt: "ix < length (bm_v b)" and n: "find_clear (bm_v b ! ix) 0 = Some n"
    and c: "c = b\<lparr>bm_v := (bm_v b)[ix := bm_v b ! ix OR bitmask n]\<rparr>"
  shows "8 * ix + n < bm_nbits b \<and> 8 * ix + n \<notin> bm_set b \<and> {..<8 * ix + n} \<subseteq> bm_set b \<and>
         bm_ok c \<and> bm_nbits c = bm_nbits b \<and> bm_set c = insert (8 * ix + n) (bm_set b)"
proof -
  note n' = find_clear_Some [OF n]
  let ?i = "8 * ix + n"
  have below: "bm_bit (bm_v b) i" if "i < ?i" for i
  proof (cases "i < 8 * ix")
    case False
    then obtain m where "i = 8 * ix + m" by (metis le_Suc_ex not_less)
    with that n' show ?thesis by (simp add: bm_bit_def)
  qed (rule full)
  have clear: "\<not> bm_bit (bm_v b) ?i" using n' by (simp add: bm_bit_def)
  have "?i < 8 * length (bm_v b)" using lt n' by linarith
  with clear ok have inside: "?i < bm_nbits b"
    unfolding bm_ok_def by (meson not_less)
  have bits: "bm_bit (bm_v c) j \<longleftrightarrow> bm_bit (bm_v b) j \<or> j = ?i" for j
    using bm_bit_mark [OF _ lt] n' by (simp add: c)
  have "bm_ok c" using ok bits by (simp add: bm_ok_def c)
  moreover have "bm_set c = insert ?i (bm_set b)" using inside bits by (auto simp: bm_set_def c)
  ultimately show ?thesis using clear inside below by (auto simp: bm_set_def c)
qed

lemma bitmap_alloc_from_correct:
  assumes ok: "bm_ok b" and full: "\<And>i. i < 8 * ix \<Longrightarrow> bm_bit (bm_v b) i" and "ix \<le> length (bm_v b)"
  shows "case bitmap_alloc_from (length (bm_v b)) ix b of
           Done i c \<Rightarrow> i < bm_nbits b \<and> i \<notin> bm_set b \<and> {..<i} \<subseteq> bm_set b \<and> bm_ok c \<and>
                       bm_nbits c = bm_nbits b \<and> bm_set c = insert i (bm_set b)
         | Fail e c \<Rightarrow> e = ENOSPC \<and> c = b \<and> bm_set b = {..<bm_nbits b}
         | Panic p \<Rightarrow> False"
  using full assms(3)
proof (induction "length (bm_v b)" ix rule: bitmap_alloc_from.induct)
  case (1 ix)
  let ?w = "bm_v b ! ix"
  consider "ix = length (bm_v b)" | "ix < length (bm_v b)" "?w = WORD_ALLBITS"
    | "ix < length (bm_v b)" "?w \<noteq> WORD_ALLBITS"
    using "1.prems"(2) by linarith
  then show ?case
  proof cases
    case 1
    have "i < 8 * ix" if "i < bm_nbits b" for i
      using bm_ok_index [OF ok that] 1 by linarith
    with "1.prems" have "bm_set b = {..<bm_nbits b}" by (auto simp: bm_set_def)
    then show ?thesis using 1 by (simp add: bitmap_alloc_from.simps [of _ "length (bm_v b)"] kprog)
  next
    case 2
    have "bm_bit (bm_v b) i" if "i < 8 * Suc ix" for i
      using bm_full_byte [OF "1.prems"(1) 2(2) that] .
    from "1.hyps" [OF 2(1) _ this] 2 show ?thesis
      by (simp add: bitmap_alloc_from.simps [of _ ix] kprog)
  next
    case 3
    then obtain m where "m < 8" "\<not> bit ?w m" using allbits_iff by blast
    then obtain n where n: "find_clear ?w 0 = Some n"
      using find_clear_None [of ?w 0 m] by (cases "find_clear ?w 0") auto
    note take = bm_take_first [OF ok "1.prems"(1) 3(1) n refl]
    have "bitmap_alloc_from (length (bm_v b)) ix b =
        Done (8 * ix + n) (b\<lparr>bm_v := (bm_v b)[ix := ?w OR bitmask n]\<rparr>)"
      using 3 n take by (simp add: bitmap_alloc_from.simps [of _ ix] kprog Let_def mult.commute)
    with take show ?thesis by simp
  qed
qed

lemma bitmap_alloc_cases:
  assumes "bm_ok b"
  shows "case bitmap_alloc b of
           Done i c \<Rightarrow> i < bm_nbits b \<and> i \<notin> bm_set b \<and> {..<i} \<subseteq> bm_set b \<and> bm_ok c \<and>
                       bm_nbits c = bm_nbits b \<and> bm_set c = insert i (bm_set b)
         | Fail e c \<Rightarrow> e = ENOSPC \<and> c = b \<and> bm_set b = {..<bm_nbits b}
         | Panic p \<Rightarrow> False"
proof -
  have "bitmap_alloc b = bitmap_alloc_from (length (bm_v b)) 0 b"
    by (simp add: bitmap_alloc_def kprog bm_ok_words [OF assms])
  with bitmap_alloc_from_correct [OF assms, of 0] show ?thesis by simp
qed

subsection \<open>The contract SFS relies on\<close>

text \<open>
  A free map hands out indices below its size that were not in use, says when there is
  none, and takes them back.
\<close>

locale free_map =
  fixes alloc :: "('m, nat) prog" and unmark :: "nat \<Rightarrow> ('m, unit) prog"
    and isset :: "nat \<Rightarrow> ('m, bool) prog" and used :: "'m \<Rightarrow> nat set"
    and total :: "'m \<Rightarrow> nat" and valid :: "'m \<Rightarrow> bool"
  assumes alloc_law: "valid m \<Longrightarrow>
      case alloc m of Done i n \<Rightarrow> i < total m \<and> i \<notin> used m \<and> valid n \<and> total n = total m \<and>
                                    used n = insert i (used m)
                    | Fail e n \<Rightarrow> e = ENOSPC \<and> n = m \<and> used m = {..<total m}
                    | Panic p \<Rightarrow> False"
    and unmark_law: "valid m \<Longrightarrow> i \<in> used m \<Longrightarrow>
      \<exists>n. unmark i m = Done () n \<and> valid n \<and> total n = total m \<and> used n = used m - {i}"
    and isset_law: "valid m \<Longrightarrow> i < total m \<Longrightarrow> isset i m = Done (i \<in> used m) m"
    and used_total: "used m \<subseteq> {..<total m}"
begin

lemma alloc_takes_one:
  assumes "valid m" and "alloc m = Done i n"
  shows "card (used n) = Suc (card (used m))"
proof -
  have "finite (used m)" using used_total finite_subset by blast
  with alloc_law [OF assms(1)] assms(2) show ?thesis by simp
qed

lemma alloc_free_restores:
  assumes "valid m" and "alloc m = Done i n"
  shows "\<exists>m'. unmark i n = Done () m' \<and> valid m' \<and> total m' = total m \<and> used m' = used m"
proof -
  have i: "i \<notin> used m" "valid n" "total n = total m" "used n = insert i (used m)"
    using alloc_law [OF assms(1)] assms(2) by auto
  then show ?thesis using unmark_law [of n i] by auto
qed

lemma alloc_when_free:
  assumes "valid m" and "used m \<noteq> {..<total m}"
  shows "\<exists>i n. alloc m = Done i n"
  using alloc_law [OF assms(1)] assms(2) by (cases "alloc m") auto

end

interpretation bm: free_map bitmap_alloc bitmap_unmark bitmap_isset bm_set bm_nbits bm_ok
proof unfold_locales
  fix m assume "bm_ok m"
  then show "case bitmap_alloc m of
      Done i n \<Rightarrow> i < bm_nbits m \<and> i \<notin> bm_set m \<and> bm_ok n \<and> bm_nbits n = bm_nbits m \<and>
                  bm_set n = insert i (bm_set m)
    | Fail e n \<Rightarrow> e = ENOSPC \<and> n = m \<and> bm_set m = {..<bm_nbits m} | Panic p \<Rightarrow> False"
    using bitmap_alloc_cases [of m] by (cases "bitmap_alloc m") auto
next
  fix m i assume "bm_ok m" and "i \<in> bm_set m"
  then show "\<exists>n. bitmap_unmark i m = Done () n \<and> bm_ok n \<and> bm_nbits n = bm_nbits m \<and>
      bm_set n = bm_set m - {i}"
    using bitmap_unmark_correct [of m i] by (simp add: bm_set_def split: if_splits)
next
  fix m i assume "bm_ok m" and "i < bm_nbits m"
  then show "bitmap_isset i m = Done (i \<in> bm_set m) m" by (rule bitmap_isset_correct)
next
  fix m show "bm_set m \<subseteq> {..<bm_nbits m}" by (auto simp: bm_set_def)
qed

text \<open>
  C2. \<^verbatim>\<open>bitmap_alloc\<close> on a well-formed bitmap always returns: it takes the least unmarked
  index and marks exactly that one, and it gives \<^verbatim>\<open>ENOSPC\<close>, changing nothing, exactly when
  every index is marked. Its assertions never go off.
\<close>

theorem bitmap_alloc_correct:
  assumes "bm_ok b"
  shows "if bm_set b = {..<bm_nbits b} then bitmap_alloc b = Fail ENOSPC b
         else \<exists>c. let i = (LEAST i. i \<notin> bm_set b) in
              bitmap_alloc b = Done i c \<and> i < bm_nbits b \<and>
              bm_ok c \<and> bm_nbits c = bm_nbits b \<and> bm_set c = insert i (bm_set b)"
proof (cases "bitmap_alloc b")
  case (Done i c)
  with bitmap_alloc_cases [OF assms]
  have i: "i < bm_nbits b" "i \<notin> bm_set b" "{..<i} \<subseteq> bm_set b" "bm_ok c"
    "bm_nbits c = bm_nbits b" "bm_set c = insert i (bm_set b)" by auto
  then have "(LEAST i. i \<notin> bm_set b) = i"
    by (intro Least_equality) (auto, meson lessThan_iff not_less subsetD)
  moreover have "bm_set b \<noteq> {..<bm_nbits b}" using i by auto
  ultimately show ?thesis using i Done by (simp add: Let_def)
next
  case (Fail e c)
  with bitmap_alloc_cases [OF assms] show ?thesis by simp
next
  case (Panic p)
  with bitmap_alloc_cases [OF assms] show ?thesis by simp
qed

definition bitmap_sample :: bitmap where
  "bitmap_sample = \<lparr>bm_nbits = 3, bm_v = [0xf9]\<rparr>"

lemma bitmap_sample_facts:
  "bm_ok bitmap_sample" "bm_set bitmap_sample = {0}"
proof -
  have b: "bit (0xf9 :: byte) i \<longleftrightarrow> i \<in> {0, 3, 4, 5, 6, 7}" if "i < 8" for i
    using that by (auto simp: less_Suc_eq numeral_eq_Suc)
  show "bm_ok bitmap_sample"
    using b by (auto simp: bm_ok_def bitmap_sample_def divroundup_def bm_bit_def)
  show "bm_set bitmap_sample = {0}"
    using b by (auto simp: bm_set_def bitmap_sample_def bm_bit_def)
qed

theorem bitmap_alloc_correct_witness:
  "bm_ok bitmap_sample \<and> bitmap_alloc bitmap_sample = Done 1 \<lparr>bm_nbits = 3, bm_v = [0xfb]\<rparr> \<and>
   bm_set \<lparr>bm_nbits = 3, bm_v = [0xfb]\<rparr> = {0, 1}"
proof -
  have run: "bitmap_alloc bitmap_sample = Done 1 \<lparr>bm_nbits = 3, bm_v = [0xfb]\<rparr>"
  proof -
    have "find_clear 0xf9 0 = Some 1" by (simp add: find_clear.simps bitmask_def)
    then show ?thesis
      by (simp add: bitmap_alloc_def bitmap_alloc_from.simps [of "Suc 0" 0] bitmap_sample_def
          divroundup32_def kprog bitmask_def Let_def)
  qed
  have "1 \<in> {..<bm_nbits bitmap_sample}" "1 \<notin> bm_set bitmap_sample"
    by (simp_all only: bitmap_sample_facts) (simp_all add: bitmap_sample_def)
  then have "bm_set bitmap_sample \<noteq> {..<bm_nbits bitmap_sample}" by metis
  with bitmap_alloc_correct [OF bitmap_sample_facts(1)]
  obtain i c where "bitmap_alloc bitmap_sample = Done i c"
    and "bm_set c = insert i (bm_set bitmap_sample)"
    by (auto simp only: if_False Let_def)
  with run bitmap_sample_facts show ?thesis by (simp add: insert_commute)
qed

end
