(* ===== verification/DynArray.thy ===== *)
theory DynArray
  imports Prelude
begin

text \<open>
  The kernel's resizable array of pointers, \<^verbatim>\<open>kern/lib/array.c\<close>. A cell that has been
  allocated but not written is \<open>None\<close>; the block \<^verbatim>\<open>v\<close> itself is \<open>None\<close> when the pointer
  is null. \<open>array_list\<close> reads the array as the list of its elements, and the operations
  are shown to be the list operations their header promises.
\<close>

record 'a array =
  arr_num :: int
  arr_max :: int
  arr_v :: "'a option list option"

definition array_create :: "kmalloc_fn \<Rightarrow> 'a array option" where
  "array_create kmalloc =
     (if kmalloc 12 then Some \<lparr>arr_num = 0, arr_max = 0, arr_v = None\<rparr> else None)"

definition array_getnum :: "('a array, int) prog" where
  "array_getnum = kget arr_num"

definition array_getguy :: "int \<Rightarrow> ('a array, 'a option) prog" where
  "array_getguy index =
     kbind (kget (\<lambda>a. a)) (\<lambda>a.
     kthen (kassert (arr_num a \<le> arr_max a))
     (kthen (kassert (0 \<le> index \<and> index < arr_num a))
     (kbind (kderef (arr_v a)) (\<lambda>v. knth v (nat index)))))"

text \<open>
  The loop \<^verbatim>\<open>while (nguys > newmax) newmax = (newmax+1)*2\<close>. \<open>None\<close> is signed overflow, on
  which C gives no meaning to the rest.
\<close>

function array_newmax :: "int \<Rightarrow> int \<Rightarrow> int option" where
  "array_newmax nguys newmax =
     (if nguys > newmax
      then if newmax < 0 \<or> 2 ^ 31 \<le> (newmax + 1) * 2 then None
           else array_newmax nguys ((newmax + 1) * 2)
      else Some newmax)"
  by pat_completeness auto
termination
  by (relation "measure (\<lambda>(nguys, newmax). nat (nguys - newmax))") auto

definition array_preallocate :: "kmalloc_fn \<Rightarrow> int \<Rightarrow> ('a array, unit) prog" where
  "array_preallocate kmalloc nguys =
     kbind (kget (\<lambda>a. a)) (\<lambda>a.
     kthen (kassert (0 \<le> arr_num a \<and> arr_num a \<le> arr_max a))
     (case array_newmax nguys (arr_max a) of
        None \<Rightarrow> kpanic ''overflow''
      | Some newmax \<Rightarrow>
          if \<not> kmalloc ((nat newmax * 4) mod 2 ^ 32) then kfail ENOMEM
          else let old = (case arr_v a of None \<Rightarrow> [] | Some v \<Rightarrow> v);
                   n = nat (arr_num a);
                   newv = take n old @ replicate (nat newmax - n) None
               in kthen (kassert (n \<le> length old))
                  (kmod (\<lambda>a. a\<lparr>arr_max := newmax, arr_v := Some newv\<rparr>))))"

definition array_setsize :: "kmalloc_fn \<Rightarrow> int \<Rightarrow> ('a array, unit) prog" where
  "array_setsize kmalloc nguys =
     kbind (kget (\<lambda>a. a)) (\<lambda>a.
     kthen (kassert (0 \<le> arr_num a \<and> arr_num a \<le> arr_max a))
     (kthen
        (if nguys > arr_max a then array_preallocate kmalloc nguys
         else if nguys = 0 \<and> arr_max a > 16
              then kthen (kassert (arr_v a \<noteq> None)) (kmod (\<lambda>a. a\<lparr>arr_v := None, arr_max := 0\<rparr>))
              else kret ())
        (kmod (\<lambda>a. a\<lparr>arr_num := nguys\<rparr>))))"

definition array_setguy :: "int \<Rightarrow> 'a \<Rightarrow> ('a array, unit) prog" where
  "array_setguy index ptr =
     kbind (kget (\<lambda>a. a)) (\<lambda>a.
     kthen (kassert (arr_num a \<le> arr_max a))
     (kthen (kassert (0 \<le> index \<and> index < arr_num a))
     (kbind (kderef (arr_v a)) (\<lambda>v.
     kthen (kassert (nat index < length v))
     (kmod (\<lambda>a. a\<lparr>arr_v := Some (v[nat index := Some ptr])\<rparr>))))))"

definition array_add :: "kmalloc_fn \<Rightarrow> 'a \<Rightarrow> ('a array, unit) prog" where
  "array_add kmalloc guy =
     kbind (kget arr_num) (\<lambda>ix.
     kthen (array_setsize kmalloc (ix + 1))
     (kbind (kget arr_v) (\<lambda>p.
     kbind (kderef p) (\<lambda>v.
     kthen (kassert (nat ix < length v))
     (kmod (\<lambda>a. a\<lparr>arr_v := Some (v[nat ix := Some guy])\<rparr>))))))"

text \<open>\<^verbatim>\<open>memmove\<close> of \<open>n\<close> cells from index \<open>src\<close> to index \<open>dst\<close> of one block.\<close>

definition cells_move :: "nat \<Rightarrow> nat \<Rightarrow> nat \<Rightarrow> 'c list \<Rightarrow> 'c list" where
  "cells_move dst src n v = take dst v @ take n (drop src v) @ drop (dst + n) v"

definition array_remove :: "int \<Rightarrow> ('a array, unit) prog" where
  "array_remove index =
     kbind (kget (\<lambda>a. a)) (\<lambda>a.
     kthen (kassert (arr_num a \<le> arr_max a))
     (kthen (kassert (0 \<le> index \<and> index < arr_num a))
     (kbind (kderef (arr_v a)) (\<lambda>v.
      let nmove = nat (arr_num a - (index + 1)); i = nat index
      in kthen (kassert (i + 1 + nmove \<le> length v))
         (kmod (\<lambda>a. a\<lparr>arr_v := Some (cells_move i (i + 1) nmove v),
                      arr_num := arr_num a - 1\<rparr>))))))"

subsection \<open>What the array means\<close>

definition array_ok :: "'a array \<Rightarrow> bool" where
  "array_ok a \<longleftrightarrow> 0 \<le> arr_num a \<and> arr_num a \<le> arr_max a \<and>
     (case arr_v a of None \<Rightarrow> arr_max a = 0 | Some v \<Rightarrow> length v = nat (arr_max a))"

definition array_list :: "'a array \<Rightarrow> 'a option list" where
  "array_list a = (case arr_v a of None \<Rightarrow> [] | Some v \<Rightarrow> take (nat (arr_num a)) v)"

lemma array_ok_length: "array_ok a \<Longrightarrow> length (array_list a) = nat (arr_num a)"
  by (auto simp: array_ok_def array_list_def split: option.splits)

declare array_newmax.simps [simp del]

lemma array_newmax_ge: "array_newmax n m = Some k \<Longrightarrow> n \<le> k \<and> m \<le> k"
proof (induction n m rule: array_newmax.induct)
  case (1 n m)
  then show ?case
    by (cases "n > m") (force simp: array_newmax.simps [of n m] split: if_splits)+
qed

text \<open>Below a quarter of the integer range the doubling cannot overflow.\<close>

lemma array_newmax_returns:
  assumes "0 \<le> m" and "m < 2 ^ 31" and "n \<le> 2 ^ 30 - 1"
  shows "\<exists>k. array_newmax n m = Some k \<and> k < 2 ^ 31"
  using assms
proof (induction n m rule: array_newmax.induct)
  case (1 n m)
  show ?case
  proof (cases "n > m")
    case True
    with "1.prems" have "\<not> (m < 0 \<or> 2 ^ 31 \<le> (m + 1) * 2)" by auto
    with True "1.IH" "1.prems" show ?thesis
      by (simp add: array_newmax.simps [of n m])
  next
    case False
    with "1.prems" show ?thesis by (simp add: array_newmax.simps [of n m])
  qed
qed

lemma array_preallocate_run:
  assumes "array_ok a"
  shows "array_preallocate kmalloc nguys a =
    (case array_newmax nguys (arr_max a) of
       None \<Rightarrow> Panic ''overflow''
     | Some newmax \<Rightarrow>
         if \<not> kmalloc ((nat newmax * 4) mod 2 ^ 32) then Fail ENOMEM a
         else Done () (a\<lparr>arr_max := newmax,
                arr_v := Some (array_list a @ replicate (nat newmax - nat (arr_num a)) None)\<rparr>))"
  using assms
  by (auto simp: array_preallocate_def array_ok_def array_list_def kprog Let_def
      split: option.splits)

lemma array_preallocate_correct:
  assumes ok: "array_ok a"
    and run: "array_preallocate kmalloc nguys a = Done () b"
  shows "array_ok b \<and> array_list b = array_list a \<and> arr_num b = arr_num a \<and> nguys \<le> arr_max b
    \<and> arr_v b \<noteq> None"
proof -
  from run obtain m where m: "array_newmax nguys (arr_max a) = Some m"
    and b: "b = a\<lparr>arr_max := m,
      arr_v := Some (array_list a @ replicate (nat m - nat (arr_num a)) None)\<rparr>"
    by (auto simp: array_preallocate_run [OF ok] split: option.splits if_splits)
  from array_newmax_ge [OF m] have "nguys \<le> m" "arr_max a \<le> m" by auto
  with ok b array_ok_length [OF ok] show ?thesis
    by (auto simp: array_ok_def array_list_def)
qed

lemma array_setsize_grow:
  assumes ok: "array_ok a" and n: "arr_num a \<le> nguys" "0 < nguys"
    and run: "array_setsize kmalloc nguys a = Done () b"
  shows "array_ok b \<and> arr_num b = nguys \<and> take (nat (arr_num a)) (array_list b) = array_list a
    \<and> arr_v b \<noteq> None"
proof (cases "nguys > arr_max a")
  case True
  with run ok obtain c where c: "array_preallocate kmalloc nguys a = Done () c"
    and b: "b = c\<lparr>arr_num := nguys\<rparr>"
    by (auto simp: array_setsize_def kprog array_ok_def split: if_splits outcome.splits)
  from array_preallocate_correct [OF ok c] b n ok show ?thesis
    by (auto simp: array_ok_def array_list_def min_def split: option.splits)
next
  case False
  with run ok n have "b = a\<lparr>arr_num := nguys\<rparr>"
    by (auto simp: array_setsize_def kprog array_ok_def split: if_splits outcome.splits)
  with ok n False show ?thesis
    by (auto simp: array_ok_def array_list_def min_def split: option.splits)
qed

lemma cells_move_down:
  assumes "Suc i + n \<le> length v"
  shows "take (i + n) (cells_move i (Suc i) n v) = take i v @ take n (drop (Suc i) v)"
  using assms by (simp add: cells_move_def)

lemma array_add_correct:
  assumes ok: "array_ok a" and run: "array_add kmalloc x a = Done () b"
  shows "array_ok b \<and> array_list b = array_list a @ [Some x]"
proof -
  let ?n = "nat (arr_num a)"
  have n0: "0 \<le> arr_num a" using ok by (simp add: array_ok_def)
  from run obtain c v where c: "array_setsize kmalloc (arr_num a + 1) a = Done () c"
    and v: "arr_v c = Some v" and lt: "?n < length v" and b: "b = c\<lparr>arr_v := Some (v[?n := Some x])\<rparr>"
    by (auto simp: array_add_def kprog kderef_def split: if_splits outcome.splits option.splits)
  from array_setsize_grow [OF ok _ _ c] n0
  have c': "array_ok c" "arr_num c = arr_num a + 1" "take ?n (array_list c) = array_list a"
    by auto
  have "array_list b = take (Suc ?n) (v[?n := Some x])"
    using b c'(2) n0 by (simp add: array_list_def nat_add_distrib)
  also have "\<dots> = take ?n v @ [Some x]"
    using lt by (simp add: take_Suc_conv_app_nth)
  also have "take ?n v = array_list a"
    using c'(2,3) v n0 by (simp add: array_list_def nat_add_distrib)
  finally show ?thesis
    using c'(1) b v by (simp add: array_ok_def)
qed

text \<open>An addition that fails for want of memory leaves the array as it was.\<close>

lemma array_add_fail:
  assumes ok: "array_ok a" and run: "array_add kmalloc x a = Fail e b"
  shows "e = ENOMEM \<and> b = a"
proof -
  from run have "array_setsize kmalloc (arr_num a + 1) a = Fail e b"
    by (auto simp: array_add_def kprog kderef_def split: if_splits outcome.splits option.splits)
  then show ?thesis
    using ok by (auto simp: array_setsize_def kprog array_preallocate_run split: if_splits
        outcome.splits option.splits)
qed

lemma array_getguy_correct:
  assumes "array_ok a" and "0 \<le> i" and "i < int (length (array_list a))"
  shows "array_getguy i a = Done (array_list a ! nat i) a"
  using assms array_ok_length [OF assms(1)]
  by (auto simp: array_getguy_def array_ok_def array_list_def kprog split: option.splits)

lemma array_getguy_outside:
  assumes "array_ok a" and "\<not> (0 \<le> i \<and> i < int (length (array_list a)))"
  shows "array_getguy i a = Panic ''assertion failed''"
  using assms array_ok_length [OF assms(1)]
  by (auto simp: array_getguy_def array_ok_def kprog)

lemma array_setguy_correct:
  assumes ok: "array_ok a" and i: "0 \<le> i" "i < int (length (array_list a))"
  shows "\<exists>b. array_setguy i x a = Done () b \<and> array_ok b \<and>
    array_list b = (array_list a)[nat i := Some x]"
  using assms array_ok_length [OF assms(1)]
  by (auto simp: array_setguy_def array_ok_def array_list_def kprog take_update_swap
      split: option.splits)

lemma array_remove_correct:
  assumes ok: "array_ok a" and i: "0 \<le> i" "i < int (length (array_list a))"
  shows "\<exists>b. array_remove i a = Done () b \<and> array_ok b \<and>
    array_list b = take (nat i) (array_list a) @ drop (Suc (nat i)) (array_list a)"
proof -
  let ?n = "nat (arr_num a - (i + 1))" and ?i = "nat i"
  have len: "length (array_list a) = nat (arr_num a)" by (rule array_ok_length [OF ok])
  then obtain v where v: "arr_v a = Some v" using i by (auto simp: array_list_def split: option.splits if_splits)
  have room: "Suc ?i + ?n \<le> length v" and sum: "?i + ?n = nat (arr_num a - 1)"
    and num: "nat (arr_num a) = Suc (?i + ?n)"
    using ok v i len by (auto simp: array_ok_def)
  define b where "b = a\<lparr>arr_v := Some (cells_move ?i (Suc ?i) ?n v), arr_num := arr_num a - 1\<rparr>"
  have "array_remove i a = Done () b"
    using ok v i len room by (simp add: array_remove_def b_def array_ok_def kprog Let_def)
  moreover have "array_ok b"
    using ok v i len room by (auto simp: b_def array_ok_def cells_move_def)
  moreover have "array_list b = take ?i (array_list a) @ drop (Suc ?i) (array_list a)"
    using cells_move_down [OF room] v by (simp add: b_def array_list_def sum [symmetric] num drop_take)
  ultimately show ?thesis by blast
qed

lemma array_shrink_to_empty:
  assumes "array_ok a"
  shows "\<exists>b. array_setsize kmalloc 0 a = Done () b \<and> array_ok b \<and> array_list b = []"
  using assms
  by (auto simp: array_setsize_def kprog array_ok_def array_list_def split: option.splits)

subsection \<open>The interface: a sequence of pointers\<close>

text \<open>
  What the users of the array (the sleepers and zombies of the thread system, the device
  list of the VFS layer, the vnode table of SFS) rely on.
\<close>

locale pointer_seq =
  fixes add :: "'a \<Rightarrow> ('s, unit) prog"
    and get :: "int \<Rightarrow> ('s, 'a option) prog"
    and remove :: "int \<Rightarrow> ('s, unit) prog"
    and contents :: "'s \<Rightarrow> 'a option list"
    and ok :: "'s \<Rightarrow> bool"
  assumes add_done: "ok s \<Longrightarrow> add x s = Done () t \<Longrightarrow> ok t \<and> contents t = contents s @ [Some x]"
    and add_fail: "ok s \<Longrightarrow> add x s = Fail e t \<Longrightarrow> t = s"
    and get_done: "ok s \<Longrightarrow> 0 \<le> i \<Longrightarrow> i < int (length (contents s)) \<Longrightarrow>
      get i s = Done (contents s ! nat i) s"
    and remove_done: "ok s \<Longrightarrow> 0 \<le> i \<Longrightarrow> i < int (length (contents s)) \<Longrightarrow>
      \<exists>t. remove i s = Done () t \<and> ok t \<and>
        contents t = take (nat i) (contents s) @ drop (Suc (nat i)) (contents s)"
begin

lemma adds_contents:
  assumes "ok s" and "kseq (map add xs) s = Done () t"
  shows "ok t \<and> contents t = contents s @ map Some xs"
  using assms
proof (induction xs arbitrary: s)
  case Nil
  then show ?case by (simp add: kprog)
next
  case (Cons x xs)
  then obtain u where u: "add x s = Done () u" and "kseq (map add xs) u = Done () t"
    by (auto simp: kprog split: outcome.splits)
  with Cons.IH [of u] add_done [OF Cons.prems(1) u] show ?case by simp
qed

lemma add_then_get:
  assumes "ok s" and "add x s = Done () t"
  shows "get (int (length (contents s))) t = Done (Some x) t"
  using add_done [OF assms] by (subst get_done) auto

lemma add_then_remove:
  assumes "ok s" and "add x s = Done () t"
  shows "\<exists>u. remove (int (length (contents s))) t = Done () u \<and> ok u \<and> contents u = contents s"
proof -
  from add_done [OF assms] have t: "ok t" "contents t = contents s @ [Some x]" by auto
  from remove_done [OF t(1), of "int (length (contents s))"] t(2) show ?thesis by auto
qed

end

interpretation arr: pointer_seq "array_add kmalloc" array_getguy array_remove array_list array_ok
  for kmalloc
  by unfold_locales
     (blast dest: array_add_correct array_add_fail array_getguy_correct array_remove_correct)+

subsection \<open>Sequences of operations\<close>

datatype 'a array_op = Add 'a | Remove int | Setguy int 'a

fun array_exec :: "kmalloc_fn \<Rightarrow> 'a array_op \<Rightarrow> ('a array, unit) prog" where
  "array_exec kmalloc (Add x) = array_add kmalloc x"
| "array_exec kmalloc (Remove i) = array_remove i"
| "array_exec kmalloc (Setguy i x) = array_setguy i x"

fun list_exec :: "'a array_op \<Rightarrow> 'a option list \<Rightarrow> 'a option list option" where
  "list_exec (Add x) xs = Some (xs @ [Some x])"
| "list_exec (Remove i) xs =
     (if 0 \<le> i \<and> i < int (length xs) then Some (take (nat i) xs @ drop (Suc (nat i)) xs) else None)"
| "list_exec (Setguy i x) xs =
     (if 0 \<le> i \<and> i < int (length xs) then Some (xs[nat i := Some x]) else None)"

fun list_run :: "'a array_op list \<Rightarrow> 'a option list \<Rightarrow> 'a option list option" where
  "list_run [] xs = Some xs"
| "list_run (r # rs) xs = (case list_exec r xs of None \<Rightarrow> None | Some ys \<Rightarrow> list_run rs ys)"

lemma array_remove_outside:
  assumes "array_ok a" and "\<not> (0 \<le> i \<and> i < int (length (array_list a)))"
  shows "array_remove i a = Panic ''assertion failed''"
  using assms array_ok_length [OF assms(1)]
  by (auto simp: array_remove_def array_ok_def kprog)

lemma array_setguy_outside:
  assumes "array_ok a" and "\<not> (0 \<le> i \<and> i < int (length (array_list a)))"
  shows "array_setguy i x a = Panic ''assertion failed''"
  using assms array_ok_length [OF assms(1)]
  by (auto simp: array_setguy_def array_ok_def kprog)

lemma array_exec_refines:
  assumes ok: "array_ok a" and run: "array_exec kmalloc r a = Done () b"
  shows "array_ok b \<and> list_exec r (array_list a) = Some (array_list b)"
proof (cases r)
  case (Add x)
  with run array_add_correct [OF ok] show ?thesis by simp
next
  case (Remove i)
  with run array_remove_outside [OF ok, of i] have i: "0 \<le> i \<and> i < int (length (array_list a))"
    by auto
  with run Remove array_remove_correct [OF ok, of i] show ?thesis by auto
next
  case (Setguy i x)
  with run array_setguy_outside [OF ok, of i x] have i: "0 \<le> i \<and> i < int (length (array_list a))"
    by auto
  with run Setguy array_setguy_correct [OF ok, of i x] show ?thesis by auto
qed

text \<open>
  C1. The resizable array is a list. Whatever sequence of additions, removals and
  overwrites succeeds on a well-formed array leaves a well-formed array, and its elements
  are those the same sequence gives on a plain list (in particular no sequence that
  succeeds ever addresses an element that is not there).
\<close>

theorem array_refines_list:
  assumes "array_ok a" and "kseq (map (array_exec kmalloc) rs) a = Done () b"
  shows "array_ok b \<and> list_run rs (array_list a) = Some (array_list b)"
  using assms
proof (induction rs arbitrary: a)
  case Nil
  then show ?case by (simp add: kprog)
next
  case (Cons r rs)
  then obtain c where c: "array_exec kmalloc r a = Done () c"
    and rest: "kseq (map (array_exec kmalloc) rs) c = Done () b"
    by (auto simp: kprog split: outcome.splits)
  from array_exec_refines [OF Cons.prems(1) c] Cons.IH [OF _ rest] show ?case by auto
qed

definition array_sample :: "nat array" where
  "array_sample = \<lparr>arr_num = 1, arr_max = 2, arr_v = Some [Some 4, None]\<rparr>"

lemma array_sample_run:
  "kseq (map (array_exec (\<lambda>_. True)) [Add 5, Add 7, Remove 0, Setguy 1 9]) array_sample =
   Done () \<lparr>arr_num = 2, arr_max = 6, arr_v = Some [Some 5, Some 9, Some 7, None, None, None]\<rparr>"
  by (simp add: array_sample_def array_add_def array_setsize_def array_preallocate_def
      array_remove_def array_setguy_def cells_move_def array_newmax.simps kprog Let_def
      replicate_Suc numeral_eq_Suc)

theorem array_refines_list_witness:
  "array_ok array_sample \<and>
   (\<exists>b. kseq (map (array_exec (\<lambda>_. True)) [Add 5, Add 7, Remove 0, Setguy 1 9]) array_sample = Done () b
      \<and> array_ok b \<and> list_run [Add 5, Add 7, Remove 0, Setguy 1 9] (array_list array_sample) =
            Some (array_list b) \<and> array_list b = [Some 5, Some 9])"
proof -
  have ok: "array_ok array_sample" by (simp add: array_ok_def array_sample_def)
  show ?thesis
    using ok array_refines_list [OF ok array_sample_run] array_sample_run
    by (simp add: array_list_def)
qed

end
