(* ===== verification/RingQueue.thy ===== *)
theory RingQueue
  imports Prelude
begin

text \<open>
  The resizable queue of pointers of \<^verbatim>\<open>kern/lib/queue.c\<close>, which the scheduler uses as its
  run queue: a ring buffer that doubles when it is full. A cell is \<open>None\<close> until something is
  written to it. \<open>q_list\<close> reads a queue as the list of its elements, oldest first.
\<close>

record 'a queue =
  q_size :: nat
  q_nextwrite :: nat
  q_nextread :: nat
  q_data :: "'a option list"

text \<open>\<^verbatim>\<open>nsize * sizeof(void *)\<close> as a \<^verbatim>\<open>size_t\<close>, and the cells such an allocation holds.\<close>

definition ptr_bytes :: "nat \<Rightarrow> nat" where
  "ptr_bytes n = 4 * n mod 2 ^ 32"

definition fresh_cells :: "nat \<Rightarrow> 'a option list" where
  "fresh_cells bytes = replicate (bytes div 4) None"

text \<open>
  The doubling loop of \<^verbatim>\<open>q_grow\<close>. A product of \<open>2 ^ 31\<close> or more wraps to a negative int, and
  the assertion against that (and against a size of 0) is \<open>None\<close>.
\<close>

function q_newsize :: "nat \<Rightarrow> int \<Rightarrow> nat option" where
  "q_newsize nsize target =
     (if int nsize < target
      then if 0 < nsize \<and> 2 * nsize < 2 ^ 31 then q_newsize (2 * nsize) target else None
      else Some nsize)"
  by pat_completeness auto
termination
  by (relation "measure (\<lambda>(nsize, target). 2 ^ 31 - nsize)") auto

text \<open>
  The copying loop of \<^verbatim>\<open>q_grow\<close>, \<open>for (i = onr; i != onw; i = (i+1) % osize)\<close>, with \<open>fuel\<close> rounds
  at most.
\<close>

fun q_refill :: "('a \<Rightarrow> ('s, unit) prog) \<Rightarrow> 'a option list \<Rightarrow> nat \<Rightarrow> nat \<Rightarrow> nat \<Rightarrow> nat \<Rightarrow> ('s, unit) prog" where
  "q_refill addtail olddata osize onw i 0 = (if i = onw then kret () else kpanic ''loop bound'')"
| "q_refill addtail olddata osize onw i (Suc fuel) =
     (if i = onw then kret ()
      else kbind (knth olddata i) (\<lambda>cell. kbind (kderef cell) (\<lambda>x.
           kbind (kcatch (addtail x)) (\<lambda>result.
           kthen (kassert (\<not> isl result))
           (q_refill addtail olddata osize onw ((i + 1) mod osize) fuel)))))"

definition q_grow :: "('a \<Rightarrow> ('a queue, unit) prog) \<Rightarrow> kmalloc_fn \<Rightarrow> int \<Rightarrow> ('a queue, unit) prog" where
  "q_grow addtail kmalloc targetsize =
     kbind (kget (\<lambda>q. q)) (\<lambda>old.
     case q_newsize (q_size old) targetsize of
       None \<Rightarrow> kpanic ''assertion failed''
     | Some nsize \<Rightarrow>
         if \<not> kmalloc (ptr_bytes nsize) then kfail ENOMEM
         else kthen (kmod (\<lambda>q. q\<lparr>q_size := nsize, q_data := fresh_cells (ptr_bytes nsize),
                                  q_nextread := 0, q_nextwrite := 0\<rparr>))
              (q_refill addtail (q_data old) (q_size old) (q_nextwrite old) (q_nextread old) (q_size old)))"

text \<open>
  \<^verbatim>\<open>q_addtail\<close> and \<^verbatim>\<open>q_grow\<close> call each other; \<open>q_addtail_rec d\<close> is \<^verbatim>\<open>q_addtail\<close> with that call chain
  cut at depth \<open>d\<close>. Adding to a queue that was just grown never grows it again, so depth 2
  is all there is.
\<close>

fun q_addtail_rec :: "nat \<Rightarrow> kmalloc_fn \<Rightarrow> 'a \<Rightarrow> ('a queue, unit) prog" where
  "q_addtail_rec 0 kmalloc ptr = kpanic ''call depth''"
| "q_addtail_rec (Suc d) kmalloc ptr =
     kbind (kget (\<lambda>q. q)) (\<lambda>q.
     kthen (kassert (0 < q_size q))
     (kthen (if (q_nextwrite q + 1) mod q_size q = q_nextread q
             then q_grow (q_addtail_rec d kmalloc) kmalloc (wrap32 (int (q_size q) + 1))
             else kret ())
     (kbind (kget (\<lambda>q. q)) (\<lambda>q.
      let nextnext = (q_nextwrite q + 1) mod q_size q in
      kbind (knth (q_data q) (q_nextwrite q)) (\<lambda>_.
      kmod (\<lambda>q. q\<lparr>q_data := (q_data q)[q_nextwrite q := Some ptr], q_nextwrite := nextnext\<rparr>))))))"

definition q_addtail :: "kmalloc_fn \<Rightarrow> 'a \<Rightarrow> ('a queue, unit) prog" where
  "q_addtail = q_addtail_rec 2"

definition q_create :: "kmalloc_fn \<Rightarrow> nat \<Rightarrow> ('s, 'a queue option) prog" where
  "q_create kmalloc sz =
     (if \<not> kmalloc 16 then kret None
      else if \<not> kmalloc (ptr_bytes sz) then kret None
      else kret (Some \<lparr>q_size = sz, q_nextwrite = 0, q_nextread = 0,
                       q_data = fresh_cells (ptr_bytes sz)\<rparr>))"

definition q_preallocate :: "kmalloc_fn \<Rightarrow> int \<Rightarrow> ('a queue, unit) prog" where
  "q_preallocate kmalloc sz =
     kbind (kget q_size) (\<lambda>qsize.
     kthen (kassert (0 < qsize))
     (if sz > int qsize then q_grow (q_addtail kmalloc) kmalloc sz else kret ()))"

definition q_empty :: "'a queue \<Rightarrow> bool" where
  "q_empty q \<longleftrightarrow> q_nextwrite q = q_nextread q"

definition q_remhead :: "('a queue, 'a) prog" where
  "q_remhead =
     kbind (kget (\<lambda>q. q)) (\<lambda>q.
     kthen (kassert (0 < q_size q))
     (kthen (kassert (\<not> q_empty q))
     (kbind (knth (q_data q) (q_nextread q)) (\<lambda>cell. kbind (kderef cell) (\<lambda>ret.
      kthen (kmod (\<lambda>q. q\<lparr>q_nextread := (q_nextread q + 1) mod q_size q\<rparr>))
      (kret ret))))))"

definition q_getstart :: "'a queue \<Rightarrow> nat" where "q_getstart q = q_nextread q"

definition q_getend :: "'a queue \<Rightarrow> nat" where "q_getend q = q_nextwrite q"

definition q_getsize :: "'a queue \<Rightarrow> nat" where "q_getsize q = q_size q"

definition q_getguy :: "int \<Rightarrow> ('a queue, 'a option) prog" where
  "q_getguy index =
     kbind (kget (\<lambda>q. q)) (\<lambda>q.
     kthen (kassert (0 \<le> index \<and> index < int (q_size q)))
     (knth (q_data q) (nat index)))"

definition q_destroy :: "('a queue, unit) prog" where
  "q_destroy = kbind (kget q_empty) kassert"

declare q_newsize.simps [simp del] q_addtail_rec.simps [simp del]

subsection \<open>What a queue means\<close>

definition ring :: "'a option list \<Rightarrow> nat \<Rightarrow> nat \<Rightarrow> nat \<Rightarrow> 'a list" where
  "ring cells sz start n = map (\<lambda>k. the (cells ! ((start + k) mod sz))) [0..<n]"

definition q_len :: "'a queue \<Rightarrow> nat" where
  "q_len q = (q_nextwrite q + q_size q - q_nextread q) mod q_size q"

definition q_list :: "'a queue \<Rightarrow> 'a list" where
  "q_list q = ring (q_data q) (q_size q) (q_nextread q) (q_len q)"

text \<open>
  The bound on the size is what the machine can hold: the kernel's memory is the 512 MB
  of \<^verbatim>\<open>kseg0\<close>, that is \<open>2 ^ 27\<close> pointers.
\<close>

definition q_ok :: "'a queue \<Rightarrow> bool" where
  "q_ok q \<longleftrightarrow> 0 < q_size q \<and> q_size q \<le> 2 ^ 27 \<and> length (q_data q) = q_size q \<and>
     q_nextread q < q_size q \<and> q_nextwrite q < q_size q \<and>
     (\<forall>k < q_len q. q_data q ! ((q_nextread q + k) mod q_size q) \<noteq> None)"

definition kseg0_bounded :: "kmalloc_fn \<Rightarrow> bool" where
  "kseg0_bounded kmalloc \<longleftrightarrow> (\<forall>n. kmalloc n \<longrightarrow> n \<le> 2 ^ 29)"

text \<open>Index arithmetic on the ring.\<close>

lemma ring_dist:
  assumes "r < s" and "w < (s::nat)"
  shows "(w + s - r) mod s = (if r \<le> w then w - r else w + s - r)"
proof (cases "r \<le> w")
  case True
  then have "w + s - r = w - r + s" by simp
  then have "(w + s - r) mod s = (w - r) mod s" by (simp only: mod_add_self2)
  with True assms show ?thesis by simp
qed (use assms in simp)

lemma succ_mod: "w < s \<Longrightarrow> (w + 1) mod s = (if w + 1 = s then 0 else w + (1::nat))"
  by auto

lemma ring_pos:
  assumes "r < s" and "w < s"
  shows "(r + (w + s - r) mod s) mod s = (w::nat)"
  unfolding ring_dist [OF assms] using assms by auto

lemma ring_inj:
  assumes "r < s" and "k < s" and "n < s" and "(r + k) mod s = (r + n) mod (s::nat)"
  shows "k = n"
proof -
  have m: "(r + k) mod s = (if r + k < s then r + k else r + k - s)" if "k < s" for k
    using that assms(1) by (auto simp: not_less le_mod_geq)
  show ?thesis using assms m [of k] m [of n] by (auto split: if_splits)
qed

lemma ring_len_Suc:
  assumes "r < s" and "w < s" and "(w + 1) mod s \<noteq> r"
  shows "((w + 1) mod s + s - r) mod s = Suc ((w + s - r) mod s)"
  using assms ring_dist [of r s w] ring_dist [of r s "(w + 1) mod s"] succ_mod [of w s]
  by (auto split: if_splits)

lemma ring_full_len:
  assumes "r < s" and "w < s" and "(w + 1) mod s = r"
  shows "(w + s - r) mod s = s - (1::nat)"
  using assms ring_dist [of r s w] succ_mod [of w s] by (auto split: if_splits)

lemma ring_len_step:
  assumes "r < s" and "w < s" and "r \<noteq> w"
  shows "(w + s - r) mod s = Suc ((w + s - (r + 1) mod s) mod s)"
  using assms ring_dist [of r s w] ring_dist [of "(r + 1) mod s" s w] succ_mod [of r s]
  by (auto split: if_splits)

lemma ring_Suc: "ring cells s r (Suc n) = ring cells s r n @ [the (cells ! ((r + n) mod s))]"
  by (simp add: ring_def)

lemma ring_Cons:
  "ring cells s r (Suc n) = the (cells ! (r mod s)) # ring cells s ((r + 1) mod s) n"
proof -
  have "[0..<Suc n] = 0 # map Suc [0..<n]" by (simp add: map_Suc_upt upt_conv_Cons del: upt_Suc)
  then show ?thesis by (simp add: ring_def mod_simps comp_def)
qed

lemma ring_cong:
  "(\<And>k. k < n \<Longrightarrow> c ! ((r + k) mod s) = d ! ((r + k) mod s)) \<Longrightarrow> ring c s r n = ring d s r n"
  by (simp add: ring_def)

subsection \<open>The operations against the list of elements\<close>

lemma q_len_less: "q_ok q \<Longrightarrow> q_len q < q_size q"
  by (simp add: q_len_def q_ok_def)

lemma q_empty_correct: "q_ok q \<Longrightarrow> q_empty q \<longleftrightarrow> q_list q = []"
  using ring_dist [of "q_nextread q" "q_size q" "q_nextwrite q"]
  by (auto simp: q_empty_def q_list_def q_len_def ring_def q_ok_def split: if_splits)

text \<open>Writing the cell at \<^verbatim>\<open>nextwrite\<close> when the queue is not full.\<close>

definition q_put :: "'a \<Rightarrow> 'a queue \<Rightarrow> 'a queue" where
  "q_put x q = q\<lparr>q_data := (q_data q)[q_nextwrite q := Some x],
                  q_nextwrite := (q_nextwrite q + 1) mod q_size q\<rparr>"

lemma q_put_correct:
  assumes ok: "q_ok q" and room: "Suc (q_len q) < q_size q"
  shows "q_ok (q_put x q)" "q_list (q_put x q) = q_list q @ [x]"
    "q_len (q_put x q) = Suc (q_len q)" "q_size (q_put x q) = q_size q"
proof -
  have r: "q_nextread q < q_size q" and w: "q_nextwrite q < q_size q"
    and d: "length (q_data q) = q_size q" using ok by (auto simp: q_ok_def)
  have nw: "(q_nextread q + q_len q) mod q_size q = q_nextwrite q"
    unfolding q_len_def by (rule ring_pos [OF r w])
  have notfull: "(q_nextwrite q + 1) mod q_size q \<noteq> q_nextread q"
    using ring_full_len [OF r w] room by (auto simp: q_len_def)
  show len: "q_len (q_put x q) = Suc (q_len q)"
    using ring_len_Suc [OF r w notfull] by (simp add: q_len_def q_put_def)
  have cell: "q_data (q_put x q) ! ((q_nextread q + k) mod q_size q) =
      (if k = q_len q then Some x else q_data q ! ((q_nextread q + k) mod q_size q))"
    if "k < Suc (q_len q)" for k
  proof (cases "k = q_len q")
    case True
    then show ?thesis using nw w d by (simp add: q_put_def)
  next
    case False
    then have "(q_nextread q + k) mod q_size q \<noteq> q_nextwrite q"
      using ring_inj [OF r, of k "q_len q"] that room nw by auto
    then show ?thesis using False by (simp add: q_put_def)
  qed
  have "q_data q ! ((q_nextread q + k) mod q_size q) \<noteq> None" if "k < q_len q" for k
    using ok that by (simp add: q_ok_def)
  then show "q_ok (q_put x q)"
    using ok cell len by (auto simp: q_ok_def q_put_def less_Suc_eq)
  show "q_list (q_put x q) = q_list q @ [x]"
  proof -
    have "ring (q_data (q_put x q)) (q_size q) (q_nextread q) (q_len q) = q_list q"
      unfolding q_list_def by (rule ring_cong) (simp add: cell)
    then show ?thesis
      using cell [of "q_len q"] len by (simp add: q_list_def ring_Suc) (simp add: q_put_def)
  qed
  show "q_size (q_put x q) = q_size q" by (simp add: q_put_def)
qed

lemma q_addtail_room:
  assumes ok: "q_ok q" and room: "Suc (q_len q) < q_size q"
  shows "q_addtail_rec (Suc d) kmalloc x q = Done () (q_put x q)"
proof -
  have "(q_nextwrite q + 1) mod q_size q \<noteq> q_nextread q"
    using ring_full_len [of "q_nextread q" "q_size q" "q_nextwrite q"] assms
    by (auto simp: q_len_def q_ok_def)
  then show ?thesis using ok by (simp add: q_addtail_rec.simps kprog Let_def q_ok_def q_put_def)
qed

lemma q_refill_correct:
  assumes "q_ok q" and "i < osize" and "onw < osize" and "length cells = osize"
    and "n = (onw + osize - i) mod osize" and "n \<le> fuel" and "q_len q + n < q_size q"
    and "\<And>k. k < n \<Longrightarrow> cells ! ((i + k) mod osize) \<noteq> None"
  shows "\<exists>q'. q_refill (q_addtail_rec (Suc d) kmalloc) cells osize onw i fuel q = Done () q' \<and>
      q_ok q' \<and> q_size q' = q_size q \<and> q_list q' = q_list q @ ring cells osize i n"
  using assms
proof (induction fuel arbitrary: q i n)
  case 0
  then have "i = onw" using ring_dist [of i osize onw] by (auto split: if_splits)
  with 0 show ?case by (simp add: kprog ring_def)
next
  case (Suc fuel)
  show ?case
  proof (cases "i = onw")
    case True
    with Suc.prems show ?thesis by (simp add: kprog ring_def)
  next
    case False
    let ?j = "(i + 1) mod osize" and ?m = "(onw + osize - (i + 1) mod osize) mod osize"
    have n: "n = Suc ?m" using ring_len_step [OF Suc.prems(2,3) False] Suc.prems(5) by simp
    then obtain x where x: "cells ! i = Some x" using Suc.prems(8) [of 0] Suc.prems(2) by auto
    have room: "Suc (q_len q) < q_size q" using Suc.prems(7) n by simp
    have "cells ! ((?j + k) mod osize) \<noteq> None" if "k < ?m" for k
      using Suc.prems(8) [of "Suc k"] that n by (simp add: mod_simps)
    then obtain q' where q': "q_refill (q_addtail_rec (Suc d) kmalloc) cells osize onw ?j fuel (q_put x q) =
        Done () q'" "q_ok q'" "q_size q' = q_size q" "q_list q' = q_list q @ [x] @ ring cells osize ?j ?m"
      using Suc.IH [of "q_put x q" ?j ?m] Suc.prems n q_put_correct [OF Suc.prems(1) room]
      by auto
    have "q_refill (q_addtail_rec (Suc d) kmalloc) cells osize onw i (Suc fuel) q = Done () q'"
      using False x Suc.prems(2,4) q'(1) q_addtail_room [OF Suc.prems(1) room]
      by (simp add: kprog)
    moreover have "ring cells osize i n = x # ring cells osize ?j ?m"
      using n x Suc.prems(2) by (simp add: ring_Cons)
    ultimately show ?thesis using q' by auto
  qed
qed

lemma q_newsize_Some:
  "0 < n \<Longrightarrow> int n < t \<Longrightarrow> t \<le> 2 ^ 29 \<Longrightarrow>
   \<exists>m. q_newsize n t = Some m \<and> n < m \<and> t \<le> int m \<and> m < 2 ^ 30"
proof (induction n t rule: q_newsize.induct)
  case (1 n t)
  have step: "q_newsize n t = q_newsize (2 * n) t"
    using "1.prems" by (simp add: q_newsize.simps [of n t])
  show ?case
  proof (cases "int (2 * n) < t")
    case True
    with "1.IH" "1.prems" obtain m where "q_newsize (2 * n) t = Some m" "2 * n < m" "t \<le> int m"
      "m < 2 ^ 30" by auto
    with step show ?thesis by simp
  next
    case False
    then have "q_newsize (2 * n) t = Some (2 * n)" by (simp add: q_newsize.simps [of "2 * n" t])
    with step False "1.prems" show ?thesis by simp
  qed
qed

lemma q_grow_correct:
  assumes ok: "q_ok q" and bounded: "kseg0_bounded kmalloc"
    and t: "int (q_size q) < t" "t \<le> 2 ^ 29"
  shows "(\<exists>q'. q_grow (q_addtail_rec (Suc d) kmalloc) kmalloc t q = Done () q' \<and> q_ok q' \<and>
            q_list q' = q_list q \<and> t \<le> int (q_size q') \<and> q_size q < q_size q') \<or>
         q_grow (q_addtail_rec (Suc d) kmalloc) kmalloc t q = Fail ENOMEM q"
proof -
  have r: "q_nextread q < q_size q" and w: "q_nextwrite q < q_size q"
    and d: "length (q_data q) = q_size q" using ok by (auto simp: q_ok_def)
  obtain m where m: "q_newsize (q_size q) t = Some m" "q_size q < m" "t \<le> int m" "m < 2 ^ 30"
    using q_newsize_Some [of "q_size q" t] ok t by (auto simp: q_ok_def)
  show ?thesis
  proof (cases "kmalloc (ptr_bytes m)")
    case False
    then show ?thesis using m by (simp add: q_grow_def kprog)
  next
    case True
    let ?e = "q\<lparr>q_size := m, q_data := fresh_cells (ptr_bytes m), q_nextread := 0, q_nextwrite := 0\<rparr>"
    have pb: "ptr_bytes m = 4 * m" using m by (simp add: ptr_bytes_def)
    then have "m \<le> 2 ^ 27" using bounded True by (auto simp: kseg0_bounded_def)
    then have e: "q_ok ?e" "q_list ?e = []" "q_len ?e = 0"
      using m pb by (simp_all add: q_ok_def q_len_def q_list_def ring_def fresh_cells_def)
    have "\<exists>q'. q_refill (q_addtail_rec (Suc d) kmalloc) (q_data q) (q_size q) (q_nextwrite q)
        (q_nextread q) (q_size q) ?e = Done () q' \<and> q_ok q' \<and> q_size q' = q_size ?e \<and>
        q_list q' = q_list ?e @ ring (q_data q) (q_size q) (q_nextread q) (q_len q)"
    proof (rule q_refill_correct [OF e(1) r w d q_len_def])
      show "q_len q \<le> q_size q" "q_len ?e + q_len q < q_size ?e"
        using q_len_less [OF ok] m e by simp_all
      show "q_data q ! ((q_nextread q + k) mod q_size q) \<noteq> None" if "k < q_len q" for k
        using ok that by (simp add: q_ok_def)
    qed
    then show ?thesis using m True e by (simp add: q_grow_def kprog) (auto simp: q_list_def)
  qed
qed

lemma wrap32_succ_size: "q_ok q \<Longrightarrow> wrap32 (int (q_size q) + 1) = int (q_size q) + 1"
  by (intro wrap32_id) (auto simp: q_ok_def)

lemma q_addtail_rec_correct:
  assumes ok: "q_ok q" and bounded: "kseg0_bounded kmalloc"
  shows "(\<exists>q'. q_addtail_rec (Suc (Suc d)) kmalloc x q = Done () q' \<and> q_ok q' \<and>
            q_list q' = q_list q @ [x]) \<or>
         q_addtail_rec (Suc (Suc d)) kmalloc x q = Fail ENOMEM q"
proof (cases "(q_nextwrite q + 1) mod q_size q = q_nextread q")
  case False
  then have "q_len (q_put x q) = Suc (q_len q)"
    using ring_len_Suc [OF _ _ False] ok by (auto simp: q_len_def q_put_def q_ok_def)
  moreover have "q_len (q_put x q) < q_size q" using ok by (simp add: q_len_def q_put_def q_ok_def)
  ultimately show ?thesis
    using q_addtail_room [OF ok] q_put_correct [OF ok] by auto
next
  case True
  let ?g = "q_grow (q_addtail_rec (Suc d) kmalloc) kmalloc (int (q_size q) + 1) q"
  have szb: "q_size q \<le> 2 ^ 27" using ok by (simp add: q_ok_def)
  consider q' where "?g = Done () q'" "q_ok q'" "q_list q' = q_list q" "q_size q < q_size q'"
    | "?g = Fail ENOMEM q"
    using q_grow_correct [OF ok bounded, of "int (q_size q) + 1" d] szb by auto
  then show ?thesis
  proof cases
    case 1
    have "q_len q' = q_len q" using arg_cong [OF 1(3), of length] by (simp add: q_list_def ring_def)
    then have room: "Suc (q_len q') < q_size q'" using q_len_less [OF ok] 1(4) by simp
    have "q_addtail_rec (Suc (Suc d)) kmalloc x q = q_addtail_rec (Suc d) kmalloc x q'"
      using True 1(1) ok q_addtail_room [OF 1(2) room] 1(2)
      by (simp add: q_addtail_rec.simps(2) [of "Suc d"] kprog Let_def q_ok_def q_put_def
          wrap32_succ_size [OF ok])
    with q_addtail_room [OF 1(2) room] q_put_correct [OF 1(2) room] 1 show ?thesis by auto
  next
    case 2
    then show ?thesis using True ok
      by (simp add: q_addtail_rec.simps(2) [of "Suc d"] kprog q_ok_def wrap32_succ_size [OF ok])
  qed
qed

lemma q_addtail_correct:
  assumes "q_ok q" and "kseg0_bounded kmalloc"
  shows "(\<exists>q'. q_addtail kmalloc x q = Done () q' \<and> q_ok q' \<and> q_list q' = q_list q @ [x]) \<or>
         q_addtail kmalloc x q = Fail ENOMEM q"
  unfolding q_addtail_def numeral_2_eq_2 by (rule q_addtail_rec_correct [OF assms])

lemma q_remhead_correct:
  assumes ok: "q_ok q"
  shows "case q_list q of
           [] \<Rightarrow> q_remhead q = Panic ''assertion failed''
         | x # xs \<Rightarrow> \<exists>q'. q_remhead q = Done x q' \<and> q_ok q' \<and> q_list q' = xs"
proof (cases "q_nextread q = q_nextwrite q")
  case True
  then have "q_list q = []" using q_empty_correct [OF ok] by (simp add: q_empty_def)
  then show ?thesis using True ok by (simp add: q_remhead_def kprog q_empty_def q_ok_def)
next
  case False
  let ?q = "q\<lparr>q_nextread := (q_nextread q + 1) mod q_size q\<rparr>"
  have r: "q_nextread q < q_size q" and w: "q_nextwrite q < q_size q"
    and d: "length (q_data q) = q_size q" using ok by (auto simp: q_ok_def)
  have len: "q_len q = Suc (q_len ?q)"
    using ring_len_step [OF r w False] by (simp add: q_len_def)
  have cells: "q_data q ! ((q_nextread q + k) mod q_size q) \<noteq> None" if "k < Suc (q_len ?q)" for k
    using ok that len by (simp add: q_ok_def)
  obtain x where x: "q_data q ! q_nextread q = Some x" using cells [of 0] r by auto
  have "q_list q = x # q_list ?q" using x r len by (simp add: q_list_def ring_Cons)
  moreover have "q_remhead q = Done x ?q"
    using False ok x by (simp add: q_remhead_def kprog q_empty_def q_ok_def)
  moreover have "q_ok ?q"
    using ok cells [of "Suc _"] by (simp add: q_ok_def mod_simps)
  ultimately show ?thesis by auto
qed

subsection \<open>The contract the scheduler relies on\<close>

text \<open>
  A client that never takes from an empty queue: \<open>Inl x\<close> offers \<open>x\<close>, \<open>Inr ()\<close> takes the head if
  there is one. The result is what was accepted, what came out, and the queue left; \<open>None\<close> if
  the kernel went down.
\<close>

fun fifo_client :: "('a \<Rightarrow> ('q, unit) prog) \<Rightarrow> ('q, 'a) prog \<Rightarrow> ('q \<Rightarrow> bool) \<Rightarrow> ('a + unit) list \<Rightarrow> 'q
    \<Rightarrow> ('a list \<times> 'a list \<times> 'q) option" where
  "fifo_client enq deq isempty [] q = Some ([], [], q)"
| "fifo_client enq deq isempty (Inl x # rs) q =
     (case enq x q of
        Done _ q' \<Rightarrow> map_option (\<lambda>(ins, outs, r). (x # ins, outs, r)) (fifo_client enq deq isempty rs q')
      | Fail e q' \<Rightarrow> fifo_client enq deq isempty rs q'
      | Panic p \<Rightarrow> None)"
| "fifo_client enq deq isempty (Inr _ # rs) q =
     (if isempty q then fifo_client enq deq isempty rs q
      else case deq q of
             Done y q' \<Rightarrow> map_option (\<lambda>(ins, outs, r). (ins, y # outs, r)) (fifo_client enq deq isempty rs q')
           | Fail e q' \<Rightarrow> None
           | Panic p \<Rightarrow> None)"

text \<open>
  A queue that either takes an element at its tail or reports that it cannot, leaving its
  elements alone, and that gives its head back.
\<close>

locale fifo =
  fixes enq :: "'a \<Rightarrow> ('q, unit) prog" and deq :: "('q, 'a) prog"
    and isempty :: "'q \<Rightarrow> bool" and contents :: "'q \<Rightarrow> 'a list" and valid :: "'q \<Rightarrow> bool"
  assumes enq_law: "valid q \<Longrightarrow>
      (\<exists>q'. enq x q = Done () q' \<and> valid q' \<and> contents q' = contents q @ [x]) \<or>
      (\<exists>e q'. enq x q = Fail e q' \<and> valid q' \<and> contents q' = contents q)"
    and deq_law: "valid q \<Longrightarrow> contents q = x # xs \<Longrightarrow>
      \<exists>q'. deq q = Done x q' \<and> valid q' \<and> contents q' = xs"
    and empty_law: "valid q \<Longrightarrow> isempty q \<longleftrightarrow> contents q = []"
begin

lemma client_history:
  "valid q \<Longrightarrow> \<exists>ins outs r. fifo_client enq deq isempty rs q = Some (ins, outs, r) \<and> valid r \<and>
     contents q @ ins = outs @ contents r"
proof (induction rs arbitrary: q)
  case Nil
  then show ?case by simp
next
  case (Cons c rs)
  note IH = Cons.IH and valid = Cons.prems
  show ?case
  proof (cases c)
    case (Inl x)
    from enq_law [OF valid, of x] show ?thesis
    proof (elim disjE exE conjE)
      fix q' assume "enq x q = Done () q'" "valid q'" "contents q' = contents q @ [x]"
      with IH [of q'] Inl show ?thesis by auto
    next
      fix e q' assume "enq x q = Fail e q'" "valid q'" "contents q' = contents q"
      with IH [of q'] Inl show ?thesis by simp
    qed
  next
    case (Inr u)
    show ?thesis
    proof (cases "contents q")
      case Nil
      with Inr IH [OF valid] empty_law [OF valid] show ?thesis by simp
    next
      case (Cons y ys)
      then obtain q' where "deq q = Done y q'" "valid q'" "contents q' = ys"
        using deq_law [OF valid] by blast
      with IH [of q'] Inr Cons empty_law [OF valid] show ?thesis by auto
    qed
  qed
qed

end

definition kseg0_malloc :: "kmalloc_fn \<Rightarrow> kmalloc_fn" where
  "kseg0_malloc kmalloc n \<longleftrightarrow> n \<le> 2 ^ 29 \<and> kmalloc n"

lemma kseg0_malloc_bounded: "kseg0_bounded (kseg0_malloc kmalloc)"
  by (simp add: kseg0_bounded_def kseg0_malloc_def)

lemma kseg0_malloc_id: "kseg0_bounded kmalloc \<Longrightarrow> kseg0_malloc kmalloc = kmalloc"
  by (auto simp: kseg0_bounded_def kseg0_malloc_def)

interpretation rq: fifo "q_addtail (kseg0_malloc kmalloc)" q_remhead q_empty q_list q_ok for kmalloc
proof unfold_locales
  fix q :: "'a queue" and x
  assume "q_ok q"
  from q_addtail_correct [OF this kseg0_malloc_bounded]
  show "(\<exists>q'. q_addtail (kseg0_malloc kmalloc) x q = Done () q' \<and> q_ok q' \<and> q_list q' = q_list q @ [x]) \<or>
      (\<exists>e q'. q_addtail (kseg0_malloc kmalloc) x q = Fail e q' \<and> q_ok q' \<and> q_list q' = q_list q)"
    using \<open>q_ok q\<close> by fast
next
  fix q :: "'a queue" and x xs
  assume "q_ok q" and "q_list q = x # xs"
  then show "\<exists>q'. q_remhead q = Done x q' \<and> q_ok q' \<and> q_list q' = xs"
    using q_remhead_correct [of q] by simp
next
  fix q :: "'a queue"
  assume "q_ok q"
  then show "q_empty q \<longleftrightarrow> q_list q = []" by (rule q_empty_correct)
qed

text \<open>
  C3. The queue is first in, first out, through every wrap-around and every growth. For any
  sequence of additions (some of which may be refused for lack of memory) and removals, none
  of its assertions goes off, and what was in the queue followed by what was accepted is
  exactly what came out followed by what is left, in that order.
\<close>

theorem queue_is_fifo:
  assumes "q_ok q" and "kseg0_bounded kmalloc"
  shows "\<exists>ins outs r. fifo_client (q_addtail kmalloc) q_remhead q_empty rs q = Some (ins, outs, r) \<and>
           q_ok r \<and> q_list q @ ins = outs @ q_list r"
  using rq.client_history [OF assms(1), of kmalloc rs] kseg0_malloc_id [OF assms(2)] by simp

definition queue_sample :: "nat queue" where
  "queue_sample = \<lparr>q_size = 2, q_nextwrite = 0, q_nextread = 1, q_data = [None, Some 3]\<rparr>"

theorem queue_is_fifo_witness:
  "q_ok queue_sample \<and> kseg0_bounded (\<lambda>n. n \<le> 64) \<and>
   (\<exists>ins outs r. fifo_client (q_addtail (\<lambda>n. n \<le> 64)) q_remhead q_empty
        [Inl 4, Inr (), Inr (), Inr (), Inl 5] queue_sample = Some (ins, outs, r) \<and>
      [3] @ ins = outs @ q_list r)"
proof -
  have ok: "q_ok queue_sample" and b: "kseg0_bounded (\<lambda>n. n \<le> 64)"
    by (auto simp: q_ok_def q_len_def queue_sample_def kseg0_bounded_def)
  have elems: "q_list queue_sample = [3]"
    by (simp add: q_list_def q_len_def ring_def queue_sample_def)
  show ?thesis
    using ok b queue_is_fifo [OF ok b, of "[Inl 4, Inr (), Inr (), Inr (), Inl 5]"]
    unfolding elems by blast
qed

end
