(* ===== verification/Threads.thy ===== *)
theory Threads
  imports DynArray RingQueue "HOL-Library.Multiset"
begin

text \<open>
  The thread system: \<^verbatim>\<open>kern/thread/thread.c\<close>, \<^verbatim>\<open>kern/thread/scheduler.c\<close>, \<^verbatim>\<open>kern/thread/hardclock.c\<close>, the C part of
  the context switch (\<^verbatim>\<open>kern/arch/mips/mips/pcb.c\<close>) and the interrupt level (\<^verbatim>\<open>spl.c\<close>). Thread structures are addressed
  by pointers, 0 being the null pointer; the sleepers and zombies are the kernel's resizable
  arrays and the run queue its ring buffer.

  A routine that switches threads is described as the processor executes it: it begins in the current thread and
  ends where the next thread continues. That is after its own \<^verbatim>\<open>md_switch\<close>, or, in a thread that has not run yet, at
  its entry point. Calls out of the thread system (address spaces, vnodes, process ids, file tables) are
  recorded in a list of calls; \<open>irqs\<close> are the interrupts the idle loop takes.
\<close>

subsection \<open>State\<close>

text \<open>
  Where a thread that is not running will continue: at its entry point, in \<^verbatim>\<open>thread_yield\<close> with the interrupt level to
  restore, or in \<^verbatim>\<open>thread_sleep\<close>. In the code this is on the thread's stack. \<open>t_stack\<close> is the address of the stack
  and \<open>t_magic\<close> the bytes at its bottom end.
\<close>

datatype resume = Fresh | Yielded int | Slept

record thread =
  t_name :: string
  t_sleepaddr :: nat
  t_stack :: nat
  t_magic :: "byte list"
  t_vmspace :: nat
  t_cwd :: nat
  t_pid :: int
  pcb_kstack :: nat
  pcb_ininterrupt :: int
  t_resume :: resume

datatype threadstate = S_RUN | S_READY | S_SLEEP | S_ZOMB

datatype call =
    As_destroy nat | As_activate nat | Vop_incref nat | Vop_decref nat
  | Pid_sethasexited int int | Pid_destroy int | Filetable_destroy nat
  | Init_argdata | Pid_initialize | Filetable_init nat

record tsys =
  curthread :: nat
  sleepers :: "nat array"
  zombies :: "nat array"
  runqueue :: "nat queue"
  numthreads :: int
  curspl :: int
  in_interrupt :: int
  curkstack :: nat
  lbolt_counter :: int
  threads :: "nat \<Rightarrow> thread option"
  ts_brk :: nat
  ts_calls :: "call list"

definition on_sleepers :: "(nat array, 'a) prog \<Rightarrow> (tsys, 'a) prog" where
  "on_sleepers = kzoom sleepers (\<lambda>x s. s\<lparr>sleepers := x\<rparr>)"

definition on_zombies :: "(nat array, 'a) prog \<Rightarrow> (tsys, 'a) prog" where
  "on_zombies = kzoom zombies (\<lambda>x s. s\<lparr>zombies := x\<rparr>)"

definition on_runqueue :: "(nat queue, 'a) prog \<Rightarrow> (tsys, 'a) prog" where
  "on_runqueue = kzoom runqueue (\<lambda>x s. s\<lparr>runqueue := x\<rparr>)"

definition get_thread :: "nat \<Rightarrow> (tsys, thread) prog" where
  "get_thread t = kbind (kget (\<lambda>s. threads s t)) kderef"

definition mod_thread :: "nat \<Rightarrow> (thread \<Rightarrow> thread) \<Rightarrow> (tsys, unit) prog" where
  "mod_thread t f = kbind (get_thread t) (\<lambda>th. kmod (\<lambda>s. s\<lparr>threads := (threads s)(t \<mapsto> f th)\<rparr>))"

definition kfree_thread :: "nat \<Rightarrow> (tsys, unit) prog" where
  "kfree_thread t = kmod (\<lambda>s. s\<lparr>threads := (threads s)(t := None)\<rparr>)"

definition call :: "call \<Rightarrow> (tsys, unit) prog" where
  "call c = kmod (\<lambda>s. s\<lparr>ts_calls := ts_calls s @ [c]\<rparr>)"

definition kassert_spl :: "(tsys, unit) prog" where
  "kassert_spl = kbind (kget curspl) (\<lambda>spl. kassert (spl > 0))"

subsection \<open>The interrupt level\<close>

abbreviation (input) SPL_HIGH :: int where "SPL_HIGH \<equiv> 15"

definition splx :: "int \<Rightarrow> (tsys, int) prog" where
  "splx newspl = kbind (kget curspl) (\<lambda>oldspl. kthen (kmod (\<lambda>s. s\<lparr>curspl := newspl\<rparr>)) (kret oldspl))"

definition splhigh :: "(tsys, int) prog" where
  "splhigh = splx SPL_HIGH"

definition spl0 :: "(tsys, int) prog" where
  "spl0 = splx 0"

subsection \<open>The scheduler\<close>

definition scheduler_bootstrap :: "kmalloc_fn \<Rightarrow> (tsys, unit) prog" where
  "scheduler_bootstrap kmalloc =
     kbind (q_create kmalloc 32) (\<lambda>q.
     case q of None \<Rightarrow> kpanic ''scheduler: Could not create run queue''
     | Some q \<Rightarrow> kmod (\<lambda>s. s\<lparr>runqueue := q\<rparr>))"

definition scheduler_preallocate :: "kmalloc_fn \<Rightarrow> int \<Rightarrow> (tsys, unit) prog" where
  "scheduler_preallocate kmalloc nthreads = kthen kassert_spl (on_runqueue (q_preallocate kmalloc nthreads))"

text \<open>The loop of \<^verbatim>\<open>scheduler_killall\<close>; a queue of size \<open>n\<close> is empty after at most \<open>n\<close> rounds.\<close>

fun scheduler_drop :: "nat \<Rightarrow> (tsys, unit) prog" where
  "scheduler_drop 0 = kret ()"
| "scheduler_drop (Suc n) =
     kbind (kget (q_empty \<circ> runqueue)) (\<lambda>empty.
     if empty then kret ()
     else kbind (on_runqueue q_remhead) (\<lambda>t.
          kbind (get_thread t) (\<lambda>th.
          scheduler_drop n)))"

definition scheduler_killall :: "(tsys, unit) prog" where
  "scheduler_killall = kthen kassert_spl (kbind (kget (q_size \<circ> runqueue)) scheduler_drop)"

definition scheduler_shutdown :: "(tsys, unit) prog" where
  "scheduler_shutdown = kthen scheduler_killall (kthen kassert_spl (on_runqueue q_destroy))"

text \<open>
  \<^verbatim>\<open>cpu_idle\<close> waits for an interrupt and takes it. With no interrupt left to come the processor idles for good.
\<close>

fun scheduler :: "(tsys, unit) prog list \<Rightarrow> (tsys, nat) prog" where
  "scheduler irqs =
     kthen kassert_spl
     (kbind (kget (q_empty \<circ> runqueue)) (\<lambda>empty.
      if empty
      then (case irqs of [] \<Rightarrow> kpanic ''idle for good''
            | irq # irqs \<Rightarrow> kthen irq (scheduler irqs))
      else on_runqueue q_remhead))"

definition make_runnable :: "kmalloc_fn \<Rightarrow> nat \<Rightarrow> (tsys, unit) prog" where
  "make_runnable kmalloc t = kthen kassert_spl (on_runqueue (q_addtail kmalloc t))"

subsection \<open>Sleeping and waking up\<close>

text \<open>The loop of \<^verbatim>\<open>thread_wakeup\<close> at index \<open>i\<close> with \<open>n\<close> sleepers not yet looked at.\<close>

fun thread_wakeup_from :: "kmalloc_fn \<Rightarrow> nat \<Rightarrow> int \<Rightarrow> nat \<Rightarrow> (tsys, unit) prog" where
  "thread_wakeup_from kmalloc addr i 0 = kret ()"
| "thread_wakeup_from kmalloc addr i (Suc n) =
     kbind (on_sleepers (array_getguy i)) (\<lambda>g.
     kbind (kderef g) (\<lambda>t.
     kbind (get_thread t) (\<lambda>th.
     if t_sleepaddr th = addr
     then kthen (on_sleepers (array_remove i))
          (kbind (kcatch (make_runnable kmalloc t)) (\<lambda>result.
           kthen (kassert (\<not> isl result))
           (thread_wakeup_from kmalloc addr i n)))
     else thread_wakeup_from kmalloc addr (i + 1) n)))"

definition thread_wakeup :: "kmalloc_fn \<Rightarrow> nat \<Rightarrow> (tsys, unit) prog" where
  "thread_wakeup kmalloc addr =
     kthen kassert_spl
     (kbind (on_sleepers array_getnum) (\<lambda>num. thread_wakeup_from kmalloc addr 0 (nat num)))"

fun thread_wakeone_from :: "kmalloc_fn \<Rightarrow> nat \<Rightarrow> int \<Rightarrow> nat \<Rightarrow> (tsys, unit) prog" where
  "thread_wakeone_from kmalloc addr i 0 = kret ()"
| "thread_wakeone_from kmalloc addr i (Suc n) =
     kbind (on_sleepers (array_getguy i)) (\<lambda>g.
     kbind (kderef g) (\<lambda>t.
     kbind (get_thread t) (\<lambda>th.
     if t_sleepaddr th = addr
     then kthen (on_sleepers (array_remove i))
          (kbind (kcatch (make_runnable kmalloc t)) (\<lambda>result.
           kassert (\<not> isl result)))
     else thread_wakeone_from kmalloc addr (i + 1) n)))"

definition thread_wakeone :: "kmalloc_fn \<Rightarrow> nat \<Rightarrow> (tsys, unit) prog" where
  "thread_wakeone kmalloc addr =
     kthen kassert_spl
     (kbind (on_sleepers array_getnum) (\<lambda>num. thread_wakeone_from kmalloc addr 0 (nat num)))"

fun thread_hassleepers_from :: "nat \<Rightarrow> int \<Rightarrow> nat \<Rightarrow> (tsys, bool) prog" where
  "thread_hassleepers_from addr i 0 = kret False"
| "thread_hassleepers_from addr i (Suc n) =
     kbind (on_sleepers (array_getguy i)) (\<lambda>g.
     kbind (kderef g) (\<lambda>t.
     kbind (get_thread t) (\<lambda>th.
     if t_sleepaddr th = addr then kret True else thread_hassleepers_from addr (i + 1) n)))"

definition thread_hassleepers :: "nat \<Rightarrow> (tsys, bool) prog" where
  "thread_hassleepers addr =
     kthen kassert_spl
     (kbind (on_sleepers array_getnum) (\<lambda>num. thread_hassleepers_from addr 0 (nat num)))"

subsection \<open>Threads come and go\<close>

abbreviation (input) STACK_SIZE :: nat where "STACK_SIZE \<equiv> 4096"
abbreviation (input) STACK_MAGIC :: "byte list" where "STACK_MAGIC \<equiv> [0xae, 0x11, 0xda, 0x33]"

definition thread_create :: "kmalloc_fn \<Rightarrow> string \<Rightarrow> (tsys, nat) prog" where
  "thread_create kmalloc name =
     (if \<not> kmalloc 88 \<or> \<not> kmalloc (length name + 1) then kret 0
      else kbind (kget ts_brk) (\<lambda>t.
           kthen (kmod (\<lambda>s. s\<lparr>ts_brk := t + 1,
              threads := (threads s)(t \<mapsto> \<lparr>t_name = name, t_sleepaddr = 0, t_stack = 0, t_magic = [], t_vmspace = 0, t_cwd = 0,
                 t_pid = 0, pcb_kstack = 0, pcb_ininterrupt = 0, t_resume = Fresh\<rparr>)\<rparr>))
           (kret t)))"

text \<open>\<open>pid_destroy\<close> says whether the process id could be given up.\<close>

definition thread_destroy :: "(int \<Rightarrow> bool) \<Rightarrow> nat \<Rightarrow> (tsys, unit) prog" where
  "thread_destroy pid_destroy t =
     kbind (kget curthread) (\<lambda>cur.
     kthen (kassert (t \<noteq> cur))
     (kbind (get_thread t) (\<lambda>th.
      kthen (kassert (t_vmspace th = 0))
      (kthen (kassert (t_cwd th = 0))
      (kbind (get_thread cur) (\<lambda>c.
       kthen (call (Pid_destroy (t_pid c)))
       (if \<not> pid_destroy (t_pid c) then kpanic ''thread_destroy: pid not found''
        else kthen (call (Filetable_destroy cur))
             (kfree_thread t))))))))"

fun exorcise_from :: "(int \<Rightarrow> bool) \<Rightarrow> int \<Rightarrow> nat \<Rightarrow> (tsys, unit) prog" where
  "exorcise_from pid_destroy i 0 = kret ()"
| "exorcise_from pid_destroy i (Suc n) =
     kbind (on_zombies (array_getguy i)) (\<lambda>g.
     kbind (kderef g) (\<lambda>z.
     kbind (kget curthread) (\<lambda>cur.
     kthen (kassert (z \<noteq> cur))
     (kthen (thread_destroy pid_destroy z)
     (exorcise_from pid_destroy (i + 1) n)))))"

definition exorcise :: "kmalloc_fn \<Rightarrow> (int \<Rightarrow> bool) \<Rightarrow> (tsys, unit) prog" where
  "exorcise kmalloc pid_destroy =
     kthen kassert_spl
     (kbind (on_zombies array_getnum) (\<lambda>num.
      kthen (exorcise_from pid_destroy 0 (nat num))
      (kbind (kcatch (on_zombies (array_setsize kmalloc 0))) (\<lambda>result. kassert (\<not> isl result)))))"

fun thread_drop :: "int \<Rightarrow> nat \<Rightarrow> (tsys, unit) prog" where
  "thread_drop i 0 = kret ()"
| "thread_drop i (Suc n) =
     kbind (on_sleepers (array_getguy i)) (\<lambda>g.
     kbind (kderef g) (\<lambda>t.
     kbind (get_thread t) (\<lambda>th. thread_drop (i + 1) n)))"

definition thread_killall :: "kmalloc_fn \<Rightarrow> (tsys, unit) prog" where
  "thread_killall kmalloc =
     kthen kassert_spl
     (kbind (on_sleepers array_getnum) (\<lambda>num.
      kthen (thread_drop 0 (nat num))
      (kbind (kcatch (on_sleepers (array_setsize kmalloc 0))) (\<lambda>result. kassert (\<not> isl result)))))"

definition thread_panic :: "kmalloc_fn \<Rightarrow> (tsys, unit) prog" where
  "thread_panic kmalloc = kthen kassert_spl (kthen (thread_killall kmalloc) scheduler_killall)"

text \<open>
  \<^verbatim>\<open>thread_bootstrap\<close> initialises the file table of the current thread before it has made the first thread.
\<close>

definition thread_bootstrap :: "kmalloc_fn \<Rightarrow> (int \<Rightarrow> errno + int) \<Rightarrow> (tsys, nat) prog" where
  "thread_bootstrap kmalloc pid_create =
     kthen (call Init_argdata)
     (case array_create kmalloc of None \<Rightarrow> kpanic ''Cannot create sleepers array''
      | Some sl \<Rightarrow> kthen (kmod (\<lambda>s. s\<lparr>sleepers := sl\<rparr>))
        (case array_create kmalloc of None \<Rightarrow> kpanic ''Cannot create zombies array''
         | Some zo \<Rightarrow> kthen (kmod (\<lambda>s. s\<lparr>zombies := zo\<rparr>))
           (kthen (call Pid_initialize)
           (kbind (kget curthread) (\<lambda>cur.
            kbind (get_thread cur) (\<lambda>c.
            kthen (call (Filetable_init cur))
            (kbind (thread_create kmalloc ''<boot/menu>'') (\<lambda>me.
             if me = 0 then kpanic ''thread_bootstrap: Out of memory''
             else case pid_create 0 of Inl e \<Rightarrow> kpanic ''thread_bootstrap: Could not assign pid''
             | Inr npid \<Rightarrow>
               kbind (kget curkstack) (\<lambda>kstack.
               kthen (mod_thread me (\<lambda>th. th\<lparr>t_pid := npid, pcb_kstack := kstack, pcb_ininterrupt := 0\<rparr>))
               (kthen (kmod (\<lambda>s. s\<lparr>curthread := me, numthreads := 1\<rparr>)) (kret me)))))))))))"

subsection \<open>Context switch\<close>

definition check_stack :: "(tsys, unit) prog" where
  "check_stack =
     kbind (kget curthread) (\<lambda>cur.
     if cur = 0 then kret ()
     else kbind (get_thread cur) (\<lambda>c. kassert (t_stack c = 0 \<or> t_magic c = STACK_MAGIC)))"

definition md_switch :: "nat \<Rightarrow> nat \<Rightarrow> (tsys, unit) prog" where
  "md_switch old nu =
     (if old = nu then kret ()
      else kbind (kget (\<lambda>s. s)) (\<lambda>s.
           kthen (mod_thread old (\<lambda>th. th\<lparr>pcb_kstack := curkstack s, pcb_ininterrupt := in_interrupt s\<rparr>))
           (kbind (get_thread nu) (\<lambda>n.
            kmod (\<lambda>s. s\<lparr>curkstack := pcb_kstack n, in_interrupt := pcb_ininterrupt n\<rparr>)))))"

definition activate :: "(tsys, unit) prog" where
  "activate =
     kbind (kget curthread) (\<lambda>cur.
     kbind (get_thread cur) (\<lambda>c.
     if t_vmspace c \<noteq> 0 then call (As_activate (t_vmspace c)) else kret ()))"

text \<open>The beginning of a new thread.\<close>

definition mi_threadstart :: "(tsys, unit) prog" where
  "mi_threadstart = kthen activate (kthen spl0 (kret ()))"

text \<open>What the thread that has become current does first.\<close>

definition resume_thread :: "kmalloc_fn \<Rightarrow> (int \<Rightarrow> bool) \<Rightarrow> (tsys, unit) prog" where
  "resume_thread kmalloc pid_destroy =
     kbind (kget curthread) (\<lambda>cur.
     kbind (get_thread cur) (\<lambda>c.
     case t_resume c of
       Fresh \<Rightarrow> mi_threadstart
     | Yielded spl \<Rightarrow> kthen (exorcise kmalloc pid_destroy) (kthen activate (kthen (splx spl) (kret ())))
     | Slept \<Rightarrow> kthen (exorcise kmalloc pid_destroy) (kthen activate (mod_thread cur (\<lambda>th. th\<lparr>t_sleepaddr := 0\<rparr>)))))"

text \<open>\<open>mi_switch\<close> says whether it switched; it does not when the scheduler is already running.\<close>

definition mi_switch :: "kmalloc_fn \<Rightarrow> (int \<Rightarrow> bool) \<Rightarrow> (tsys, unit) prog list \<Rightarrow> threadstate \<Rightarrow> (tsys, bool) prog" where
  "mi_switch kmalloc pid_destroy irqs nextstate =
     kthen kassert_spl
     (kthen check_stack
     (kbind (kget curthread) (\<lambda>cur.
      if cur = 0 then kret False
      else kthen (kmod (\<lambda>s. s\<lparr>curthread := 0\<rparr>))
      (kbind (kcatch (case nextstate of
                        S_READY \<Rightarrow> make_runnable kmalloc cur
                      | S_SLEEP \<Rightarrow> on_sleepers (array_add kmalloc cur)
                      | S_ZOMB \<Rightarrow> on_zombies (array_add kmalloc cur)
                      | S_RUN \<Rightarrow> kpanic ''assertion failed'')) (\<lambda>result.
       kthen (kassert (\<not> isl result))
       (kbind (scheduler irqs) (\<lambda>next.
        kthen (kmod (\<lambda>s. s\<lparr>curthread := next\<rparr>))
        (kthen (md_switch cur next)
        (kthen (resume_thread kmalloc pid_destroy)
        (kret True))))))))))"

definition thread_yield :: "kmalloc_fn \<Rightarrow> (int \<Rightarrow> bool) \<Rightarrow> (tsys, unit) prog list \<Rightarrow> (tsys, unit) prog" where
  "thread_yield kmalloc pid_destroy irqs =
     kbind splhigh (\<lambda>spl.
     kbind (kget curthread) (\<lambda>cur.
     kthen (if cur = 0 then kret () else mod_thread cur (\<lambda>th. th\<lparr>t_resume := Yielded spl\<rparr>))
     (kbind (mi_switch kmalloc pid_destroy irqs S_READY) (\<lambda>switched.
      if switched then kret () else kthen (splx spl) (kret ())))))"

definition thread_sleep :: "kmalloc_fn \<Rightarrow> (int \<Rightarrow> bool) \<Rightarrow> (tsys, unit) prog list \<Rightarrow> nat \<Rightarrow> (tsys, unit) prog" where
  "thread_sleep kmalloc pid_destroy irqs addr =
     kbind (kget in_interrupt) (\<lambda>ii.
     kthen (kassert (ii = 0))
     (kbind (kget curthread) (\<lambda>cur.
      kthen (mod_thread cur (\<lambda>th. th\<lparr>t_sleepaddr := addr, t_resume := Slept\<rparr>))
      (kthen (mi_switch kmalloc pid_destroy irqs S_SLEEP) (kret ())))))"

text \<open>The panic at the end of \<^verbatim>\<open>thread_exit\<close> is for a zombie that is switched to, which the run queue never holds.\<close>

definition thread_exit :: "kmalloc_fn \<Rightarrow> (int \<Rightarrow> bool) \<Rightarrow> (tsys, unit) prog list \<Rightarrow> (tsys, unit) prog" where
  "thread_exit kmalloc pid_destroy irqs =
     kbind (kget curthread) (\<lambda>cur.
     kbind (get_thread cur) (\<lambda>c.
     kthen check_stack
     (kthen splhigh
     (kthen (if t_vmspace c \<noteq> 0
             then kthen (mod_thread cur (\<lambda>th. th\<lparr>t_vmspace := 0\<rparr>)) (call (As_destroy (t_vmspace c))) else kret ())
     (kthen (if t_cwd c \<noteq> 0
             then kthen (call (Vop_decref (t_cwd c))) (mod_thread cur (\<lambda>th. th\<lparr>t_cwd := 0\<rparr>)) else kret ())
     (kthen (call (Pid_sethasexited (t_pid c) 1))
     (kbind (kget numthreads) (\<lambda>n.
      kthen (kassert (n > 0))
      (kthen (kmod (\<lambda>s. s\<lparr>numthreads := n - 1\<rparr>))
      (kthen (mi_switch kmalloc pid_destroy irqs S_ZOMB) (kret ())))))))))))"

subsection \<open>Forking\<close>

text \<open>
  The part of \<^verbatim>\<open>thread_fork\<close> with interrupts off, up to the counter. \<^verbatim>\<open>npid\<close>, an uninitialised pointer in the source, is taken to be a
  local variable; \<open>s0\<close> is the value of \<^verbatim>\<open>s\<close>, which is not initialised when the process id cannot be had.
\<close>

definition thread_fork_queue :: "kmalloc_fn \<Rightarrow> nat \<Rightarrow> (tsys, unit) prog" where
  "thread_fork_queue kmalloc newguy =
     kbind (kget numthreads) (\<lambda>n.
     kthen (on_sleepers (array_preallocate kmalloc (n + 1)))
     (kthen (on_zombies (array_preallocate kmalloc (n + 1)))
     (kthen (scheduler_preallocate kmalloc (n + 1))
     (kthen (make_runnable kmalloc newguy)
     (kmod (\<lambda>s. s\<lparr>numthreads := n + 1\<rparr>))))))"

definition thread_fork_fail :: "nat \<Rightarrow> int \<Rightarrow> errno \<Rightarrow> (tsys, nat) prog" where
  "thread_fork_fail newguy s result =
     kthen (splx s)
     (kbind (get_thread newguy) (\<lambda>th.
      kthen (if t_cwd th \<noteq> 0 then call (Vop_decref (t_cwd th)) else kret ())
      (kthen (kfree_thread newguy) (kfail result))))"

definition thread_fork :: "kmalloc_fn \<Rightarrow> (int \<Rightarrow> errno + int) \<Rightarrow> int \<Rightarrow> string \<Rightarrow> (tsys, nat) prog" where
  "thread_fork kmalloc pid_create s0 name =
     kbind (thread_create kmalloc name) (\<lambda>newguy.
     if newguy = 0 then kfail ENOMEM
     else kbind (kget curthread) (\<lambda>cur.
     kbind (get_thread cur) (\<lambda>c.
     case pid_create (t_pid c) of Inl e \<Rightarrow> thread_fork_fail newguy s0 e
     | Inr npid \<Rightarrow>
       kthen (mod_thread newguy (\<lambda>th. th\<lparr>t_pid := npid\<rparr>))
       (if \<not> kmalloc STACK_SIZE then kthen (kfree_thread newguy) (kfail ENOMEM)
        else kbind (kget ts_brk) (\<lambda>stack.
        kthen (kmod (\<lambda>s. s\<lparr>ts_brk := stack + STACK_SIZE\<rparr>))
        (kthen (mod_thread newguy (\<lambda>th. th\<lparr>t_stack := stack, t_magic := STACK_MAGIC\<rparr>))
        (kthen (if t_cwd c \<noteq> 0
                then kthen (call (Vop_incref (t_cwd c))) (mod_thread newguy (\<lambda>th. th\<lparr>t_cwd := t_cwd c\<rparr>)) else kret ())
        (kthen (mod_thread newguy (\<lambda>th. th\<lparr>pcb_kstack := stack + STACK_SIZE, pcb_ininterrupt := 0, t_resume := Fresh\<rparr>))
        (kbind splhigh (\<lambda>s.
         kbind (kcatch (thread_fork_queue kmalloc newguy)) (\<lambda>result.
         case result of Inl e \<Rightarrow> thread_fork_fail newguy s e
         | Inr _ \<Rightarrow> kthen (splx s) (kret newguy))))))))))))"

subsection \<open>The clock\<close>

abbreviation (input) HZ :: int where "HZ \<equiv> 100"

text \<open>\<open>lbolt\<close> is the address of the variable of that name.\<close>

definition hardclock :: "kmalloc_fn \<Rightarrow> (int \<Rightarrow> bool) \<Rightarrow> (tsys, unit) prog list \<Rightarrow> nat \<Rightarrow> (tsys, unit) prog" where
  "hardclock kmalloc pid_destroy irqs lbolt =
     kbind (kget lbolt_counter) (\<lambda>n.
     kthen (if n + 1 \<ge> HZ
            then kthen (kmod (\<lambda>s. s\<lparr>lbolt_counter := 0\<rparr>)) (thread_wakeup kmalloc lbolt)
            else kmod (\<lambda>s. s\<lparr>lbolt_counter := n + 1\<rparr>))
     (thread_yield kmalloc pid_destroy irqs))"

subsection \<open>What the thread system holds\<close>

definition ready :: "tsys \<Rightarrow> nat list" where "ready s = q_list (runqueue s)"
definition asleep :: "tsys \<Rightarrow> nat list" where "asleep s = map the (array_list (sleepers s))"
definition dead :: "tsys \<Rightarrow> nat list" where "dead s = map the (array_list (zombies s))"
definition running :: "tsys \<Rightarrow> nat list" where "running s = (if curthread s = 0 then [] else [curthread s])"

definition all_threads :: "tsys \<Rightarrow> nat list" where
  "all_threads s = running s @ ready s @ asleep s @ dead s"

definition thread_ok :: "thread \<Rightarrow> bool" where
  "thread_ok th \<longleftrightarrow> t_stack th = 0 \<or> t_magic th = STACK_MAGIC"

text \<open>
  Every thread is in exactly one place and the structures are sound (\<open>ts_core\<close>); the counter counts the threads
  that are not zombies, and the sleepers array and the run queue have been given that many places.
\<close>

definition ts_core :: "tsys \<Rightarrow> bool" where
  "ts_core s \<longleftrightarrow> q_ok (runqueue s) \<and> array_ok (sleepers s) \<and> array_ok (zombies s) \<and>
     None \<notin> set (array_list (sleepers s)) \<and> None \<notin> set (array_list (zombies s)) \<and>
     distinct (all_threads s) \<and> (\<forall>t \<in> set (all_threads s). 0 < t \<and> t < ts_brk s \<and> (\<exists>th. threads s t = Some th \<and> thread_ok th)) \<and>
     (\<forall>t \<in> set (dead s). \<forall>th. threads s t = Some th \<longrightarrow> t_vmspace th = 0 \<and> t_cwd th = 0)"

definition ts_inv :: "tsys \<Rightarrow> bool" where
  "ts_inv s \<longleftrightarrow> ts_core s \<and> numthreads s = int (length (running s) + length (ready s) + length (asleep s)) \<and>
     numthreads s \<le> int (q_size (runqueue s)) \<and> numthreads s \<le> arr_max (sleepers s)"

text \<open>Room for one more without allocating memory.\<close>

definition q_room :: "'a queue \<Rightarrow> bool" where "q_room q \<longleftrightarrow> Suc (length (q_list q)) < q_size q"
definition arr_room :: "'a array \<Rightarrow> bool" where "arr_room a \<longleftrightarrow> arr_num a < arr_max a"

lemma on_sleepers_run [kprog]: "on_sleepers m s = (case m (sleepers s) of Done x t \<Rightarrow> Done x (s\<lparr>sleepers := t\<rparr>)
    | Fail e t \<Rightarrow> Fail e (s\<lparr>sleepers := t\<rparr>) | Panic p \<Rightarrow> Panic p)"
  by (simp add: on_sleepers_def kzoom_def)

lemma on_zombies_run [kprog]: "on_zombies m s = (case m (zombies s) of Done x t \<Rightarrow> Done x (s\<lparr>zombies := t\<rparr>)
    | Fail e t \<Rightarrow> Fail e (s\<lparr>zombies := t\<rparr>) | Panic p \<Rightarrow> Panic p)"
  by (simp add: on_zombies_def kzoom_def)

lemma on_runqueue_run [kprog]: "on_runqueue m s = (case m (runqueue s) of Done x t \<Rightarrow> Done x (s\<lparr>runqueue := t\<rparr>)
    | Fail e t \<Rightarrow> Fail e (s\<lparr>runqueue := t\<rparr>) | Panic p \<Rightarrow> Panic p)"
  by (simp add: on_runqueue_def kzoom_def)

lemma get_thread_run [kprog]: "get_thread t s = (case threads s t of None \<Rightarrow> Panic ''bad pointer'' | Some th \<Rightarrow> Done th s)"
  by (simp add: get_thread_def kprog kderef_def split: option.split)

lemma mod_thread_run [kprog]: "mod_thread t f s = (case threads s t of None \<Rightarrow> Panic ''bad pointer''
    | Some th \<Rightarrow> Done () (s\<lparr>threads := (threads s)(t \<mapsto> f th)\<rparr>))"
  by (simp add: mod_thread_def kprog split: option.split)

lemma kfree_thread_run [kprog]: "kfree_thread t s = Done () (s\<lparr>threads := (threads s)(t := None)\<rparr>)"
  by (simp add: kfree_thread_def kprog)

lemma call_run [kprog]: "call c s = Done () (s\<lparr>ts_calls := ts_calls s @ [c]\<rparr>)"
  by (simp add: call_def kprog)

lemma kassert_spl_run [kprog]: "kassert_spl s = (if curspl s > 0 then Done () s else Panic ''assertion failed'')"
  by (simp add: kassert_spl_def kprog)

lemma splx_run [kprog]: "splx l s = Done (curspl s) (s\<lparr>curspl := l\<rparr>)"
  by (simp add: splx_def kprog)

lemma splhigh_run [kprog]: "splhigh s = Done (curspl s) (s\<lparr>curspl := SPL_HIGH\<rparr>)"
  by (simp add: splhigh_def kprog)

lemma spl0_run [kprog]: "spl0 s = Done (curspl s) (s\<lparr>curspl := 0\<rparr>)"
  by (simp add: spl0_def kprog)

lemma array_add_room:
  assumes ok: "array_ok a" and room: "arr_room a"
  shows "\<exists>b. array_add kmalloc x a = Done () b \<and> array_ok b \<and> array_list b = array_list a @ [Some x] \<and> arr_max b = arr_max a"
proof -
  obtain v where v: "arr_v a = Some v" "length v = nat (arr_max a)"
    using ok room by (auto simp: array_ok_def arr_room_def split: option.splits)
  let ?b = "a\<lparr>arr_num := arr_num a + 1, arr_v := Some (v[nat (arr_num a) := Some x])\<rparr>"
  have "array_add kmalloc x a = Done () ?b"
    using ok room v by (auto simp: array_add_def array_setsize_def kprog array_ok_def arr_room_def)
  moreover from this have "array_ok ?b \<and> array_list ?b = array_list a @ [Some x]" by (rule array_add_correct [OF ok])
  ultimately show ?thesis by auto
qed

lemma q_list_length: "length (q_list q) = q_len q"
  by (simp add: q_list_def ring_def)

lemma q_addtail_roomy:
  assumes "q_ok q" and "q_room q"
  shows "\<exists>r. q_addtail kmalloc x q = Done () r \<and> q_ok r \<and> q_list r = q_list q @ [x] \<and> q_size r = q_size q"
  using assms q_addtail_room [of q 1 kmalloc x] q_put_correct [of q x]
  by (simp add: q_addtail_def q_room_def q_list_length numeral_2_eq_2)

lemma q_remhead_size: "q_remhead q = Done x r \<Longrightarrow> q_size r = q_size q"
  by (auto simp: q_remhead_def kprog kderef_def split: if_splits outcome.splits option.splits)

lemma array_remove_max: "array_remove i a = Done () b \<Longrightarrow> arr_max b = arr_max a"
  by (auto simp: array_remove_def kprog kderef_def Let_def split: if_splits option.splits)

text \<open>How much the run queue and the sleepers array can hold.\<close>

definition places :: "tsys \<Rightarrow> nat \<times> int" where
  "places s = (q_size (runqueue s), arr_max (sleepers s))"

lemmas views = ready_def asleep_def dead_def running_def

text \<open>Only the thread structures and the parts named matter to the invariant.\<close>

lemma ts_core_cong:
  assumes "ts_core s" and "runqueue t = runqueue s" "sleepers t = sleepers s" "zombies t = zombies s" "curthread t = curthread s"
    "ts_brk t = ts_brk s"
    and "\<And>x th. x \<in> set (all_threads s) \<Longrightarrow> threads s x = Some th \<Longrightarrow>
      \<exists>th'. threads t x = Some th' \<and> t_stack th' = t_stack th \<and> t_magic th' = t_magic th \<and> t_vmspace th' = t_vmspace th \<and> t_cwd th' = t_cwd th"
  shows "ts_core t" "all_threads t = all_threads s"
proof -
  show all: "all_threads t = all_threads s" using assms by (simp add: all_threads_def views)
  have d: "dead t = dead s" using assms by (simp add: views)
  have "\<exists>th. threads t x = Some th \<and> thread_ok th" if x: "x \<in> set (all_threads s)" for x
  proof -
    obtain th where th: "threads s x = Some th" "thread_ok th" using assms(1) x by (auto simp: ts_core_def)
    with assms(7) [OF x th(1)] show ?thesis by (auto simp: thread_ok_def)
  qed
  moreover have "t_vmspace th = 0 \<and> t_cwd th = 0" if x: "x \<in> set (dead s)" "threads t x = Some th" for x th
  proof -
    have "x \<in> set (all_threads s)" using x by (simp add: all_threads_def)
    moreover obtain th0 where "threads s x = Some th0" "t_vmspace th0 = 0" "t_cwd th0 = 0"
      using assms(1) x(1) calculation by (auto simp: ts_core_def)
    ultimately show ?thesis using assms(7) x(2) by fastforce
  qed
  ultimately show "ts_core t" using assms by (simp add: ts_core_def all d)
qed

lemma ts_core_thread: "ts_core s \<Longrightarrow> t \<in> set (all_threads s) \<Longrightarrow> \<exists>th. threads s t = Some th \<and> thread_ok th"
  by (simp add: ts_core_def)

lemma ts_core_dead:
  assumes "ts_core s" and "t \<in> set (dead s)"
  shows "\<exists>th. threads s t = Some th \<and> t_vmspace th = 0 \<and> t_cwd th = 0"
proof -
  have "t \<in> set (all_threads s)" using assms(2) by (simp add: all_threads_def)
  with ts_core_thread [OF assms(1)] obtain th where "threads s t = Some th" by blast
  with assms show ?thesis by (auto simp: ts_core_def)
qed

lemma list_of_Some: "None \<notin> set xs \<Longrightarrow> xs = map Some (map the xs)"
  by (induction xs) auto

text \<open>Disposing of the zombies.\<close>

lemma exorcise_from_run:
  assumes "array_ok (zombies s)" and "array_list (zombies s) = map Some zs" and "i + n = length zs"
    and "distinct zs" and "curthread s \<notin> set zs" and "threads s (curthread s) \<noteq> None" and "\<forall>p. pid_destroy p"
    and "\<And>z. z \<in> set (drop i zs) \<Longrightarrow> \<exists>th. threads s z = Some th \<and> t_vmspace th = 0 \<and> t_cwd th = 0"
  shows "\<exists>c. exorcise_from pid_destroy (int i) n s =
    Done () (s\<lparr>threads := (\<lambda>x. if x \<in> set (drop i zs) then None else threads s x), ts_calls := c\<rparr>)"
  using assms
proof (induction n arbitrary: i s)
  case 0
  then show ?case by (auto simp: kprog intro!: exI [of _ "ts_calls s"])
next
  case (Suc n)
  let ?z = "zs ! i" and ?c = "curthread s"
  have i: "i < length zs" using Suc.prems(3) by simp
  then have dr: "drop i zs = ?z # drop (Suc i) zs" by (simp add: Cons_nth_drop_Suc)
  have get: "array_getguy (int i) (zombies s) = Done (Some ?z) (zombies s)"
    using array_getguy_correct [OF Suc.prems(1), of "int i"] Suc.prems(2) i by simp
  obtain th where th: "threads s ?z = Some th" "t_vmspace th = 0" "t_cwd th = 0" using Suc.prems(8) [of ?z] dr by auto
  obtain ct where ct: "threads s ?c = Some ct" using Suc.prems(6) by auto
  have ne: "?z \<noteq> ?c" using Suc.prems(5) i by (metis nth_mem)
  let ?s = "s\<lparr>ts_calls := ts_calls s @ [Pid_destroy (t_pid ct), Filetable_destroy ?c], threads := (threads s)(?z := None)\<rparr>"
  have one: "exorcise_from pid_destroy (int i) (Suc n) s = exorcise_from pid_destroy (int (Suc i)) n ?s"
    using get th ct ne Suc.prems(7) by (simp add: kprog thread_destroy_def add.commute)
  have fresh: "?z \<notin> set (drop (Suc i) zs)" using Suc.prems(4) i by (metis Cons_nth_drop_Suc distinct.simps(2) distinct_drop)
  have "\<exists>c. exorcise_from pid_destroy (int (Suc i)) n ?s =
    Done () (?s\<lparr>threads := (\<lambda>x. if x \<in> set (drop (Suc i) zs) then None else threads ?s x), ts_calls := c\<rparr>)"
  proof (rule Suc.IH)
    fix z assume z: "z \<in> set (drop (Suc i) zs)"
    then have "z \<noteq> ?z" using fresh by auto
    with z Suc.prems(8) [of z] dr show "\<exists>th. threads ?s z = Some th \<and> t_vmspace th = 0 \<and> t_cwd th = 0" by auto
  qed (use Suc.prems ne in auto)
  moreover have "(\<lambda>x. if x \<in> set (drop (Suc i) zs) then None else threads ?s x) = (\<lambda>x. if x \<in> set (drop i zs) then None else threads s x)"
    by (auto simp: dr)
  ultimately show ?case unfolding one by auto
qed

lemma array_setsize_0:
  assumes "array_ok a"
  shows "\<exists>b. array_setsize kmalloc 0 a = Done () b \<and> array_ok b \<and> array_list b = [] \<and> (arr_max a > 16 \<longrightarrow> arr_max b = 0)"
  using assms by (auto simp: array_setsize_def kprog array_ok_def array_list_def split: option.splits)

lemma exorcise_run:
  assumes inv: "ts_core s" and cur: "curthread s \<noteq> 0" and spl: "curspl s > 0" and pid: "\<forall>p. pid_destroy p"
  shows "\<exists>z c. exorcise kmalloc pid_destroy s =
      Done () (s\<lparr>threads := (\<lambda>x. if x \<in> set (dead s) then None else threads s x), ts_calls := c, zombies := z\<rparr>) \<and>
    array_ok z \<and> array_list z = [] \<and> (arr_max (zombies s) > 16 \<longrightarrow> arr_max z = 0)"
proof -
  have ok: "array_ok (zombies s)" and zs: "array_list (zombies s) = map Some (dead s)"
    using inv list_of_Some [of "array_list (zombies s)"] by (simp_all add: ts_core_def dead_def)
  have num: "nat (arr_num (zombies s)) = length (dead s)" using array_ok_length [OF ok] by (simp add: dead_def)
  have mem: "curthread s \<in> set (all_threads s)" "set (dead s) \<subseteq> set (all_threads s)" using cur by (auto simp: all_threads_def running_def)
  have "curthread s \<notin> set (dead s)" "distinct (dead s)" "threads s (curthread s) \<noteq> None"
    using inv cur mem(1) by (auto simp: ts_core_def all_threads_def running_def)
  then obtain c where c: "exorcise_from pid_destroy 0 (length (dead s)) s =
      Done () (s\<lparr>threads := (\<lambda>x. if x \<in> set (dead s) then None else threads s x), ts_calls := c\<rparr>)"
    using exorcise_from_run [OF ok zs, of 0 "length (dead s)" pid_destroy] ts_core_dead [OF inv] pid by auto
  obtain z where "array_setsize kmalloc 0 (zombies s) = Done () z" "array_ok z" "array_list z = []" "arr_max (zombies s) > 16 \<longrightarrow> arr_max z = 0"
    using array_setsize_0 [OF ok] by blast
  with c spl num show ?thesis by (auto simp: exorcise_def kprog array_getnum_def)
qed

subsection \<open>Switching threads\<close>

declare scheduler.simps [simp del]

lemma scheduler_ready:
  assumes "q_ok (runqueue s)" and "ready s = x # xs" and "curspl s > 0"
  shows "\<exists>q. scheduler irqs s = Done x (s\<lparr>runqueue := q\<rparr>) \<and> q_ok q \<and> q_list q = xs \<and> q_size q = q_size (runqueue s)"
  using assms q_remhead_correct [OF assms(1)] q_empty_correct [OF assms(1)]
  by (auto dest: q_remhead_size simp: scheduler.simps [of irqs] kprog ready_def)

text \<open>Where the current thread is put, and what is left in its place.\<close>

definition room_for :: "threadstate \<Rightarrow> tsys \<Rightarrow> bool" where
  "room_for st s = (case st of S_READY \<Rightarrow> q_room (runqueue s) | S_SLEEP \<Rightarrow> arr_room (sleepers s)
     | S_ZOMB \<Rightarrow> arr_room (zombies s) | S_RUN \<Rightarrow> False)"

definition stash :: "kmalloc_fn \<Rightarrow> threadstate \<Rightarrow> nat \<Rightarrow> (tsys, unit) prog" where
  "stash kmalloc st cur = (case st of S_READY \<Rightarrow> make_runnable kmalloc cur
     | S_SLEEP \<Rightarrow> on_sleepers (array_add kmalloc cur) | S_ZOMB \<Rightarrow> on_zombies (array_add kmalloc cur)
     | S_RUN \<Rightarrow> kpanic ''assertion failed'')"

definition at_state :: "threadstate \<Rightarrow> threadstate \<Rightarrow> nat \<Rightarrow> nat list" where
  "at_state st st' cur = (if st = st' then [cur] else [])"

text \<open>Everything but the queues and the current thread is the same.\<close>

definition ts_same :: "tsys \<Rightarrow> tsys \<Rightarrow> bool" where
  "ts_same s t \<longleftrightarrow> threads t = threads s \<and> numthreads t = numthreads s \<and> curspl t = curspl s \<and> ts_brk t = ts_brk s \<and>
     in_interrupt t = in_interrupt s \<and> curkstack t = curkstack s \<and> ts_calls t = ts_calls s \<and> lbolt_counter t = lbolt_counter s"

definition structs_ok :: "tsys \<Rightarrow> bool" where
  "structs_ok s \<longleftrightarrow> q_ok (runqueue s) \<and> array_ok (sleepers s) \<and> array_ok (zombies s) \<and>
     None \<notin> set (array_list (sleepers s)) \<and> None \<notin> set (array_list (zombies s))"

lemma stash_run:
  assumes "structs_ok s" and "room_for st s" and "curspl s > 0"
  shows "\<exists>t. stash kmalloc st cur s = Done () t \<and> structs_ok t \<and> ts_same s t \<and> curthread t = curthread s \<and> places t = places s \<and>
    ready t = ready s @ at_state S_READY st cur \<and> asleep t = asleep s @ at_state S_SLEEP st cur \<and>
    dead t = dead s @ at_state S_ZOMB st cur"
proof (cases st)
  case S_READY
  then show ?thesis
    using assms q_addtail_roomy [of "runqueue s" kmalloc cur]
    by (auto simp: stash_def room_for_def structs_ok_def make_runnable_def kprog ts_same_def at_state_def views places_def)
next
  case S_SLEEP
  then show ?thesis
    using assms array_add_room [of "sleepers s" kmalloc cur]
    by (auto simp: stash_def room_for_def structs_ok_def kprog ts_same_def at_state_def views places_def)
next
  case S_ZOMB
  then show ?thesis
    using assms array_add_room [of "zombies s" kmalloc cur]
    by (auto simp: stash_def room_for_def structs_ok_def kprog ts_same_def at_state_def views places_def)
next
  case S_RUN
  then show ?thesis using assms(2) by (simp add: room_for_def)
qed

text \<open>The thread that continues. It disposes of the zombies unless it is new.\<close>

definition spl_after :: "resume \<Rightarrow> int \<Rightarrow> int" where
  "spl_after r l = (case r of Fresh \<Rightarrow> 0 | Yielded spl \<Rightarrow> spl | Slept \<Rightarrow> l)"

definition awake :: "thread \<Rightarrow> thread" where
  "awake th = (if t_resume th = Slept then th\<lparr>t_sleepaddr := 0\<rparr> else th)"

lemma activate_run:
  "threads s (curthread s) = Some c \<Longrightarrow> \<exists>calls. activate s = Done () (s\<lparr>ts_calls := calls\<rparr>)"
  by (cases "t_vmspace c = 0") (auto simp: activate_def kprog intro: exI [of _ "ts_calls s"])

lemma exorcise_core:
  assumes core: "ts_core s" and z: "array_ok z" "array_list z = []"
    and t: "t = s\<lparr>threads := (\<lambda>x. if x \<in> set (dead s) then None else threads s x), ts_calls := c, zombies := z\<rparr>"
  shows "ts_core t" "dead t = []" "ready t = ready s" "asleep t = asleep s"
proof -
  show v: "dead t = []" "ready t = ready s" "asleep t = asleep s" using z by (simp_all add: t views)
  have r: "running t = running s" by (simp add: t running_def)
  have all: "all_threads s = all_threads t @ dead s" by (simp add: all_threads_def v r)
  then have "x \<notin> set (dead s)" if "x \<in> set (all_threads t)" for x using core that by (auto simp: ts_core_def)
  then show "ts_core t" using core z v unfolding ts_core_def all by (auto simp: t)
qed

lemma resume_run:
  assumes core: "ts_core s" and cur: "curthread s \<noteq> 0" "threads s (curthread s) = Some c" and spl: "curspl s > 0"
    and pid: "\<forall>p. pid_destroy p"
  shows "\<exists>t. resume_thread kmalloc pid_destroy s = Done () t \<and> ts_core t \<and> curthread t = curthread s \<and>
    runqueue t = runqueue s \<and> sleepers t = sleepers s \<and> dead t = (if t_resume c = Fresh then dead s else []) \<and>
    numthreads t = numthreads s \<and> ts_brk t = ts_brk s \<and> in_interrupt t = in_interrupt s \<and> lbolt_counter t = lbolt_counter s \<and>
    curspl t = spl_after (t_resume c) (curspl s) \<and>
    (\<forall>x. x \<notin> set (dead s) \<or> t_resume c = Fresh \<longrightarrow> threads t x = (if x = curthread s then Some (awake c) else threads s x)) \<and>
    (\<forall>x \<in> set (dead s). t_resume c \<noteq> Fresh \<longrightarrow> threads t x = None)"
proof (cases "t_resume c = Fresh")
  case True
  obtain calls where "activate s = Done () (s\<lparr>ts_calls := calls\<rparr>)" using activate_run [OF cur(2)] by blast
  then have "resume_thread kmalloc pid_destroy s = Done () (s\<lparr>ts_calls := calls, curspl := 0\<rparr>)"
    using True cur by (simp add: resume_thread_def mi_threadstart_def kprog)
  moreover have "ts_core (s\<lparr>ts_calls := calls, curspl := 0\<rparr>)" by (rule ts_core_cong(1) [OF core]) simp_all
  ultimately show ?thesis using True cur by (auto simp: views spl_after_def awake_def)
next
  case False
  obtain z calls where e: "exorcise kmalloc pid_destroy s =
      Done () (s\<lparr>threads := (\<lambda>x. if x \<in> set (dead s) then None else threads s x), ts_calls := calls, zombies := z\<rparr>)"
      "array_ok z" "array_list z = []"
    using exorcise_run [OF core cur(1) spl pid, of kmalloc] by blast
  let ?e = "s\<lparr>threads := (\<lambda>x. if x \<in> set (dead s) then None else threads s x), ts_calls := calls, zombies := z\<rparr>"
  note ec = exorcise_core [OF core e(2,3) refl, of calls]
  have nd: "curthread s \<notin> set (dead s)" using core cur(1) by (auto simp: ts_core_def all_threads_def running_def)
  then have "threads ?e (curthread ?e) = Some c" using cur(2) by simp
  then obtain k where k: "activate ?e = Done () (?e\<lparr>ts_calls := k\<rparr>)" using activate_run by blast
  define t where "t = ?e\<lparr>ts_calls := k, curspl := spl_after (t_resume c) (curspl s),
    threads := (threads ?e)(curthread s \<mapsto> awake c)\<rparr>"
  have "awake c = c" if "\<And>l. t_resume c \<noteq> Slept" using that by (simp add: awake_def)
  then have "resume_thread kmalloc pid_destroy s = Done () t"
    using False cur e(1) k nd by (cases "t_resume c") (auto simp: resume_thread_def kprog t_def spl_after_def awake_def fun_upd_idem)
  moreover have "ts_core t" by (rule ts_core_cong(1) [OF ec(1)]) (use cur nd in \<open>auto simp: t_def awake_def\<close>)
  moreover have "dead t = []" using e(3) by (simp add: t_def dead_def)
  ultimately show ?thesis using False nd by (auto simp: t_def)
qed

lemma pcb_only:
  assumes "a' = a\<lparr>pcb_kstack := k, pcb_ininterrupt := i\<rparr>"
  shows "t_stack a' = t_stack a" "t_magic a' = t_magic a" "t_vmspace a' = t_vmspace a" "t_cwd a' = t_cwd a"
    "t_resume a' = t_resume a" "t_sleepaddr a' = t_sleepaddr a" "t_name a' = t_name a" "t_pid a' = t_pid a"
  using assms by simp_all

lemma md_switch_run:
  assumes "threads s old = Some a" and "threads s nu = Some b"
  shows "\<exists>t a'. md_switch old nu s = Done () t \<and> threads t = (threads s)(old \<mapsto> a') \<and>
    a' = a\<lparr>pcb_kstack := pcb_kstack a', pcb_ininterrupt := pcb_ininterrupt a'\<rparr> \<and>
    runqueue t = runqueue s \<and> sleepers t = sleepers s \<and> zombies t = zombies s \<and> curthread t = curthread s \<and>
    ts_brk t = ts_brk s \<and> numthreads t = numthreads s \<and> curspl t = curspl s \<and> lbolt_counter t = lbolt_counter s"
proof (cases "old = nu")
  case True
  then show ?thesis using assms by (auto simp: md_switch_def kprog fun_upd_idem intro!: exI [of _ a])
next
  case False
  let ?a = "a\<lparr>pcb_kstack := curkstack s, pcb_ininterrupt := in_interrupt s\<rparr>"
  let ?t = "s\<lparr>threads := (threads s)(old \<mapsto> ?a), curkstack := pcb_kstack b, in_interrupt := pcb_ininterrupt b\<rparr>"
  have "md_switch old nu s = Done () ?t" using assms False by (simp add: md_switch_def kprog)
  then show ?thesis by (intro exI [of _ ?t] exI [of _ ?a]) simp
qed

text \<open>
  The whole switch. \<open>next\<close> is the head of the run queue after the current thread has been put away; it becomes the current
  thread, the others keep their order, and nothing else moves.
\<close>

definition switched :: "threadstate \<Rightarrow> nat \<Rightarrow> nat list \<Rightarrow> thread \<Rightarrow> tsys \<Rightarrow> tsys \<Rightarrow> bool" where
  "switched st nx rest n s t \<longleftrightarrow> ts_core t \<and> curthread t = nx \<and> ready t = rest \<and>
     asleep t = asleep s @ at_state S_SLEEP st (curthread s) \<and> places t = places s \<and>
     dead t = (if t_resume n = Fresh then dead s @ at_state S_ZOMB st (curthread s) else []) \<and>
     numthreads t = numthreads s \<and> ts_brk t = ts_brk s \<and> lbolt_counter t = lbolt_counter s \<and> curspl t = spl_after (t_resume n) (curspl s) \<and>
     (\<forall>x \<in> set (all_threads t). \<forall>th. threads s x = Some th \<longrightarrow> (\<exists>th'. threads t x = Some th' \<and> t_resume th' = t_resume th \<and>
        t_sleepaddr th' = (if x = nx \<and> t_resume th = Slept then 0 else t_sleepaddr th) \<and> t_name th' = t_name th \<and> t_pid th' = t_pid th)) \<and>
     (\<forall>x \<in> set (dead s @ at_state S_ZOMB st (curthread s)). t_resume n \<noteq> Fresh \<longrightarrow> threads t x = None)"

lemma mi_switch_run:
  assumes core: "ts_core s" and cur: "curthread s = cur" "cur \<noteq> 0" "threads s cur = Some c" and spl: "curspl s > 0" and pid: "\<forall>p. pid_destroy p"
    and room: "room_for st s" and nxt: "ready s @ at_state S_READY st cur = nx # rest" "threads s nx = Some n"
    and zomb: "st = S_ZOMB \<Longrightarrow> t_vmspace c = 0 \<and> t_cwd c = 0"
  shows "\<exists>t. mi_switch kmalloc pid_destroy irqs st s = Done True t \<and> switched st nx rest n s t"
proof -
  let ?s0 = "s\<lparr>curthread := 0\<rparr>"
  have mem: "cur \<in> set (all_threads s)" using cur by (simp add: all_threads_def running_def)
  have magic: "t_stack c = 0 \<or> t_magic c = STACK_MAGIC" using ts_core_thread [OF core mem] cur(3) by (auto simp: thread_ok_def)
  have st0: "structs_ok ?s0" "room_for st ?s0" "curspl ?s0 > 0"
    using core room spl by (simp_all add: ts_core_def structs_ok_def room_for_def split: threadstate.splits)
  obtain s1 where s1: "stash kmalloc st cur ?s0 = Done () s1" "structs_ok s1" "ts_same ?s0 s1" "curthread s1 = 0"
      "ready s1 = ready s @ at_state S_READY st cur" "asleep s1 = asleep s @ at_state S_SLEEP st cur" "dead s1 = dead s @ at_state S_ZOMB st cur"
      "places s1 = places s"
    using stash_run [OF st0, of kmalloc cur] by (auto simp: views places_def)
  obtain q where q: "scheduler irqs s1 = Done nx (s1\<lparr>runqueue := q\<rparr>)" "q_ok q" "q_list q = rest" "q_size q = q_size (runqueue s1)"
    using scheduler_ready [of s1 nx rest irqs] s1(2,3,5) nxt spl by (auto simp: structs_ok_def ts_same_def)
  let ?s2 = "s1\<lparr>runqueue := q, curthread := nx\<rparr>"
  have th2: "threads ?s2 = threads s" using s1(3) by (simp add: ts_same_def)
  obtain s3 c' where s3: "md_switch cur nx ?s2 = Done () s3" "threads s3 = (threads s)(cur \<mapsto> c')"
      "c' = c\<lparr>pcb_kstack := pcb_kstack c', pcb_ininterrupt := pcb_ininterrupt c'\<rparr>"
      "runqueue s3 = q" "sleepers s3 = sleepers s1" "zombies s3 = zombies s1" "curthread s3 = nx" "ts_brk s3 = ts_brk s"
      "numthreads s3 = numthreads s" "curspl s3 = curspl s" "lbolt_counter s3 = lbolt_counter s"
    using md_switch_run [of ?s2 cur c nx n] cur(3) nxt(2) th2 s1(3) by (auto simp: ts_same_def)
  have st: "st = S_READY \<or> st = S_SLEEP \<or> st = S_ZOMB" using room by (cases st) (simp_all add: room_for_def)
  have "nx \<in> set (ready s @ at_state S_READY st cur)" unfolding nxt(1) by simp
  then have nx: "nx \<in> set (all_threads s)" using mem by (auto simp: all_threads_def at_state_def split: if_splits)
  then have nx0: "nx \<noteq> 0" using core by (auto simp: ts_core_def)
  have v3: "running s3 = [nx]" "ready s3 = rest" "asleep s3 = asleep s1" "dead s3 = dead s1"
    using s3(4-7) q(3) nx0 by (simp_all add: views)
  have run: "running s = [cur]" using cur by (simp add: running_def)
  have perm: "mset (all_threads s3) = mset (all_threads s)"
    using st run arg_cong [OF nxt(1), of mset] by (auto simp: all_threads_def v3 s1(6,7) at_state_def)
  have set3: "set (all_threads s3) = set (all_threads s)" and dist3: "distinct (all_threads s3)"
    using perm mset_eq_setD mset_eq_imp_distinct_iff core by (blast, metis ts_core_def)
  have keep: "\<exists>th'. threads s3 x = Some th' \<and> t_stack th' = t_stack th \<and> t_magic th' = t_magic th \<and> t_vmspace th' = t_vmspace th \<and>
      t_cwd th' = t_cwd th \<and> t_resume th' = t_resume th \<and> t_sleepaddr th' = t_sleepaddr th \<and> t_name th' = t_name th \<and> t_pid th' = t_pid th"
    if "threads s x = Some th" for x th
    using that s3(2) cur(3) pcb_only [OF s3(3)] by (cases "x = cur") auto
  have live3: "0 < x \<and> x < ts_brk s3 \<and> (\<exists>th. threads s3 x = Some th \<and> thread_ok th)" if "x \<in> set (all_threads s3)" for x
  proof -
    have x: "x \<in> set (all_threads s)" using that set3 by simp
    then obtain th where "threads s x = Some th" "thread_ok th" using ts_core_thread [OF core] by blast
    with keep [of x th] x core s3(8) show ?thesis by (auto simp: ts_core_def thread_ok_def)
  qed
  have dead3: "t_vmspace th = 0 \<and> t_cwd th = 0" if "x \<in> set (dead s3)" "threads s3 x = Some th" for x th
  proof -
    have "\<exists>th0. threads s x = Some th0 \<and> t_vmspace th0 = 0 \<and> t_cwd th0 = 0"
      using that(1) ts_core_dead [OF core, of x] zomb cur(3) by (auto simp: v3 s1(7) at_state_def split: if_splits)
    with keep [of x] that(2) show ?thesis by auto
  qed
  have core3: "ts_core s3"
    using s1(2) q(2) s3(4-6) dist3 live3 dead3 by (auto simp: ts_core_def structs_ok_def)
  obtain n3 where n3: "threads s3 nx = Some n3" "t_resume n3 = t_resume n" using keep [OF nxt(2)] by blast
  obtain t where t: "resume_thread kmalloc pid_destroy s3 = Done () t" "ts_core t" "curthread t = nx" "runqueue t = q"
      "sleepers t = sleepers s3" "dead t = (if t_resume n = Fresh then dead s3 else [])" "numthreads t = numthreads s" "ts_brk t = ts_brk s"
      "lbolt_counter t = lbolt_counter s" "curspl t = spl_after (t_resume n) (curspl s)"
      "\<forall>x. x \<notin> set (dead s3) \<or> t_resume n = Fresh \<longrightarrow> threads t x = (if x = nx then Some (awake n3) else threads s3 x)"
      "\<forall>x \<in> set (dead s3). t_resume n \<noteq> Fresh \<longrightarrow> threads t x = None"
    using resume_run [OF core3 _ _ _ pid, of n3 kmalloc] n3 nx0 s3(7-11) s3(4) spl by auto
  have run: "mi_switch kmalloc pid_destroy irqs st s = Done True t"
    using magic cur spl s1(1) q(1) s3(1) t(1) by (simp add: mi_switch_def check_stack_def kprog flip: stash_def)
  have vt: "ready t = rest" "asleep t = asleep s1" using t(4,5) q(3) v3(3) by (simp_all add: views)
  have rt: "running t = running s3" using t(3) s3(7) by (simp add: running_def)
  have threads_t: "threads t x = (if x = nx then Some (awake n3) else threads s3 x)" if "x \<in> set (all_threads t)" for x
    using that t(6,11) dist3 vt v3(2,3) rt by (auto simp: all_threads_def split: if_splits)
  have frame: "\<exists>th'. threads t x = Some th' \<and> t_resume th' = t_resume th \<and>
      t_sleepaddr th' = (if x = nx \<and> t_resume th = Slept then 0 else t_sleepaddr th) \<and> t_name th' = t_name th \<and> t_pid th' = t_pid th"
    if "x \<in> set (all_threads t)" "threads s x = Some th" for x th
    using threads_t [OF that(1)] keep [OF that(2)] n3(1) by (cases "x = nx") (auto simp: awake_def)
  have "places t = places s" using t(4,5) q(4) s3(5) s1(8) by (simp add: places_def)
  then show ?thesis
    using run t(2,3,6-10,12) vt v3(4) s1(6,7) cur(1) frame unfolding switched_def by simp
qed

text \<open>The state just before the switch: the current thread has noted where it will continue.\<close>

lemma mark_core:
  assumes "ts_core s" and "threads s (curthread s) = Some c" and "t_stack c' = t_stack c" "t_magic c' = t_magic c"
    and "curthread s \<noteq> 0" and "t = s\<lparr>curspl := l, threads := (threads s)(curthread s \<mapsto> c'), numthreads := k, ts_calls := calls\<rparr>"
  shows "ts_core t" "ready t = ready s" "asleep t = asleep s" "dead t = dead s" "places t = places s"
proof -
  show v: "ready t = ready s" "asleep t = asleep s" "dead t = dead s" "places t = places s" using assms by (simp_all add: views places_def)
  have r: "running t = running s" using assms by (simp add: running_def)
  have all: "all_threads t = all_threads s" by (simp add: all_threads_def v r)
  have nd: "curthread s \<notin> set (dead s)" using assms(1,5) by (auto simp: ts_core_def all_threads_def running_def)
  show "ts_core t" using assms(1-4) nd unfolding ts_core_def all v(3) by (auto simp: assms(6) thread_ok_def)
qed

definition next_spl :: "tsys \<Rightarrow> nat \<Rightarrow> int \<Rightarrow> int" where
  "next_spl s x l = spl_after (t_resume (the (threads s x))) l"

lemma thread_yield_run:
  assumes inv: "ts_inv s" and cur: "curthread s = cur" "cur \<noteq> 0" and pid: "\<forall>p. pid_destroy p"
    and room: "numthreads s < int (q_size (runqueue s)) \<or> asleep s \<noteq> []" and nx: "ready s @ [cur] = nx # rest"
  shows "\<exists>t. thread_yield kmalloc pid_destroy irqs s = Done () t \<and> ts_inv t \<and> curthread t = nx \<and> ready t = rest \<and>
    asleep t = asleep s \<and> places t = places s \<and> numthreads t = numthreads s \<and>
    curspl t = (if nx = cur then curspl s else next_spl s nx SPL_HIGH) \<and>
    (\<forall>x \<in> set (asleep s). t_sleepaddr (the (threads t x)) = t_sleepaddr (the (threads s x)))"
proof -
  have core: "ts_core s" and num: "numthreads s = int (Suc (length (ready s) + length (asleep s)))"
    and pl: "numthreads s \<le> int (q_size (runqueue s))" "numthreads s \<le> arr_max (sleepers s)"
    using inv cur by (simp_all add: ts_inv_def running_def)
  have mem: "cur \<in> set (all_threads s)" using cur by (simp add: all_threads_def running_def)
  then obtain c where c: "threads s cur = Some c" using ts_core_thread [OF core] by blast
  define s1 where "s1 = s\<lparr>curspl := SPL_HIGH, threads := (threads s)(cur \<mapsto> c\<lparr>t_resume := Yielded (curspl s)\<rparr>)\<rparr>"
  have s1: "ts_core s1" "ready s1 = ready s" "asleep s1 = asleep s" "places s1 = places s"
    using mark_core [OF core, where c = c and c' = "c\<lparr>t_resume := Yielded (curspl s)\<rparr>" and t = s1 and l = SPL_HIGH and k = "numthreads s" and calls = "ts_calls s"] cur c
    by (simp_all add: s1_def)
  have "nx \<in> set (ready s @ [cur])" unfolding nx by simp
  then have "nx \<in> set (all_threads s)" using mem by (auto simp: all_threads_def)
  then obtain n where n: "threads s nx = Some n" using ts_core_thread [OF core] by blast
  let ?n = "if nx = cur then c\<lparr>t_resume := Yielded (curspl s)\<rparr> else n"
  have n1: "threads s1 nx = Some ?n" using n by (simp add: s1_def)
  have "q_room (runqueue s1)" using room num pl s1(2) by (cases "asleep s") (auto simp: q_room_def ready_def s1_def)
  then obtain t where t: "mi_switch kmalloc pid_destroy irqs S_READY s1 = Done True t" "switched S_READY nx rest ?n s1 t"
    using mi_switch_run [OF s1(1), of cur "c\<lparr>t_resume := Yielded (curspl s)\<rparr>" pid_destroy S_READY nx rest ?n kmalloc irqs] n1 cur pid nx s1(2)
    by (auto simp: room_for_def at_state_def s1_def)
  have "thread_yield kmalloc pid_destroy irqs s = Done () t"
    using cur c t(1) by (simp add: thread_yield_def kprog s1_def)
  moreover have "t_sleepaddr (the (threads t x)) = t_sleepaddr (the (threads s x))" if x: "x \<in> set (asleep s)" for x
  proof -
    have all: "x \<in> set (all_threads s)" "x \<in> set (all_threads t)" using x t(2) s1(3) by (auto simp: all_threads_def switched_def)
    have "x \<noteq> nx" "x \<noteq> cur" using x core cur \<open>nx \<in> set (ready s @ [cur])\<close> by (auto simp: ts_core_def all_threads_def running_def)
    moreover obtain th where "threads s1 x = Some th" "threads s x = Some th"
      using ts_core_thread [OF core all(1)] \<open>x \<noteq> cur\<close> by (auto simp: s1_def)
    ultimately show ?thesis using t(2) all(2) by (fastforce simp: switched_def)
  qed
  moreover have "nx \<noteq> 0" using \<open>nx \<in> set (all_threads s)\<close> core by (auto simp: ts_core_def)
  moreover have "length rest = length (ready s)" using arg_cong [OF nx, of length] by simp
  ultimately show ?thesis
    using t(2) num pl s1 n cur by (auto simp: switched_def ts_inv_def running_def at_state_def places_def next_spl_def s1_def spl_after_def)
qed

lemma thread_sleep_run:
  assumes inv: "ts_inv s" and cur: "curthread s = cur" "cur \<noteq> 0" and pid: "\<forall>p. pid_destroy p"
    and spl: "curspl s > 0" and noint: "in_interrupt s = 0" and nx: "ready s = nx # rest"
  shows "\<exists>t. thread_sleep kmalloc pid_destroy irqs addr s = Done () t \<and> ts_inv t \<and> curthread t = nx \<and> ready t = rest \<and>
    asleep t = asleep s @ [cur] \<and> places t = places s \<and> numthreads t = numthreads s \<and> curspl t = next_spl s nx (curspl s) \<and>
    (\<forall>x \<in> set (asleep t). t_sleepaddr (the (threads t x)) = (if x = cur then addr else t_sleepaddr (the (threads s x))))"
proof -
  have core: "ts_core s" and num: "numthreads s = int (Suc (length (ready s) + length (asleep s)))"
    and pl: "numthreads s \<le> int (q_size (runqueue s))" "numthreads s \<le> arr_max (sleepers s)"
    using inv cur by (simp_all add: ts_inv_def running_def)
  have mem: "cur \<in> set (all_threads s)" "nx \<in> set (all_threads s)" using cur nx by (simp_all add: all_threads_def running_def)
  then obtain c n where c: "threads s cur = Some c" and n: "threads s nx = Some n" using ts_core_thread [OF core] by blast
  let ?c = "c\<lparr>t_sleepaddr := addr, t_resume := Slept\<rparr>"
  define s1 where "s1 = s\<lparr>threads := (threads s)(cur \<mapsto> ?c)\<rparr>"
  have s1: "ts_core s1" "ready s1 = ready s" "asleep s1 = asleep s" "places s1 = places s"
    using mark_core [OF core, where c = c and c' = ?c and t = s1 and l = "curspl s" and k = "numthreads s" and calls = "ts_calls s"] cur c
    by (simp_all add: s1_def)
  have dist: "distinct (cur # nx # rest @ asleep s)" using core cur nx by (auto simp: ts_core_def all_threads_def running_def)
  then have n1: "threads s1 nx = Some n" using n by (simp add: s1_def)
  have "int (length (asleep s)) = arr_num (sleepers s)"
    using array_ok_length [of "sleepers s"] core by (simp add: asleep_def ts_core_def array_ok_def)
  then have "arr_room (sleepers s1)" using num pl by (simp add: arr_room_def s1_def)
  then obtain t where t: "mi_switch kmalloc pid_destroy irqs S_SLEEP s1 = Done True t" "switched S_SLEEP nx rest n s1 t"
    using mi_switch_run [OF s1(1), of cur ?c pid_destroy S_SLEEP nx rest n kmalloc irqs] n1 cur pid nx s1(2) spl
    by (auto simp: room_for_def at_state_def s1_def)
  have "thread_sleep kmalloc pid_destroy irqs addr s = Done () t"
    using cur c noint t(1) by (simp add: thread_sleep_def kprog s1_def)
  moreover have "t_sleepaddr (the (threads t x)) = (if x = cur then addr else t_sleepaddr (the (threads s x)))"
    if x: "x \<in> set (asleep s @ [cur])" for x
  proof -
    have tc: "curthread s1 = cur" by (simp add: s1_def cur)
    have "x \<in> set (all_threads t)" using x t(2) tc s1(3) by (auto simp: switched_def all_threads_def at_state_def)
    moreover have "x \<in> set (all_threads s)" "x \<noteq> nx" using x mem(1) dist by (auto simp: all_threads_def)
    moreover obtain th where "threads s1 x = Some th" "x \<noteq> cur \<Longrightarrow> threads s x = Some th" "x = cur \<Longrightarrow> t_sleepaddr th = addr"
      using ts_core_thread [OF core \<open>x \<in> set (all_threads s)\<close>] by (cases "x = cur") (auto simp: s1_def)
    ultimately show ?thesis using t(2) by (fastforce simp: switched_def)
  qed
  moreover have "nx \<noteq> 0" using mem(2) core by (auto simp: ts_core_def)
  moreover have "curspl s1 = curspl s" "numthreads s1 = numthreads s" "curthread s1 = cur" by (simp_all add: s1_def cur)
  ultimately show ?thesis
    using t(2) num pl s1 n nx by (auto simp: switched_def ts_inv_def running_def at_state_def places_def next_spl_def)
qed

lemma thread_exit_run:
  assumes inv: "ts_inv s" and cur: "curthread s = cur" "cur \<noteq> 0" and pid: "\<forall>p. pid_destroy p"
    and room: "arr_room (zombies s)" and nx: "ready s = nx # rest"
  shows "\<exists>t. thread_exit kmalloc pid_destroy irqs s = Done () t \<and> ts_inv t \<and> curthread t = nx \<and> ready t = rest \<and>
    asleep t = asleep s \<and> places t = places s \<and> numthreads t = numthreads s - 1 \<and> curspl t = next_spl s nx SPL_HIGH \<and>
    (threads t cur = None \<or> cur \<in> set (dead t))"
proof -
  have core: "ts_core s" and num: "numthreads s = int (Suc (length (ready s) + length (asleep s)))"
    and pl: "numthreads s \<le> int (q_size (runqueue s))" "numthreads s \<le> arr_max (sleepers s)"
    using inv cur by (simp_all add: ts_inv_def running_def)
  have mem: "cur \<in> set (all_threads s)" "nx \<in> set (all_threads s)" using cur nx by (simp_all add: all_threads_def running_def)
  then obtain c n where c: "threads s cur = Some c" "thread_ok c" and n: "threads s nx = Some n" using ts_core_thread [OF core] by blast
  define calls where "calls = ts_calls s @ (if t_vmspace c = 0 then [] else [As_destroy (t_vmspace c)]) @
    (if t_cwd c = 0 then [] else [Vop_decref (t_cwd c)]) @ [Pid_sethasexited (t_pid c) 1]"
  let ?c = "c\<lparr>t_vmspace := 0, t_cwd := 0\<rparr>"
  define s1 where "s1 = s\<lparr>curspl := SPL_HIGH, threads := (threads s)(cur \<mapsto> ?c), ts_calls := calls, numthreads := numthreads s - 1\<rparr>"
  have s1: "ts_core s1" "ready s1 = ready s" "asleep s1 = asleep s" "places s1 = places s"
    using mark_core [OF core, where c = c and c' = ?c and t = s1 and l = SPL_HIGH and k = "numthreads s - 1" and calls = calls] cur c
    by (simp_all add: s1_def)
  have dist: "distinct (cur # nx # rest @ asleep s)" using core cur nx by (auto simp: ts_core_def all_threads_def running_def)
  then have n1: "threads s1 nx = Some n" using n by (simp add: s1_def)
  obtain t where t: "mi_switch kmalloc pid_destroy irqs S_ZOMB s1 = Done True t" "switched S_ZOMB nx rest n s1 t"
    using mi_switch_run [OF s1(1), of cur ?c pid_destroy S_ZOMB nx rest n kmalloc irqs] n1 cur pid nx s1(2) room
    by (auto simp: room_for_def at_state_def s1_def)
  have "thread_exit kmalloc pid_destroy irqs s = Done () t"
  proof -
    have vm: "c\<lparr>t_vmspace := 0\<rparr> = c" if "t_vmspace c = 0" using that by (cases c) simp
    have cw: "c\<lparr>t_vmspace := x, t_cwd := 0\<rparr> = c\<lparr>t_vmspace := x\<rparr>" if "t_cwd c = 0" for x using that by (cases c) simp
    have th: "(threads s)(cur \<mapsto> c) = threads s" using c(1) by (simp add: fun_upd_idem)
    have cw0: "c\<lparr>t_cwd := 0\<rparr> = c" if "t_cwd c = 0" using that by (cases c) simp
    have s0: "s\<lparr>curspl := l, threads := threads s, ts_calls := cs, numthreads := k\<rparr> = s\<lparr>curspl := l, ts_calls := cs, numthreads := k\<rparr>"
      for l k cs by simp
    show ?thesis
      using cur c(1) t(1) num c(2) vm cw cw0 th
      by (cases "t_vmspace c = 0"; cases "t_cwd c = 0")
        (simp_all add: thread_exit_def check_stack_def kprog calls_def s1_def thread_ok_def s0)
  qed
  moreover have "nx \<noteq> 0" using mem(2) core by (auto simp: ts_core_def)
  moreover have "curspl s1 = SPL_HIGH" "numthreads s1 = numthreads s - 1" "curthread s1 = cur" by (simp_all add: s1_def cur)
  ultimately show ?thesis
    using t(2) num pl s1 n nx by (auto simp: switched_def ts_inv_def running_def at_state_def places_def next_spl_def)
qed

subsection \<open>Waking up\<close>

definition waits_on :: "tsys \<Rightarrow> nat \<Rightarrow> nat \<Rightarrow> bool" where
  "waits_on s addr x \<longleftrightarrow> t_sleepaddr (the (threads s x)) = addr"

text \<open>Only the sleepers array and the run queue are different, and hold \<open>sl\<close> and \<open>rq\<close>.\<close>

definition moved :: "tsys \<Rightarrow> nat list \<Rightarrow> nat list \<Rightarrow> tsys \<Rightarrow> bool" where
  "moved s sl rq t \<longleftrightarrow> structs_ok t \<and> ts_same s t \<and> curthread t = curthread s \<and> zombies t = zombies s \<and> places t = places s \<and>
     array_list (sleepers t) = map Some sl \<and> ready t = rq"

lemma moved_views: "moved s sl rq t \<Longrightarrow> asleep t = sl \<and> dead t = dead s \<and> running t = running s \<and> waits_on t = waits_on s"
  by (auto simp: moved_def views ts_same_def waits_on_def fun_eq_iff comp_def)

text \<open>One sleeper is taken off the array and put on the run queue.\<close>

lemma wake_step:
  assumes st: "structs_ok s" and sl: "array_list (sleepers s) = map Some ys" and i: "i < length ys" and spl: "curspl s > 0"
    and room: "q_room (runqueue s)"
  shows "\<exists>s1 t. on_sleepers (array_remove (int i)) s = Done () s1 \<and> make_runnable kmalloc (ys ! i) s1 = Done () t \<and>
    moved s (take i ys @ drop (Suc i) ys) (ready s @ [ys ! i]) t"
proof -
  obtain b where b: "array_remove (int i) (sleepers s) = Done () b" "array_ok b" "array_list b = map Some (take i ys @ drop (Suc i) ys)"
    using array_remove_correct [of "sleepers s" "int i"] st sl i by (auto simp: structs_ok_def take_map drop_map)
  obtain q where q: "q_addtail kmalloc (ys ! i) (runqueue s) = Done () q" "q_ok q" "q_list q = ready s @ [ys ! i]" "q_size q = q_size (runqueue s)"
    using q_addtail_roomy [of "runqueue s" kmalloc "ys ! i"] st room by (auto simp: structs_ok_def ready_def)
  have "None \<notin> set (array_list b)" unfolding b(3) by auto
  then show ?thesis
    using b q st spl array_remove_max [OF b(1)]
    by (auto simp: kprog make_runnable_def moved_def structs_ok_def ts_same_def places_def ready_def)
qed

lemma moved_trans:
  assumes "moved s sl rq t" and "moved t sl' rq' u"
  shows "moved s sl' rq' u"
  using assms by (simp add: moved_def ts_same_def)

lemma sleeper_get:
  assumes "structs_ok s" and "array_list (sleepers s) = map Some ys" and "i < length ys" and "threads s (ys ! i) = Some th"
  shows "array_getguy (int i) (sleepers s) = Done (Some (ys ! i)) (sleepers s)" "waits_on s addr (ys ! i) \<longleftrightarrow> t_sleepaddr th = addr"
  using array_getguy_correct [of "sleepers s" "int i"] assms by (simp_all add: structs_ok_def waits_on_def)

lemma thread_wakeup_from_run:
  assumes "structs_ok s" and "array_list (sleepers s) = map Some ys" and "i + n = length ys" and "curspl s > 0"
    and "\<And>x. x \<in> set ys \<Longrightarrow> threads s x \<noteq> None" and "length (ready s) + n < q_size (runqueue s)"
  shows "\<exists>t. thread_wakeup_from kmalloc addr (int i) n s = Done () t \<and>
    moved s (take i ys @ filter (\<lambda>x. \<not> waits_on s addr x) (drop i ys)) (ready s @ filter (waits_on s addr) (drop i ys)) t"
  using assms
proof (induction n arbitrary: i ys s)
  case 0
  then show ?case by (simp add: kprog moved_def ts_same_def)
next
  case (Suc n)
  let ?y = "ys ! i"
  have i: "i < length ys" using Suc.prems(3) by simp
  then have dr: "drop i ys = ?y # drop (Suc i) ys" by (simp add: Cons_nth_drop_Suc)
  obtain th where th: "threads s ?y = Some th" using Suc.prems(5) [of ?y] i by force
  note get = sleeper_get [OF Suc.prems(1,2) i th]
  show ?case
  proof (cases "waits_on s addr ?y")
    case False
    have "thread_wakeup_from kmalloc addr (int i) (Suc n) s = thread_wakeup_from kmalloc addr (int (Suc i)) n s"
      using False get th by (simp add: kprog add.commute)
    with False Suc.IH [of s ys "Suc i"] Suc.prems i show ?thesis by (simp add: dr take_Suc_conv_app_nth)
  next
    case True
    have "q_room (runqueue s)" using Suc.prems(6) by (simp add: q_room_def ready_def)
    then obtain s1 u where u: "on_sleepers (array_remove (int i)) s = Done () s1" "make_runnable kmalloc ?y s1 = Done () u"
        "moved s (take i ys @ drop (Suc i) ys) (ready s @ [?y]) u"
      using wake_step [OF Suc.prems(1,2) i Suc.prems(4), of kmalloc] by blast
    have step: "thread_wakeup_from kmalloc addr (int i) (Suc n) s = thread_wakeup_from kmalloc addr (int i) n u"
      using True get th u(1,2) by (simp add: kprog)
    let ?zs = "take i ys @ drop (Suc i) ys"
    have "threads u x \<noteq> None" if "x \<in> set ?zs" for x
      using that u(3) Suc.prems(5) [of x] by (auto simp: moved_def ts_same_def dest: in_set_takeD in_set_dropD)
    moreover have "structs_ok u" "array_list (sleepers u) = map Some ?zs" "curspl u > 0" "length (ready u) + n < q_size (runqueue u)"
      using Suc.prems u(3) by (simp_all add: moved_def ts_same_def places_def)
    moreover have "i + n = length ?zs" using Suc.prems(3) by simp
    ultimately obtain t where t: "thread_wakeup_from kmalloc addr (int i) n u = Done () t"
        "moved u (take i ?zs @ filter (\<lambda>x. \<not> waits_on u addr x) (drop i ?zs)) (ready u @ filter (waits_on u addr) (drop i ?zs)) t"
      using Suc.IH [of u ?zs i] by blast
    have zs: "take i ?zs = take i ys" "drop i ?zs = drop (Suc i) ys" and ru: "ready u = ready s @ [?y]" "waits_on u = waits_on s"
      using i u(3) moved_views [OF u(3)] by (simp_all add: moved_def)
    have "moved s (take i ys @ filter (\<lambda>x. \<not> waits_on s addr x) (drop (Suc i) ys)) ((ready s @ [?y]) @ filter (waits_on s addr) (drop (Suc i) ys)) t"
      using moved_trans [OF u(3) t(2)] unfolding zs ru .
    with True t(1) show ?thesis unfolding step dr by simp
  qed
qed

lemma remove1_nth: "distinct ys \<Longrightarrow> i < length ys \<Longrightarrow> take i ys @ drop (Suc i) ys = remove1 (ys ! i) ys"
proof -
  assume d: "distinct ys" and i: "i < length ys"
  have eq: "ys = take i ys @ ys ! i # drop (Suc i) ys" by (rule id_take_nth_drop [OF i])
  have "ys ! i \<notin> set (take i ys)" using d eq by (metis distinct_append disjoint_iff list.set_intros(1))
  then have "remove1 (ys ! i) (take i ys @ ys ! i # drop (Suc i) ys) = take i ys @ drop (Suc i) ys" by (simp add: remove1_append)
  with eq show ?thesis by simp
qed

lemma thread_wakeone_from_run:
  assumes st: "structs_ok s" and sl: "array_list (sleepers s) = map Some ys" and "i + n = length ys" and spl: "curspl s > 0"
    and th: "\<And>x. x \<in> set ys \<Longrightarrow> threads s x \<noteq> None" and room: "q_room (runqueue s)" and d: "distinct ys"
  shows "\<exists>t. thread_wakeone_from kmalloc addr (int i) n s = Done () t \<and>
    (case filter (waits_on s addr) (drop i ys) of [] \<Rightarrow> t = s | x # _ \<Rightarrow> moved s (remove1 x ys) (ready s @ [x]) t)"
  using assms(3)
proof (induction n arbitrary: i)
  case 0
  then show ?case by (simp add: kprog)
next
  case (Suc n)
  let ?y = "ys ! i"
  have i: "i < length ys" using Suc.prems by simp
  then have dr: "drop i ys = ?y # drop (Suc i) ys" by (simp add: Cons_nth_drop_Suc)
  obtain c where c: "threads s ?y = Some c" using th [of ?y] i by force
  note get = sleeper_get [OF st sl i c]
  show ?case
  proof (cases "waits_on s addr ?y")
    case False
    have "thread_wakeone_from kmalloc addr (int i) (Suc n) s = thread_wakeone_from kmalloc addr (int (Suc i)) n s"
      using False get c by (simp add: kprog add.commute)
    with False Suc.IH [of "Suc i"] Suc.prems show ?thesis by (simp add: dr)
  next
    case True
    obtain s1 u where "on_sleepers (array_remove (int i)) s = Done () s1" "make_runnable kmalloc ?y s1 = Done () u"
        "moved s (take i ys @ drop (Suc i) ys) (ready s @ [?y]) u"
      using wake_step [OF st sl i spl room, of kmalloc] by blast
    with True get c show ?thesis by (simp add: kprog dr remove1_nth [OF d i])
  qed
qed

lemma thread_hassleepers_from_run:
  assumes st: "structs_ok s" and sl: "array_list (sleepers s) = map Some ys" and "i + n = length ys"
    and th: "\<And>x. x \<in> set ys \<Longrightarrow> threads s x \<noteq> None"
  shows "thread_hassleepers_from addr (int i) n s = Done (\<exists>x \<in> set (drop i ys). waits_on s addr x) s"
  using assms(3)
proof (induction n arbitrary: i)
  case 0
  then show ?case by (simp add: kprog)
next
  case (Suc n)
  let ?y = "ys ! i"
  have i: "i < length ys" using Suc.prems by simp
  then have dr: "drop i ys = ?y # drop (Suc i) ys" by (simp add: Cons_nth_drop_Suc)
  obtain c where c: "threads s ?y = Some c" using th [of ?y] i by force
  show ?case using sleeper_get(1) [OF st sl i c] sleeper_get(2) [OF st sl i c, of addr] c Suc.IH [of "Suc i"] Suc.prems by (simp add: kprog dr add.commute)
qed

lemma core_structs:
  assumes "ts_core s"
  shows "structs_ok s" "array_list (sleepers s) = map Some (asleep s)" "nat (arr_num (sleepers s)) = length (asleep s)"
    "x \<in> set (asleep s) \<Longrightarrow> threads s x \<noteq> None" "distinct (asleep s)"
proof -
  show "structs_ok s" using assms by (simp add: ts_core_def structs_ok_def)
  show "array_list (sleepers s) = map Some (asleep s)" unfolding asleep_def by (rule list_of_Some) (use assms in \<open>simp add: ts_core_def\<close>)
  show "nat (arr_num (sleepers s)) = length (asleep s)" using array_ok_length [of "sleepers s"] assms by (simp add: ts_core_def asleep_def)
  show "x \<in> set (asleep s) \<Longrightarrow> threads s x \<noteq> None" using ts_core_thread [OF assms, of x] by (auto simp: all_threads_def)
  show "distinct (asleep s)" using assms by (simp add: ts_core_def all_threads_def)
qed

lemma moved_inv:
  assumes inv: "ts_inv s" and m: "moved s sl rq t" and perm: "mset (rq @ sl) = mset (ready s @ asleep s)"
  shows "ts_inv t"
proof -
  note v = moved_views [OF m]
  have core: "ts_core s" using inv by (simp add: ts_inv_def)
  have p: "mset (all_threads t) = mset (all_threads s)" using perm v m by (simp add: all_threads_def moved_def add.assoc [symmetric])
  then have "distinct (all_threads t)" "set (all_threads t) = set (all_threads s)"
    using core mset_eq_imp_distinct_iff [OF p] mset_eq_setD [OF p] by (auto simp: ts_core_def)
  then have "ts_core t" using core m v by (auto simp: ts_core_def moved_def structs_ok_def ts_same_def)
  moreover have "length (ready t) + length (asleep t) = length (ready s) + length (asleep s)"
    using arg_cong [OF perm, of size] v m by (simp add: moved_def)
  ultimately show ?thesis using inv m v by (auto simp: ts_inv_def moved_def ts_same_def places_def)
qed

lemma thread_wakeup_run:
  assumes inv: "ts_inv s" and cur: "curthread s \<noteq> 0" and spl: "curspl s > 0"
  shows "\<exists>t. thread_wakeup kmalloc addr s = Done () t \<and> ts_inv t \<and>
    moved s (filter (\<lambda>x. \<not> waits_on s addr x) (asleep s)) (ready s @ filter (waits_on s addr) (asleep s)) t"
proof -
  have core: "ts_core s" using inv by (simp add: ts_inv_def)
  note c = core_structs [OF core]
  have "length (ready s) + length (asleep s) < q_size (runqueue s)" using inv cur by (auto simp: ts_inv_def running_def)
  then obtain t where t: "thread_wakeup_from kmalloc addr 0 (length (asleep s)) s = Done () t"
      "moved s (filter (\<lambda>x. \<not> waits_on s addr x) (asleep s)) (ready s @ filter (waits_on s addr) (asleep s)) t"
    using thread_wakeup_from_run [OF c(1,2), of 0 "length (asleep s)" kmalloc addr] c(4) spl by auto
  have "ts_inv t" by (rule moved_inv [OF inv t(2)]) (simp add: multiset_partition [symmetric] add.commute flip: multiset_partition)
  with t c(3) spl show ?thesis by (auto simp: thread_wakeup_def kprog array_getnum_def)
qed

lemma thread_wakeone_run:
  assumes inv: "ts_inv s" and cur: "curthread s \<noteq> 0" and spl: "curspl s > 0"
  shows "\<exists>t. thread_wakeone kmalloc addr s = Done () t \<and> ts_inv t \<and>
    (case filter (waits_on s addr) (asleep s) of [] \<Rightarrow> t = s | x # _ \<Rightarrow> moved s (remove1 x (asleep s)) (ready s @ [x]) t)"
proof (cases "asleep s")
  case Nil
  then show ?thesis using inv spl core_structs(3) [of s] by (auto simp: thread_wakeone_def kprog array_getnum_def ts_inv_def)
next
  case (Cons a as)
  have core: "ts_core s" using inv by (simp add: ts_inv_def)
  note c = core_structs [OF core]
  have "q_room (runqueue s)" using inv cur Cons by (auto simp: ts_inv_def running_def q_room_def ready_def)
  then obtain t where t: "thread_wakeone_from kmalloc addr 0 (length (asleep s)) s = Done () t"
      "case filter (waits_on s addr) (asleep s) of [] \<Rightarrow> t = s | x # _ \<Rightarrow> moved s (remove1 x (asleep s)) (ready s @ [x]) t"
    using thread_wakeone_from_run [OF c(1,2), of 0 "length (asleep s)" kmalloc addr] c(4,5) spl by auto
  have "ts_inv t"
  proof (cases "filter (waits_on s addr) (asleep s)")
    case (Cons x xs)
    have "x \<in> set (filter (waits_on s addr) (asleep s))" unfolding Cons by simp
    then have "add_mset x (mset (asleep s) - {#x#}) = mset (asleep s)" by simp
    with t(2) Cons moved_inv [OF inv, of "remove1 x (asleep s)" "ready s @ [x]" t] show ?thesis by simp
  qed (use t(2) inv in simp)
  with t c(3) spl show ?thesis by (auto simp: thread_wakeone_def kprog array_getnum_def)
qed

lemma thread_hassleepers_run:
  assumes "ts_inv s" and "curspl s > 0"
  shows "thread_hassleepers addr s = Done (\<exists>x \<in> set (asleep s). waits_on s addr x) s"
proof -
  have core: "ts_core s" using assms by (simp add: ts_inv_def)
  note c = core_structs [OF core]
  show ?thesis
    using thread_hassleepers_from_run [OF c(1,2), of 0 "length (asleep s)" addr] c(3,4) assms(2)
    by (simp add: thread_hassleepers_def kprog array_getnum_def)
qed

subsection \<open>Forking keeps the invariant\<close>

text \<open>Only the capacity of the structures has changed, and it has not shrunk.\<close>

definition grown :: "tsys \<Rightarrow> tsys \<Rightarrow> bool" where
  "grown s t \<longleftrightarrow> structs_ok t \<and> ts_same s t \<and> curthread t = curthread s \<and> ready t = ready s \<and>
     array_list (sleepers t) = array_list (sleepers s) \<and> array_list (zombies t) = array_list (zombies s) \<and>
     q_size (runqueue s) \<le> q_size (runqueue t) \<and> arr_max (sleepers s) \<le> arr_max (sleepers t) \<and> arr_max (zombies s) \<le> arr_max (zombies t)"

lemma grown_refl: "structs_ok s \<Longrightarrow> grown s s"
  by (simp add: grown_def ts_same_def)

lemma grown_trans: "grown s t \<Longrightarrow> grown t u \<Longrightarrow> grown s u"
  by (simp add: grown_def ts_same_def)

lemma grown_views: "grown s t \<Longrightarrow> ready t = ready s \<and> asleep t = asleep s \<and> dead t = dead s \<and> running t = running s"
  by (simp add: grown_def views)

lemma grown_inv:
  assumes "ts_inv s" and g: "grown s t"
  shows "ts_inv t"
proof -
  have all: "all_threads t = all_threads s" "dead t = dead s" using grown_views [OF g] by (simp_all add: all_threads_def)
  have "ts_core t" using assms unfolding ts_core_def all ts_inv_def by (simp add: grown_def ts_same_def structs_ok_def)
  with assms grown_views [OF g] show ?thesis by (simp add: ts_inv_def grown_def ts_same_def)
qed

lemma array_preallocate_cases:
  assumes ok: "array_ok a" and n: "nguys < 2 ^ 30"
  shows "array_preallocate kmalloc nguys a = Fail ENOMEM a \<or>
    (\<exists>b. array_preallocate kmalloc nguys a = Done () b \<and> array_ok b \<and> array_list b = array_list a \<and> nguys \<le> arr_max b \<and> arr_max a \<le> arr_max b)"
proof -
  have "array_newmax nguys (arr_max a) = Some (arr_max a)" if "nguys \<le> arr_max a"
    using that by (subst array_newmax.simps) simp
  then obtain m where m: "array_newmax nguys (arr_max a) = Some m"
    using array_newmax_returns [of "arr_max a" nguys] ok n by (cases "nguys \<le> arr_max a") (auto simp: array_ok_def)
  then have le: "arr_max a \<le> m" using array_newmax_ge by blast
  show ?thesis
  proof (cases "kmalloc ((nat m * 4) mod 2 ^ 32)")
    case True
    then obtain b where "array_preallocate kmalloc nguys a = Done () b" "arr_max b = m" using m by (simp add: array_preallocate_run [OF ok])
    with le array_preallocate_correct [OF ok this(1)] show ?thesis by simp
  qed (use m in \<open>simp add: array_preallocate_run [OF ok]\<close>)
qed

lemma q_preallocate_cases:
  assumes ok: "q_ok q" and bounded: "kseg0_bounded kmalloc" and n: "n \<le> 2 ^ 29"
  shows "q_preallocate kmalloc n q = Fail ENOMEM q \<or>
    (\<exists>r. q_preallocate kmalloc n q = Done () r \<and> q_ok r \<and> q_list r = q_list q \<and> n \<le> int (q_size r) \<and> q_size q \<le> q_size r)"
proof (cases "n > int (q_size q)")
  case True
  then show ?thesis
    using q_grow_correct [OF ok bounded True n, of 1] ok by (auto simp: q_preallocate_def q_addtail_def kprog q_ok_def numeral_2_eq_2)
next
  case False
  then show ?thesis using ok by (auto simp: q_preallocate_def kprog q_ok_def)
qed

lemma grow_sleepers:
  assumes "structs_ok s" and "n < 2 ^ 30"
  shows "\<exists>t. (on_sleepers (array_preallocate kmalloc n) s = Fail ENOMEM t \<or>
    (on_sleepers (array_preallocate kmalloc n) s = Done () t \<and> n \<le> arr_max (sleepers t))) \<and> grown s t"
  using array_preallocate_cases [of "sleepers s" n kmalloc] assms
  by (auto simp: kprog grown_def structs_ok_def ts_same_def ready_def)

lemma grow_zombies:
  assumes "structs_ok s" and "n < 2 ^ 30"
  shows "\<exists>t. (on_zombies (array_preallocate kmalloc n) s = Fail ENOMEM t \<or>
    (on_zombies (array_preallocate kmalloc n) s = Done () t \<and> n \<le> arr_max (zombies t))) \<and> grown s t"
  using array_preallocate_cases [of "zombies s" n kmalloc] assms
  by (auto simp: kprog grown_def structs_ok_def ts_same_def ready_def)

lemma grow_runqueue:
  assumes "structs_ok s" and "n \<le> 2 ^ 29" and "kseg0_bounded kmalloc" and "curspl s > 0"
  shows "\<exists>t. (scheduler_preallocate kmalloc n s = Fail ENOMEM t \<or>
    (scheduler_preallocate kmalloc n s = Done () t \<and> n \<le> int (q_size (runqueue t)))) \<and> grown s t"
  using q_preallocate_cases [of "runqueue s" kmalloc n] assms
  by (auto simp: scheduler_preallocate_def kprog grown_def structs_ok_def ts_same_def ready_def)

lemma fork_queue_run:
  assumes inv: "ts_inv s" and spl: "curspl s > 0" and cur: "curthread s \<noteq> 0" and new: "newguy \<notin> set (all_threads s)" "0 < newguy" "newguy < ts_brk s"
    "threads s newguy = Some th" "thread_ok th" and bounded: "kseg0_bounded kmalloc" and n: "numthreads s < 2 ^ 29"
  shows "(\<exists>t. thread_fork_queue kmalloc newguy s = Fail ENOMEM t \<and> grown s t) \<or>
    (\<exists>u t q. thread_fork_queue kmalloc newguy s = Done () t \<and> grown s u \<and> t = u\<lparr>runqueue := q, numthreads := numthreads s + 1\<rparr> \<and>
       ts_inv t \<and> ready t = ready s @ [newguy] \<and> numthreads t \<le> arr_max (zombies t))"
proof -
  let ?n = "numthreads s + 1"
  have st: "structs_ok s" using inv core_structs(1) by (simp add: ts_inv_def)
  obtain s1 where s1: "on_sleepers (array_preallocate kmalloc ?n) s = Fail ENOMEM s1 \<or>
      on_sleepers (array_preallocate kmalloc ?n) s = Done () s1 \<and> ?n \<le> arr_max (sleepers s1)" "grown s s1"
    using grow_sleepers [OF st, of ?n kmalloc] n by auto
  have st1: "structs_ok s1" "curspl s1 > 0" using s1(2) spl by (simp_all add: grown_def ts_same_def)
  obtain s2 where s2: "on_zombies (array_preallocate kmalloc ?n) s1 = Fail ENOMEM s2 \<or>
      on_zombies (array_preallocate kmalloc ?n) s1 = Done () s2 \<and> ?n \<le> arr_max (zombies s2)" "grown s1 s2"
    using grow_zombies [OF st1(1), of ?n kmalloc] n by auto
  have st2: "structs_ok s2" "curspl s2 > 0" using s2(2) st1 by (simp_all add: grown_def ts_same_def)
  obtain s3 where s3: "scheduler_preallocate kmalloc ?n s2 = Fail ENOMEM s3 \<or>
      scheduler_preallocate kmalloc ?n s2 = Done () s3 \<and> ?n \<le> int (q_size (runqueue s3))" "grown s2 s3"
    using grow_runqueue [OF st2(1) _ bounded st2(2), of ?n] n by auto
  have g2: "grown s s2" using grown_trans [OF s1(2) s2(2)] .
  have g3: "grown s s3" using grown_trans [OF g2 s3(2)] .
  have inv3: "ts_inv s3" by (rule grown_inv [OF inv g3])
  have fail: "\<exists>t. thread_fork_queue kmalloc newguy s = Fail ENOMEM t \<and> grown s t"
    if "\<not> (on_sleepers (array_preallocate kmalloc ?n) s = Done () s1 \<and> on_zombies (array_preallocate kmalloc ?n) s1 = Done () s2 \<and>
      scheduler_preallocate kmalloc ?n s2 = Done () s3)"
    using that s1 s2(1) s3(1) g2 g3 by (auto simp: thread_fork_queue_def kprog)
  show ?thesis
  proof (cases "on_sleepers (array_preallocate kmalloc ?n) s = Done () s1 \<and> on_zombies (array_preallocate kmalloc ?n) s1 = Done () s2 \<and>
      scheduler_preallocate kmalloc ?n s2 = Done () s3")
    case True
    then have big: "?n \<le> arr_max (sleepers s3)" "?n \<le> arr_max (zombies s3)" "?n \<le> int (q_size (runqueue s3))"
      using s1(1) s2 s3 by (auto simp: grown_def)
    have same: "numthreads s3 = numthreads s" "curspl s3 > 0" "curthread s3 \<noteq> 0" "ts_brk s3 = ts_brk s" "threads s3 = threads s"
      using g3 spl cur by (simp_all add: grown_def ts_same_def)
    have "q_room (runqueue s3)" using big(3) inv3 same by (simp add: q_room_def ts_inv_def running_def ready_def)
    then obtain q where q: "q_addtail kmalloc newguy (runqueue s3) = Done () q" "q_ok q" "q_list q = ready s3 @ [newguy]" "q_size q = q_size (runqueue s3)"
      using q_addtail_roomy [of "runqueue s3" kmalloc newguy] inv3 by (auto simp: ts_inv_def ts_core_def ready_def)
    let ?t = "s3\<lparr>runqueue := q, numthreads := ?n\<rparr>"
    have run: "thread_fork_queue kmalloc newguy s = Done () ?t"
      using True q(1) same by (simp add: thread_fork_queue_def kprog make_runnable_def)
    have new3: "newguy \<notin> set (all_threads s3)" using new(1) grown_views [OF g3] by (simp add: all_threads_def)
    have "ts_inv ?t"
      using inv3 new3 new(2-) q big same by (auto simp: ts_inv_def ts_core_def all_threads_def views)
    with run g3 q(3) big(2) grown_views [OF g3] show ?thesis by (auto simp: ready_def)
  qed (use fail in blast)
qed

text \<open>References to a vnode taken less those given back.\<close>

definition vrefs :: "nat \<Rightarrow> tsys \<Rightarrow> int" where
  "vrefs v s = int (count_list (ts_calls s) (Vop_incref v)) - int (count_list (ts_calls s) (Vop_decref v))"

text \<open>The state in which the new thread has been made and interrupts are off.\<close>

definition fork_thread :: "string \<Rightarrow> int \<Rightarrow> nat \<Rightarrow> nat \<Rightarrow> thread" where
  "fork_thread name npid stack cwd = \<lparr>t_name = name, t_sleepaddr = 0, t_stack = stack, t_magic = STACK_MAGIC, t_vmspace = 0, t_cwd = cwd,
     t_pid = npid, pcb_kstack = stack + STACK_SIZE, pcb_ininterrupt = 0, t_resume = Fresh\<rparr>"

definition forking :: "string \<Rightarrow> int \<Rightarrow> nat \<Rightarrow> tsys \<Rightarrow> tsys" where
  "forking name npid cwd s = s\<lparr>ts_brk := ts_brk s + 1 + STACK_SIZE,
     ts_calls := ts_calls s @ (if cwd = 0 then [] else [Vop_incref cwd]),
     threads := (threads s)(ts_brk s \<mapsto> fork_thread name npid (ts_brk s + 1) cwd), curspl := SPL_HIGH\<rparr>"

lemma thread_fork_setup:
  assumes cur: "threads s (curthread s) = Some c" "curthread s \<noteq> ts_brk s" and brk: "ts_brk s \<noteq> 0"
    and ok: "kmalloc 88" "kmalloc (length name + 1)" "kmalloc STACK_SIZE" "pid_create (t_pid c) = Inr npid"
  shows "thread_fork kmalloc pid_create s0 name s =
    (case thread_fork_queue kmalloc (ts_brk s) (forking name npid (t_cwd c) s) of
       Done _ t \<Rightarrow> Done (ts_brk s) (t\<lparr>curspl := curspl s\<rparr>)
     | Fail e t \<Rightarrow> thread_fork_fail (ts_brk s) (curspl s) e t
     | Panic p \<Rightarrow> Panic p)"
  using assms
  by (cases "t_cwd c = 0") (simp_all add: thread_fork_def thread_create_def kprog forking_def fork_thread_def split: outcome.split)

lemma forking_inv:
  assumes inv: "ts_inv s"
  shows "ts_inv (forking name npid cwd s)" "ts_brk s \<notin> set (all_threads (forking name npid cwd s))"
    "ready (forking name npid cwd s) = ready s" "asleep (forking name npid cwd s) = asleep s" "dead (forking name npid cwd s) = dead s"
    "running (forking name npid cwd s) = running s"
proof -
  let ?t = "forking name npid cwd s"
  show v: "ready ?t = ready s" "asleep ?t = asleep s" "dead ?t = dead s" "running ?t = running s" by (simp_all add: forking_def views)
  have core: "ts_core s" using inv by (simp add: ts_inv_def)
  have all: "all_threads ?t = all_threads s" by (simp add: all_threads_def v)
  show brk: "ts_brk s \<notin> set (all_threads ?t)" using core by (auto simp: ts_core_def all)
  then have "ts_brk s \<notin> set (dead s)" by (auto simp: all_threads_def v)
  moreover have "threads ?t x = threads s x" if "x \<noteq> ts_brk s" for x using that by (simp add: forking_def)
  moreover have "runqueue ?t = runqueue s" "sleepers ?t = sleepers s" "zombies ?t = zombies s" "ts_brk s \<le> ts_brk ?t" by (simp_all add: forking_def)
  ultimately have "ts_core ?t" using core brk unfolding ts_core_def all v by (metis order_less_le_trans)
  then show "ts_inv ?t" using inv by (simp add: ts_inv_def v) (simp add: forking_def)
qed

lemma forget_inv:
  assumes "ts_inv s" and x: "x \<notin> set (all_threads s)" and t: "runqueue t = runqueue s" "sleepers t = sleepers s" "zombies t = zombies s"
    "curthread t = curthread s" "numthreads t = numthreads s" "ts_brk s \<le> ts_brk t" "\<And>y. y \<noteq> x \<Longrightarrow> threads t y = threads s y"
  shows "ts_inv t"
proof -
  have v: "ready t = ready s" "asleep t = asleep s" "dead t = dead s" "running t = running s" using t by (simp_all add: views)
  have all: "all_threads t = all_threads s" by (simp add: all_threads_def v)
  have "x \<notin> set (dead s)" using x by (simp add: all_threads_def)
  then have "ts_core t" using assms unfolding ts_inv_def ts_core_def all v by (metis order_less_le_trans)
  with assms v show ?thesis by (simp add: ts_inv_def)
qed

text \<open>The fork failed: nothing but the capacities and memory no longer used has changed.\<close>

definition fork_undone :: "tsys \<Rightarrow> tsys \<Rightarrow> bool" where
  "fork_undone s t \<longleftrightarrow> ts_inv t \<and> curthread t = curthread s \<and> ready t = ready s \<and> asleep t = asleep s \<and> dead t = dead s \<and>
     numthreads t = numthreads s \<and> (\<forall>v. vrefs v t = vrefs v s) \<and> (\<forall>x. x \<noteq> ts_brk s \<longrightarrow> threads t x = threads s x)"

lemma fork_fail_run:
  assumes inv: "ts_inv s" and g: "grown (forking name npid cwd s) t"
  shows "\<exists>u. thread_fork_fail (ts_brk s) l e t = Fail e u \<and> fork_undone s u \<and> curspl u = l"
proof -
  note f = forking_inv [OF inv, of name npid cwd]
  let ?c = "if cwd = 0 then [] else [Vop_decref cwd]"
  have th: "threads t = threads (forking name npid cwd s)" "ts_calls t = ts_calls (forking name npid cwd s)" "ts_brk t = ts_brk (forking name npid cwd s)"
    "curthread t = curthread s" "numthreads t = numthreads s"
    using g by (simp_all add: grown_def ts_same_def) (simp_all add: forking_def)
  let ?u = "t\<lparr>curspl := l, ts_calls := ts_calls t @ ?c, threads := (threads t)(ts_brk s := None)\<rparr>"
  have "thread_fork_fail (ts_brk s) l e t = Fail e ?u"
    using th(1) by (cases "cwd = 0") (simp_all add: thread_fork_fail_def kprog forking_def fork_thread_def)
  moreover have "ts_inv ?u"
    by (rule forget_inv [OF grown_inv [OF f(1) g], of "ts_brk s"]) (use f(2) grown_views [OF g] in \<open>simp_all add: all_threads_def\<close>)
  moreover have "vrefs v ?u = vrefs v s" for v using th(2) by (simp add: vrefs_def forking_def)
  moreover have "threads ?u x = threads s x" if "x \<noteq> ts_brk s" for x using that th(1) by (simp add: forking_def)
  ultimately show ?thesis using grown_views [OF g] f th(4,5) by (auto simp: fork_undone_def views)
qed

definition forked :: "string \<Rightarrow> thread \<Rightarrow> int \<Rightarrow> tsys \<Rightarrow> nat \<Rightarrow> tsys \<Rightarrow> bool" where
  "forked name c npid s new t \<longleftrightarrow> ts_inv t \<and> new \<notin> set (all_threads s) \<and> curthread t = curthread s \<and> ready t = ready s @ [new] \<and>
     asleep t = asleep s \<and> dead t = dead s \<and> numthreads t = numthreads s + 1 \<and> numthreads t \<le> arr_max (zombies t) \<and> curspl t = curspl s \<and>
     (\<exists>stack. threads t new = Some (fork_thread name npid stack (t_cwd c))) \<and> (\<forall>x. x \<noteq> new \<longrightarrow> threads t x = threads s x) \<and>
     (\<forall>v. vrefs v t = vrefs v s + (if v = t_cwd c \<and> v \<noteq> 0 then 1 else 0))"

lemma fork_done_run:
  assumes inv: "ts_inv s" and g: "grown (forking name npid (t_cwd c) s) u" and t: "t = u\<lparr>runqueue := q, numthreads := numthreads s + 1\<rparr>" "ts_inv t"
    "ready t = ready s @ [ts_brk s]" "numthreads t \<le> arr_max (zombies t)"
  shows "forked name c npid s (ts_brk s) (t\<lparr>curspl := curspl s\<rparr>)"
proof -
  note f = forking_inv [OF inv, of name npid "t_cwd c"]
  have new: "ts_brk s \<notin> set (all_threads s)" using inv by (auto simp: ts_inv_def ts_core_def)
  have gs: "threads u = threads (forking name npid (t_cwd c) s)" "ts_calls u = ts_calls (forking name npid (t_cwd c) s)" "curthread u = curthread s"
    using g by (simp_all add: grown_def ts_same_def) (simp_all add: forking_def)
  have inv': "ts_inv (t\<lparr>curspl := curspl s\<rparr>)"
    by (rule forget_inv [OF t(2), of "ts_brk (t::tsys)"]) (use t(2) in \<open>auto simp: ts_inv_def ts_core_def\<close>)
  have v: "asleep t = asleep s" "dead t = dead s" using grown_views [OF g] f by (simp_all add: t(1) views)
  have "threads t (ts_brk s) = Some (fork_thread name npid (ts_brk s + 1) (t_cwd c))" "threads t x = threads s x" if "x \<noteq> ts_brk s" for x
    using gs(1) that by (simp_all add: t(1) forking_def)
  moreover have "vrefs v t = vrefs v s + (if v = t_cwd c \<and> v \<noteq> 0 then 1 else 0)" for v
    using gs(2) by (simp add: t(1) vrefs_def forking_def)
  ultimately show ?thesis
    using inv' new t(3,4) v gs(1,3) by (auto simp: forked_def views t(1) vrefs_def forking_def)
qed

subsection \<open>Properties\<close>

definition sample_thread :: "resume \<Rightarrow> nat \<Rightarrow> thread" where
  "sample_thread r addr = \<lparr>t_name = ''t'', t_sleepaddr = addr, t_stack = 0, t_magic = [], t_vmspace = 0, t_cwd = 0, t_pid = 1,
     pcb_kstack = 0, pcb_ininterrupt = 0, t_resume = r\<rparr>"

text \<open>Thread 1 is running, 2 and 3 are ready (3 has not run yet) and 4 sleeps on address 100; the queue has five cells.\<close>

definition threads_sample :: tsys where
  "threads_sample = \<lparr>curthread = 1, sleepers = \<lparr>arr_num = 1, arr_max = 4, arr_v = Some [Some 4, None, None, None]\<rparr>,
     zombies = \<lparr>arr_num = 0, arr_max = 4, arr_v = Some [None, None, None, None]\<rparr>,
     runqueue = \<lparr>q_size = 5, q_nextwrite = 0, q_nextread = 3, q_data = [None, None, None, Some 2, Some 3]\<rparr>,
     numthreads = 4, curspl = 15, in_interrupt = 0, curkstack = 0, lbolt_counter = 0,
     threads = [1 \<mapsto> sample_thread Fresh 0, 2 \<mapsto> sample_thread (Yielded 0) 0, 3 \<mapsto> sample_thread Fresh 0, 4 \<mapsto> sample_thread Slept 100],
     ts_brk = 5, ts_calls = []\<rparr>"

lemma threads_sample_inv:
  "ts_inv threads_sample" "curthread threads_sample = 1" "ready threads_sample = [2, 3]" "asleep threads_sample = [4]" "dead threads_sample = []"
  "q_size (runqueue threads_sample) = 5" "numthreads threads_sample = 4" "curspl threads_sample = 15" "in_interrupt threads_sample = 0"
proof -
  have v: "ready threads_sample = [2, 3]" "asleep threads_sample = [4]" "dead threads_sample = []" "running threads_sample = [1]"
    by (simp_all add: views threads_sample_def q_list_def q_len_def ring_def array_list_def upt_rec)
  show "ready threads_sample = [2, 3]" "asleep threads_sample = [4]" "dead threads_sample = []" by (fact v)+
  have "q_ok (runqueue threads_sample)"
    by (auto simp: q_ok_def threads_sample_def q_len_def less_2_cases_iff)
  then have "ts_core threads_sample"
    unfolding ts_core_def all_threads_def v
    by (auto simp: threads_sample_def array_ok_def array_list_def sample_thread_def thread_ok_def)
  then show "ts_inv threads_sample" unfolding ts_inv_def v by (simp add: threads_sample_def)
qed (simp_all add: threads_sample_def)



text \<open>
  C22. Fairness. Every ready thread gets to run: when the running threads keep yielding, the current thread and the ready ones take turns in
  the order of the run queue, and after \<open>k\<close> yields the thread that was in place \<open>k\<close> (modulo their number) is running.
\<close>

fun yields :: "kmalloc_fn \<Rightarrow> (int \<Rightarrow> bool) \<Rightarrow> nat \<Rightarrow> (tsys, unit) prog" where
  "yields kmalloc pid_destroy 0 = kret ()"
| "yields kmalloc pid_destroy (Suc k) = kthen (thread_yield kmalloc pid_destroy []) (yields kmalloc pid_destroy k)"







lemma q_addtail_full_refused:
  assumes ok: "q_ok q" and full: "Suc (length (q_list q)) = q_size q"
  shows "q_addtail (\<lambda>_. False) x q = Fail ENOMEM q"
proof -
  have r: "q_nextread q < q_size q" "q_nextwrite q < q_size q" "0 < q_size q" "q_size q \<le> 2 ^ 27" using ok by (simp_all add: q_ok_def)
  have "(q_nextwrite q + 1) mod q_size q = q_nextread q"
    using ring_len_Suc [OF r(1,2)] full by (metis Suc_eq_plus1 less_irrefl mod_less_divisor q_len_def q_list_length r(3))
  moreover have "\<exists>n. q_newsize (q_size q) (int (q_size q) + 1) = Some n"
    using q_newsize_Some [of "q_size q" "int (q_size q) + 1"] r by auto
  ultimately show ?thesis
    using r(3) wrap32_succ_size [OF ok] by (auto simp: q_addtail_def numeral_2_eq_2 q_addtail_rec.simps(2) kprog q_grow_def)
qed

text \<open>
  C25. The preallocation of the run queue is one short. \<^verbatim>\<open>thread_fork\<close> asks for as many cells as there are threads, but a queue of
  \<open>n\<close> cells holds \<open>n - 1\<close> elements. When there are exactly as many threads as cells and none is asleep, \<^verbatim>\<open>thread_yield\<close> needs memory,
  and when there is none the assertion in \<^verbatim>\<open>mi_switch\<close> brings the kernel down.
\<close>

theorem thread_yield_queue_full:
  assumes inv: "ts_inv s" and cur: "curthread s \<noteq> 0" and full: "numthreads s = int (q_size (runqueue s))" and "asleep s = []"
  shows "thread_yield (\<lambda>_. False) pid_destroy irqs s = Panic ''assertion failed''"
proof -
  obtain c where c: "threads s (curthread s) = Some c" "thread_ok c"
    using ts_core_thread [of s "curthread s"] inv cur by (auto simp: ts_inv_def all_threads_def running_def)
  have "Suc (length (q_list (runqueue s))) = q_size (runqueue s)" "q_ok (runqueue s)"
    using assms by (auto simp: ts_inv_def running_def ready_def ts_core_def)
  from q_addtail_full_refused [OF this(2,1), of "curthread s"] show ?thesis
    using c cur by (auto simp: thread_yield_def mi_switch_def check_stack_def kprog make_runnable_def thread_ok_def)
qed

definition threads_full :: tsys where
  "threads_full = threads_sample\<lparr>sleepers := \<lparr>arr_num = 0, arr_max = 4, arr_v = Some [None, None, None, None]\<rparr>, numthreads := 3,
     runqueue := \<lparr>q_size = 3, q_nextwrite = 1, q_nextread = 2, q_data = [Some 3, None, Some 2]\<rparr>\<rparr>"

theorem thread_yield_queue_full_witness:
  "ts_inv threads_full \<and> curthread threads_full \<noteq> 0 \<and> numthreads threads_full = int (q_size (runqueue threads_full)) \<and> asleep threads_full = [] \<and>
   thread_yield (\<lambda>_. False) (\<lambda>_. True) [] threads_full = Panic ''assertion failed''"
proof -
  have v: "ready threads_full = [2, 3]" "asleep threads_full = []" "dead threads_full = []" "running threads_full = [1]"
    by (simp_all add: views threads_full_def threads_sample_def q_list_def q_len_def ring_def array_list_def upt_rec)
  have "q_ok (runqueue threads_full)"
    by (auto simp: q_ok_def threads_full_def q_len_def less_2_cases_iff)
  then have "ts_core threads_full"
    unfolding ts_core_def all_threads_def v
    by (auto simp: threads_full_def threads_sample_def array_ok_def array_list_def sample_thread_def thread_ok_def)
  then have inv: "ts_inv threads_full" unfolding ts_inv_def v by (simp add: threads_full_def threads_sample_def)
  have "curthread threads_full \<noteq> 0" "numthreads threads_full = int (q_size (runqueue threads_full))" by (simp_all add: threads_full_def threads_sample_def)
  with thread_yield_queue_full [OF inv this v(2)] inv v(2) show ?thesis by blast
qed



text \<open>
  C27. \<^verbatim>\<open>thread_bootstrap\<close> never gets to the first thread. It reads a field of the current thread when there is none, so
  with a memory that has nothing at the null pointer it does not return, whatever the allocators do.
\<close>

theorem thread_bootstrap_crashes:
  assumes "curthread s = 0" and "threads s 0 = None"
  shows "\<exists>p. thread_bootstrap kmalloc pid_create s = Panic p"
  using assms by (auto simp: thread_bootstrap_def kprog split: option.split)

theorem thread_bootstrap_crashes_witness:
  "threads threads_sample 0 = None \<and>
   (\<exists>p. thread_bootstrap (\<lambda>n. n \<le> 4096) (\<lambda>p. Inr 1) (threads_sample\<lparr>curthread := 0\<rparr>) = Panic p)"
  using thread_bootstrap_crashes [of "threads_sample\<lparr>curthread := 0\<rparr>" "\<lambda>n. n \<le> 4096" "\<lambda>p. Inr 1"]
  by (simp add: threads_sample_def)

end
