(* ===== verification/Synch.thy ===== *)
theory Synch
  imports Threads
begin

text \<open>
  Semaphores, locks and condition variables: \<^verbatim>\<open>kern/thread/synch.c\<close>, on the thread system of \<open>Threads\<close>. The objects live in a heap and their
  addresses are the addresses threads sleep on.

  A thread that sleeps in the middle of a routine continues there when it runs again. In the code that place is on its
  stack; here \<open>sy_pc\<close> holds it for each thread, with the local variables that are still needed. A routine runs up to its end or up to the
  switch to another thread, and \<open>resume_sync\<close> carries on a routine that was left in the middle.
\<close>

subsection \<open>State\<close>

record semaphore =
  sem_name :: string
  sem_count :: int

record lock =
  lock_name :: string
  holder :: nat

datatype obj = Sem semaphore | Lock lock | Cv string

text \<open>
  \<open>In_P sem spl\<close>: in the loop of \<^verbatim>\<open>P\<close>; \<open>In_acquire lock spl outer\<close>: in the loop of \<^verbatim>\<open>lock_acquire\<close>, called from \<^verbatim>\<open>cv_wait\<close> when
  \<open>outer\<close> is the level that is to restore; \<open>In_wait cv lock spl\<close>: asleep in \<^verbatim>\<open>cv_wait\<close>.
\<close>

datatype frame = Idle | In_P nat int | In_acquire nat int "int option" | In_wait nat nat int

record sync =
  sy_ts :: tsys
  sy_obj :: "nat \<Rightarrow> obj option"
  sy_pc :: "nat \<Rightarrow> frame"

definition on_ts :: "(tsys, 'a) prog \<Rightarrow> (sync, 'a) prog" where
  "on_ts = kzoom sy_ts (\<lambda>x s. s\<lparr>sy_ts := x\<rparr>)"

definition get_sem :: "nat \<Rightarrow> (sync, semaphore) prog" where
  "get_sem a = kbind (kget (\<lambda>s. sy_obj s a)) (\<lambda>x. case x of Some (Sem sem) \<Rightarrow> kret sem | _ \<Rightarrow> kpanic ''bad pointer'')"

definition get_lock :: "nat \<Rightarrow> (sync, lock) prog" where
  "get_lock a = kbind (kget (\<lambda>s. sy_obj s a)) (\<lambda>x. case x of Some (Lock lk) \<Rightarrow> kret lk | _ \<Rightarrow> kpanic ''bad pointer'')"

definition put_obj :: "nat \<Rightarrow> obj \<Rightarrow> (sync, unit) prog" where
  "put_obj a x = kmod (\<lambda>s. s\<lparr>sy_obj := (sy_obj s)(a \<mapsto> x)\<rparr>)"

definition kfree_obj :: "nat \<Rightarrow> (sync, unit) prog" where
  "kfree_obj a = kmod (\<lambda>s. s\<lparr>sy_obj := (sy_obj s)(a := None)\<rparr>)"

text \<open>The current thread notes where it is.\<close>

definition set_pc :: "frame \<Rightarrow> (sync, unit) prog" where
  "set_pc fr = kmod (\<lambda>s. s\<lparr>sy_pc := (sy_pc s)(curthread (sy_ts s) := fr)\<rparr>)"

definition new_obj :: "kmalloc_fn \<Rightarrow> nat \<Rightarrow> string \<Rightarrow> obj \<Rightarrow> (sync, nat) prog" where
  "new_obj kmalloc n name x =
     (if \<not> kmalloc n \<or> \<not> kmalloc (length name + 1) then kret 0
      else kbind (kget (ts_brk \<circ> sy_ts)) (\<lambda>a.
           kthen (on_ts (kmod (\<lambda>s. s\<lparr>ts_brk := a + 1\<rparr>)))
           (kthen (put_obj a x) (kret a))))"

subsection \<open>Semaphores\<close>

definition sem_create :: "kmalloc_fn \<Rightarrow> string \<Rightarrow> int \<Rightarrow> (sync, nat) prog" where
  "sem_create kmalloc name initial_count = new_obj kmalloc 8 name (Sem \<lparr>sem_name = name, sem_count = initial_count\<rparr>)"

definition sem_destroy :: "nat \<Rightarrow> (sync, unit) prog" where
  "sem_destroy sem =
     kthen (kassert (sem \<noteq> 0))
     (kbind (on_ts splhigh) (\<lambda>spl.
      kbind (on_ts (thread_hassleepers sem)) (\<lambda>has.
      kthen (kassert (\<not> has))
      (kthen (on_ts (splx spl))
      (kthen (get_sem sem) (kfree_obj sem))))))"

definition P_loop :: "kmalloc_fn \<Rightarrow> (int \<Rightarrow> bool) \<Rightarrow> nat \<Rightarrow> int \<Rightarrow> (sync, unit) prog" where
  "P_loop kmalloc pid_destroy sem spl =
     kbind (get_sem sem) (\<lambda>sm.
     if sem_count sm = 0
     then kthen (set_pc (In_P sem spl)) (on_ts (thread_sleep kmalloc pid_destroy [] sem))
     else kthen (kassert (sem_count sm > 0))
          (kthen (put_obj sem (Sem (sm\<lparr>sem_count := sem_count sm - 1\<rparr>)))
          (kthen (set_pc Idle)
          (kthen (on_ts (splx spl)) (kret ())))))"

definition P :: "kmalloc_fn \<Rightarrow> (int \<Rightarrow> bool) \<Rightarrow> nat \<Rightarrow> (sync, unit) prog" where
  "P kmalloc pid_destroy sem =
     kthen (kassert (sem \<noteq> 0))
     (kbind (kget (in_interrupt \<circ> sy_ts)) (\<lambda>ii.
      kthen (kassert (ii = 0))
      (kbind (on_ts splhigh) (P_loop kmalloc pid_destroy sem))))"

definition V :: "kmalloc_fn \<Rightarrow> nat \<Rightarrow> (sync, unit) prog" where
  "V kmalloc sem =
     kthen (kassert (sem \<noteq> 0))
     (kbind (on_ts splhigh) (\<lambda>spl.
      kbind (get_sem sem) (\<lambda>sm.
      let count = wrap32 (sem_count sm + 1) in
      kthen (put_obj sem (Sem (sm\<lparr>sem_count := count\<rparr>)))
      (kthen (kassert (count > 0))
      (kthen (on_ts (thread_wakeup kmalloc sem))
      (kthen (on_ts (splx spl)) (kret ())))))))"

subsection \<open>Locks\<close>

definition lock_create :: "kmalloc_fn \<Rightarrow> string \<Rightarrow> (sync, nat) prog" where
  "lock_create kmalloc name = new_obj kmalloc 8 name (Lock \<lparr>lock_name = name, holder = 0\<rparr>)"

text \<open>\<^verbatim>\<open>lock_destroy\<close> frees the holder, which is a thread structure.\<close>

definition lock_destroy :: "nat \<Rightarrow> (sync, unit) prog" where
  "lock_destroy lock =
     kthen (kassert (lock \<noteq> 0))
     (kbind (get_lock lock) (\<lambda>lk.
      kthen (if holder lk = 0 then kret () else on_ts (kfree_thread (holder lk)))
      (kfree_obj lock)))"

definition lock_do_i_hold :: "nat \<Rightarrow> (sync, bool) prog" where
  "lock_do_i_hold lock =
     kthen (kassert (lock \<noteq> 0))
     (kbind (on_ts splhigh) (\<lambda>spl.
      kbind (get_lock lock) (\<lambda>lk.
      kbind (kget (curthread \<circ> sy_ts)) (\<lambda>cur.
      kthen (on_ts (splx spl)) (kret (holder lk = cur))))))"

text \<open>The loop of \<^verbatim>\<open>lock_acquire\<close>, the rest of the routine, and the rest of \<^verbatim>\<open>cv_wait\<close> if it was called from there.\<close>

definition acquire_loop :: "kmalloc_fn \<Rightarrow> (int \<Rightarrow> bool) \<Rightarrow> nat \<Rightarrow> int \<Rightarrow> int option \<Rightarrow> (sync, unit) prog" where
  "acquire_loop kmalloc pid_destroy lock spl outer =
     kbind (get_lock lock) (\<lambda>lk.
     if holder lk \<noteq> 0
     then kthen (set_pc (In_acquire lock spl outer)) (on_ts (thread_sleep kmalloc pid_destroy [] lock))
     else kbind (kget (curthread \<circ> sy_ts)) (\<lambda>cur.
          kthen (put_obj lock (Lock (lk\<lparr>holder := cur\<rparr>)))
          (kthen (set_pc Idle)
          (kthen (on_ts (splx spl))
          (case outer of None \<Rightarrow> kret () | Some spl \<Rightarrow> kthen (on_ts (splx spl)) (kret ()))))))"

definition lock_acquire_in :: "kmalloc_fn \<Rightarrow> (int \<Rightarrow> bool) \<Rightarrow> nat \<Rightarrow> int option \<Rightarrow> (sync, unit) prog" where
  "lock_acquire_in kmalloc pid_destroy lock outer =
     kthen (kassert (lock \<noteq> 0))
     (kbind (on_ts splhigh) (\<lambda>spl.
      kbind (lock_do_i_hold lock) (\<lambda>held.
      if held then kpanic ''lock: Deadlock''
      else acquire_loop kmalloc pid_destroy lock spl outer)))"

definition lock_acquire :: "kmalloc_fn \<Rightarrow> (int \<Rightarrow> bool) \<Rightarrow> nat \<Rightarrow> (sync, unit) prog" where
  "lock_acquire kmalloc pid_destroy lock = lock_acquire_in kmalloc pid_destroy lock None"

definition lock_release :: "kmalloc_fn \<Rightarrow> nat \<Rightarrow> (sync, unit) prog" where
  "lock_release kmalloc lock =
     kthen (kassert (lock \<noteq> 0))
     (kbind (on_ts splhigh) (\<lambda>spl.
      kbind (lock_do_i_hold lock) (\<lambda>held.
      if \<not> held then kpanic ''lock: Deadlock''
      else kbind (get_lock lock) (\<lambda>lk.
           kthen (put_obj lock (Lock (lk\<lparr>holder := 0\<rparr>)))
           (kthen (on_ts (thread_wakeup kmalloc lock))
           (kthen (on_ts (splx spl)) (kret ())))))))"

subsection \<open>Condition variables\<close>

definition cv_create :: "kmalloc_fn \<Rightarrow> string \<Rightarrow> (sync, nat) prog" where
  "cv_create kmalloc name = new_obj kmalloc 4 name (Cv name)"

definition cv_destroy :: "nat \<Rightarrow> (sync, unit) prog" where
  "cv_destroy cv = kthen (kassert (cv \<noteq> 0)) (kfree_obj cv)"

definition cv_wait :: "kmalloc_fn \<Rightarrow> (int \<Rightarrow> bool) \<Rightarrow> nat \<Rightarrow> nat \<Rightarrow> (sync, unit) prog" where
  "cv_wait kmalloc pid_destroy cv lock =
     kthen (kassert (cv \<noteq> 0))
     (kthen (kassert (lock \<noteq> 0))
     (kbind (on_ts splhigh) (\<lambda>spl.
      kthen (lock_release kmalloc lock)
      (kthen (set_pc (In_wait cv lock spl))
      (on_ts (thread_sleep kmalloc pid_destroy [] cv))))))"

definition cv_signal :: "kmalloc_fn \<Rightarrow> nat \<Rightarrow> nat \<Rightarrow> (sync, unit) prog" where
  "cv_signal kmalloc cv lock =
     kthen (kassert (cv \<noteq> 0))
     (kthen (kassert (lock \<noteq> 0))
     (kbind (on_ts splhigh) (\<lambda>spl.
      kthen (on_ts (thread_wakeone kmalloc cv))
      (kthen (on_ts (splx spl)) (kret ())))))"

definition cv_broadcast :: "kmalloc_fn \<Rightarrow> nat \<Rightarrow> nat \<Rightarrow> (sync, unit) prog" where
  "cv_broadcast kmalloc cv lock =
     kthen (kassert (cv \<noteq> 0))
     (kthen (kassert (lock \<noteq> 0))
     (kbind (on_ts splhigh) (\<lambda>spl.
      kthen (on_ts (thread_wakeup kmalloc cv))
      (kthen (on_ts (splx spl)) (kret ())))))"

subsection \<open>Carrying on after a switch\<close>

definition resume_sync :: "kmalloc_fn \<Rightarrow> (int \<Rightarrow> bool) \<Rightarrow> (sync, unit) prog" where
  "resume_sync kmalloc pid_destroy =
     kbind (kget (\<lambda>s. sy_pc s (curthread (sy_ts s)))) (\<lambda>fr.
     case fr of Idle \<Rightarrow> kret ()
     | In_P sem spl \<Rightarrow> P_loop kmalloc pid_destroy sem spl
     | In_acquire lock spl outer \<Rightarrow> acquire_loop kmalloc pid_destroy lock spl outer
     | In_wait cv lock spl \<Rightarrow> lock_acquire_in kmalloc pid_destroy lock (Some spl))"

subsection \<open>Steps\<close>

text \<open>
  The current thread calls a routine, or carries on with the one it is in. Interrupts are off inside the routines, so these are the points
  where control can pass to another thread.
\<close>

datatype sync_call =
    Call_P nat | Call_V nat | Call_acquire nat | Call_release nat | Call_wait nat nat | Call_signal nat nat | Call_broadcast nat nat
  | Call_yield | Carry_on

fun sync_exec :: "kmalloc_fn \<Rightarrow> (int \<Rightarrow> bool) \<Rightarrow> sync_call \<Rightarrow> (sync, unit) prog" where
  "sync_exec kmalloc pid_destroy (Call_P sem) = P kmalloc pid_destroy sem"
| "sync_exec kmalloc pid_destroy (Call_V sem) = V kmalloc sem"
| "sync_exec kmalloc pid_destroy (Call_acquire lock) = lock_acquire kmalloc pid_destroy lock"
| "sync_exec kmalloc pid_destroy (Call_release lock) = lock_release kmalloc lock"
| "sync_exec kmalloc pid_destroy (Call_wait cv lock) = cv_wait kmalloc pid_destroy cv lock"
| "sync_exec kmalloc pid_destroy (Call_signal cv lock) = cv_signal kmalloc cv lock"
| "sync_exec kmalloc pid_destroy (Call_broadcast cv lock) = cv_broadcast kmalloc cv lock"
| "sync_exec kmalloc pid_destroy Call_yield = on_ts (thread_yield kmalloc pid_destroy [])"
| "sync_exec kmalloc pid_destroy Carry_on = resume_sync kmalloc pid_destroy"

abbreviation cur_of :: "sync \<Rightarrow> nat" where "cur_of s \<equiv> curthread (sy_ts s)"

definition may_call :: "sync_call \<Rightarrow> sync \<Rightarrow> bool" where
  "may_call c s \<longleftrightarrow> (c = Carry_on \<longleftrightarrow> sy_pc s (cur_of s) \<noteq> Idle)"

text \<open>What has been completed by a step of the current thread, as seen from outside.\<close>

datatype event = Down nat nat | Up nat nat | Acquired nat nat | Released nat nat

definition ended :: "sync \<Rightarrow> sync \<Rightarrow> event \<Rightarrow> event list" where
  "ended s t e = (if sy_pc t (cur_of s) = Idle then [e] else [])"

fun events :: "sync \<Rightarrow> sync_call \<Rightarrow> sync \<Rightarrow> event list" where
  "events s (Call_P sem) t = ended s t (Down (cur_of s) sem)"
| "events s (Call_V sem) t = [Up (cur_of s) sem]"
| "events s (Call_acquire lock) t = ended s t (Acquired (cur_of s) lock)"
| "events s (Call_release lock) t = [Released (cur_of s) lock]"
| "events s (Call_wait cv lock) t = [Released (cur_of s) lock]"
| "events s Carry_on t =
     (case sy_pc s (cur_of s) of Idle \<Rightarrow> []
      | In_P sem _ \<Rightarrow> ended s t (Down (cur_of s) sem)
      | In_acquire lock _ _ \<Rightarrow> ended s t (Acquired (cur_of s) lock)
      | In_wait _ lock _ \<Rightarrow> ended s t (Acquired (cur_of s) lock))"
| "events s _ t = []"

inductive sync_run :: "kmalloc_fn \<Rightarrow> (int \<Rightarrow> bool) \<Rightarrow> sync \<Rightarrow> event list \<Rightarrow> sync \<Rightarrow> bool" for kmalloc pid_destroy s where
  run_none: "sync_run kmalloc pid_destroy s [] s"
| run_step: "sync_run kmalloc pid_destroy s es t \<Longrightarrow> may_call c t \<Longrightarrow> sync_exec kmalloc pid_destroy c t = Done () u \<Longrightarrow>
    sync_run kmalloc pid_destroy s (es @ events t c u) u"

subsection \<open>No thread sleeps when it could go on\<close>

fun frame_addr :: "frame \<Rightarrow> nat" where
  "frame_addr Idle = 0"
| "frame_addr (In_P sem _) = sem"
| "frame_addr (In_acquire lock _ _) = lock"
| "frame_addr (In_wait cv _ _) = cv"

fun blocked :: "(nat \<Rightarrow> obj option) \<Rightarrow> frame \<Rightarrow> bool" where
  "blocked obj Idle = False"
| "blocked obj (In_P sem _) = (case obj sem of Some (Sem sm) \<Rightarrow> sem_count sm = 0 | _ \<Rightarrow> False)"
| "blocked obj (In_acquire lock _ _) = (case obj lock of Some (Lock lk) \<Rightarrow> holder lk \<noteq> 0 | _ \<Rightarrow> False)"
| "blocked obj (In_wait cv _ _) = True"

definition sync_inv :: "sync \<Rightarrow> bool" where
  "sync_inv s \<longleftrightarrow> ts_inv (sy_ts s) \<and> cur_of s \<noteq> 0 \<and> numthreads (sy_ts s) < int (q_size (runqueue (sy_ts s))) \<and>
     (\<forall>x \<in> set (asleep (sy_ts s)). waits_on (sy_ts s) (frame_addr (sy_pc s x)) x \<and> blocked (sy_obj s) (sy_pc s x))"

lemma on_ts_run [kprog]: "on_ts m s = (case m (sy_ts s) of Done x t \<Rightarrow> Done x (s\<lparr>sy_ts := t\<rparr>)
    | Fail e t \<Rightarrow> Fail e (s\<lparr>sy_ts := t\<rparr>) | Panic p \<Rightarrow> Panic p)"
  by (simp add: on_ts_def kzoom_def)

lemma get_sem_run [kprog]: "get_sem a s = (case sy_obj s a of Some (Sem x) \<Rightarrow> Done x s | _ \<Rightarrow> Panic ''bad pointer'')"
  by (simp add: get_sem_def kprog split: option.split obj.split)

lemma get_lock_run [kprog]: "get_lock a s = (case sy_obj s a of Some (Lock x) \<Rightarrow> Done x s | _ \<Rightarrow> Panic ''bad pointer'')"
  by (simp add: get_lock_def kprog split: option.split obj.split)

lemma put_obj_run [kprog]: "put_obj a x s = Done () (s\<lparr>sy_obj := (sy_obj s)(a \<mapsto> x)\<rparr>)"
  by (simp add: put_obj_def kprog)

lemma kfree_obj_run [kprog]: "kfree_obj a s = Done () (s\<lparr>sy_obj := (sy_obj s)(a := None)\<rparr>)"
  by (simp add: kfree_obj_def kprog)

lemma set_pc_run [kprog]: "set_pc fr s = Done () (s\<lparr>sy_pc := (sy_pc s)(cur_of s := fr)\<rparr>)"
  by (simp add: set_pc_def kprog)

text \<open>The level of interrupts does not matter to the invariant.\<close>

lemma ts_inv_spl: "ts_inv (s\<lparr>curspl := l\<rparr>) = ts_inv s"
  "asleep (s\<lparr>curspl := l\<rparr>) = asleep s" "ready (s\<lparr>curspl := l\<rparr>) = ready s" "waits_on (s\<lparr>curspl := l\<rparr>) = waits_on s"
proof -
  show v: "asleep (s\<lparr>curspl := l\<rparr>) = asleep s" "ready (s\<lparr>curspl := l\<rparr>) = ready s" "waits_on (s\<lparr>curspl := l\<rparr>) = waits_on s"
    by (simp_all add: views waits_on_def fun_eq_iff)
  have "dead (s\<lparr>curspl := l\<rparr>) = dead s" "running (s\<lparr>curspl := l\<rparr>) = running s" by (simp_all add: views)
  then show "ts_inv (s\<lparr>curspl := l\<rparr>) = ts_inv s" by (simp add: ts_inv_def ts_core_def all_threads_def v)
qed

text \<open>With no interrupt to come, sleeping either finds a ready thread or brings the system to a stop.\<close>

lemma thread_sleep_outcomes:
  assumes inv: "ts_inv s" and cur: "curthread s \<noteq> 0" and pid: "\<forall>p. pid_destroy p"
  shows "(\<exists>p. thread_sleep kmalloc pid_destroy [] addr s = Panic p) \<or>
    (\<exists>t nx rest. thread_sleep kmalloc pid_destroy [] addr s = Done () t \<and> ready s = nx # rest \<and> curspl s > 0 \<and> in_interrupt s = 0)"
proof (cases "in_interrupt s = 0 \<and> curspl s > 0")
  case False
  then show ?thesis
    by (auto simp: thread_sleep_def mi_switch_def kprog split: option.split)
next
  case True
  obtain c where c: "threads s (curthread s) = Some c" "thread_ok c"
    using ts_core_thread [of s "curthread s"] inv cur by (auto simp: ts_inv_def all_threads_def running_def)
  show ?thesis
  proof (cases "ready s")
    case Nil
    let ?s = "s\<lparr>threads := (threads s)(curthread s \<mapsto> c\<lparr>t_sleepaddr := addr, t_resume := Slept\<rparr>), curthread := 0\<rparr>"
    have "q_empty (runqueue s)" using inv Nil q_empty_correct [of "runqueue s"] by (simp add: ts_inv_def ts_core_def ready_def)
    then have "\<exists>p. thread_sleep kmalloc pid_destroy [] addr s = Panic p"
      using True c cur
      by (auto simp: thread_sleep_def mi_switch_def check_stack_def thread_ok_def kprog scheduler.simps split: outcome.split)
    then show ?thesis by simp
  next
    case (Cons nx rest)
    with thread_sleep_run [OF inv refl cur pid, of nx rest kmalloc "[]" addr] True show ?thesis by auto
  qed
qed

lemma sync_cur_awake: "sync_inv s \<Longrightarrow> cur_of s \<notin> set (asleep (sy_ts s))"
  by (auto simp: sync_inv_def ts_inv_def ts_core_def all_threads_def running_def)

lemma sync_inv_spl: "sync_inv (s\<lparr>sy_ts := (sy_ts s)\<lparr>curspl := l\<rparr>\<rparr>) = sync_inv s"
  by (simp add: sync_inv_def ts_inv_spl)

lemma sync_inv_pc: "sync_inv s \<Longrightarrow> sync_inv (s\<lparr>sy_pc := (sy_pc s)(cur_of s := fr)\<rparr>)"
  using sync_cur_awake [of s] by (auto simp: sync_inv_def)

lemma sync_inv_obj:
  "sync_inv s \<Longrightarrow> (\<And>fr. blocked (sy_obj s) fr \<Longrightarrow> blocked ((sy_obj s)(a \<mapsto> x)) fr) \<Longrightarrow> sync_inv (s\<lparr>sy_obj := (sy_obj s)(a \<mapsto> x)\<rparr>)"
  by (simp add: sync_inv_def)

lemma sleep_keeps:
  assumes inv: "sync_inv s" and pid: "\<forall>p. pid_destroy p" and fr: "frame_addr fr = addr" "blocked (sy_obj s) fr"
    and run: "thread_sleep kmalloc pid_destroy [] addr (sy_ts s) = Done () t"
  shows "sync_inv (s\<lparr>sy_pc := (sy_pc s)(cur_of s := fr), sy_ts := t\<rparr>)"
proof -
  have i: "ts_inv (sy_ts s)" "cur_of s \<noteq> 0" using inv by (simp_all add: sync_inv_def)
  obtain nx rest where r: "ready (sy_ts s) = nx # rest" "curspl (sy_ts s) > 0" "in_interrupt (sy_ts s) = 0"
    using thread_sleep_outcomes [OF i pid, of kmalloc addr] run by auto
  have t: "ts_inv t" "curthread t = nx" "asleep t = asleep (sy_ts s) @ [cur_of s]" "places t = places (sy_ts s)" "numthreads t = numthreads (sy_ts s)"
      "\<forall>x \<in> set (asleep t). t_sleepaddr (the (threads t x)) = (if x = cur_of s then addr else t_sleepaddr (the (threads (sy_ts s) x)))"
    using thread_sleep_run [OF i(1) refl i(2) pid r(2,3,1), of kmalloc "[]" addr] run by auto
  have "nx \<noteq> 0" using i(1) r(1) by (auto simp: ts_inv_def ts_core_def all_threads_def)
  then show ?thesis
    using inv t fr sync_cur_awake [OF inv] by (auto simp: sync_inv_def waits_on_def places_def)
qed

definition inv_except :: "nat \<Rightarrow> sync \<Rightarrow> bool" where
  "inv_except a s \<longleftrightarrow> ts_inv (sy_ts s) \<and> cur_of s \<noteq> 0 \<and> numthreads (sy_ts s) < int (q_size (runqueue (sy_ts s))) \<and>
     (\<forall>x \<in> set (asleep (sy_ts s)). waits_on (sy_ts s) (frame_addr (sy_pc s x)) x \<and> (frame_addr (sy_pc s x) \<noteq> a \<longrightarrow> blocked (sy_obj s) (sy_pc s x)))"

lemma wakeup_keeps:
  assumes inv: "inv_except a s" and spl: "curspl (sy_ts s) > 0"
  shows "\<exists>t. thread_wakeup kmalloc a (sy_ts s) = Done () t \<and> sync_inv (s\<lparr>sy_ts := t\<rparr>) \<and> curthread t = cur_of s"
proof -
  have i: "ts_inv (sy_ts s)" "cur_of s \<noteq> 0" using inv by (simp_all add: inv_except_def)
  obtain t where t: "thread_wakeup kmalloc a (sy_ts s) = Done () t" "ts_inv t"
      "moved (sy_ts s) (filter (\<lambda>x. \<not> waits_on (sy_ts s) a x) (asleep (sy_ts s))) (ready (sy_ts s) @ filter (waits_on (sy_ts s) a) (asleep (sy_ts s))) t"
    using thread_wakeup_run [OF i spl, of kmalloc a] by blast
  have "numthreads t = numthreads (sy_ts s)" "curthread t = cur_of s" "q_size (runqueue t) = q_size (runqueue (sy_ts s))"
    using t(3) by (simp_all add: moved_def ts_same_def places_def)
  with t(1,2) moved_views [OF t(3)] inv show ?thesis by (auto simp: sync_inv_def inv_except_def)
qed

lemma inv_exceptI: "sync_inv s \<Longrightarrow> inv_except a s"
  by (auto simp: sync_inv_def inv_except_def)

lemma wakeone_keeps:
  assumes inv: "sync_inv s" and spl: "curspl (sy_ts s) > 0"
  shows "\<exists>t. thread_wakeone kmalloc a (sy_ts s) = Done () t \<and> sync_inv (s\<lparr>sy_ts := t\<rparr>) \<and> curthread t = cur_of s"
proof -
  have i: "ts_inv (sy_ts s)" "cur_of s \<noteq> 0" using inv by (simp_all add: sync_inv_def)
  obtain t where t: "thread_wakeone kmalloc a (sy_ts s) = Done () t" "ts_inv t"
      "case filter (waits_on (sy_ts s) a) (asleep (sy_ts s)) of [] \<Rightarrow> t = sy_ts s
       | x # _ \<Rightarrow> moved (sy_ts s) (remove1 x (asleep (sy_ts s))) (ready (sy_ts s) @ [x]) t"
    using thread_wakeone_run [OF i spl, of kmalloc a] by blast
  show ?thesis
  proof (cases "filter (waits_on (sy_ts s) a) (asleep (sy_ts s))")
    case Nil
    then show ?thesis using t inv by simp
  next
    case (Cons x xs)
    then have m: "moved (sy_ts s) (remove1 x (asleep (sy_ts s))) (ready (sy_ts s) @ [x]) t" using t(3) by simp
    have "numthreads t = numthreads (sy_ts s)" "curthread t = cur_of s" "q_size (runqueue t) = q_size (runqueue (sy_ts s))"
      using m by (simp_all add: moved_def ts_same_def places_def)
    with t(1,2) moved_views [OF m] inv set_remove1_subset [of x "asleep (sy_ts s)"] show ?thesis by (auto simp: sync_inv_def)
  qed
qed

lemma yield_keeps:
  assumes inv: "sync_inv s" and pid: "\<forall>p. pid_destroy p"
  shows "\<exists>t. thread_yield kmalloc pid_destroy [] (sy_ts s) = Done () t \<and> sync_inv (s\<lparr>sy_ts := t\<rparr>)"
proof -
  let ?ts = "sy_ts s"
  obtain nx rest where nx: "ready ?ts @ [curthread ?ts] = nx # rest" by (cases "ready ?ts @ [curthread ?ts]") simp_all
  obtain t where t: "thread_yield kmalloc pid_destroy [] ?ts = Done () t" "ts_inv t" "curthread t = nx" "asleep t = asleep ?ts" "places t = places ?ts"
      "numthreads t = numthreads ?ts" "\<forall>x \<in> set (asleep ?ts). t_sleepaddr (the (threads t x)) = t_sleepaddr (the (threads ?ts x))"
    using thread_yield_run [OF _ refl _ pid _ nx, of kmalloc "[]"] inv by (auto simp: sync_inv_def)
  have "nx \<in> set (ready ?ts @ [curthread ?ts])" unfolding nx by simp
  then have "nx \<noteq> 0" using inv by (auto simp: sync_inv_def ts_inv_def ts_core_def all_threads_def)
  then show ?thesis using t inv by (auto simp: sync_inv_def waits_on_def places_def)
qed

subsection \<open>Atomic objects\<close>

text \<open>What the routines promise, as operations that happen at once; \<open>None\<close> when the operation is not possible in that state.\<close>

fun atomic :: "event \<Rightarrow> (nat \<Rightarrow> obj option) \<Rightarrow> (nat \<Rightarrow> obj option) option" where
  "atomic (Down x a) obj = (case obj a of Some (Sem sm) \<Rightarrow>
       if sem_count sm > 0 then Some (obj(a \<mapsto> Sem (sm\<lparr>sem_count := sem_count sm - 1\<rparr>))) else None | _ \<Rightarrow> None)"
| "atomic (Up x a) obj = (case obj a of Some (Sem sm) \<Rightarrow> Some (obj(a \<mapsto> Sem (sm\<lparr>sem_count := sem_count sm + 1\<rparr>))) | _ \<Rightarrow> None)"
| "atomic (Acquired x a) obj = (case obj a of Some (Lock lk) \<Rightarrow>
       if holder lk = 0 then Some (obj(a \<mapsto> Lock (lk\<lparr>holder := x\<rparr>))) else None | _ \<Rightarrow> None)"
| "atomic (Released x a) obj = (case obj a of Some (Lock lk) \<Rightarrow>
       if holder lk = x then Some (obj(a \<mapsto> Lock (lk\<lparr>holder := 0\<rparr>))) else None | _ \<Rightarrow> None)"

fun atomics :: "event list \<Rightarrow> (nat \<Rightarrow> obj option) \<Rightarrow> (nat \<Rightarrow> obj option) option" where
  "atomics [] obj = Some obj"
| "atomics (e # es) obj = Option.bind (atomic e obj) (atomics es)"

lemma atomics_append: "atomics (es @ fs) obj = Option.bind (atomics es obj) (atomics fs)"
  by (induction es arbitrary: obj) (auto simp: bind_eq_Some_conv split: Option.bind_split)

definition sems_ok :: "(nat \<Rightarrow> obj option) \<Rightarrow> bool" where
  "sems_ok obj \<longleftrightarrow> (\<forall>a sm. obj a = Some (Sem sm) \<longrightarrow> 0 \<le> sem_count sm \<and> sem_count sm < 2 ^ 31)"

lemma P_loop_step:
  assumes inv: "sync_inv s" and pid: "\<forall>p. pid_destroy p" and run: "P_loop kmalloc pid_destroy sem spl s = Done () t"
  shows "sync_inv t" "atomics (ended s t (Down (cur_of s) sem)) (sy_obj s) = Some (sy_obj t)"
proof -
  obtain sm where sm: "sy_obj s sem = Some (Sem sm)"
    using run by (auto simp: P_loop_def kprog split: option.splits obj.splits)
  have "sync_inv t \<and> atomics (ended s t (Down (cur_of s) sem)) (sy_obj s) = Some (sy_obj t)"
  proof (cases "sem_count sm = 0")
    case True
    obtain ts where ts: "thread_sleep kmalloc pid_destroy [] sem (sy_ts s) = Done () ts"
        "t = s\<lparr>sy_pc := (sy_pc s)(cur_of s := In_P sem spl), sy_ts := ts\<rparr>"
      using run sm True by (auto simp: P_loop_def kprog split: outcome.splits)
    have "sync_inv t" unfolding ts(2) by (rule sleep_keeps [OF inv pid _ _ ts(1)]) (simp_all add: sm True)
    then show ?thesis using ts(2) by (simp add: ended_def)
  next
    case False
    let ?o = "(sy_obj s)(sem \<mapsto> Sem (sm\<lparr>sem_count := sem_count sm - 1\<rparr>))"
    have pos: "sem_count sm > 0" and t: "t = s\<lparr>sy_obj := ?o, sy_pc := (sy_pc s)(cur_of s := Idle), sy_ts := (sy_ts s)\<lparr>curspl := spl\<rparr>\<rparr>"
      using run sm False by (auto simp: P_loop_def kprog split: if_splits)
    have "blocked ?o fr" if "blocked (sy_obj s) fr" for fr using that sm False by (cases fr) (auto split: option.splits obj.splits)
    then have "sync_inv (s\<lparr>sy_obj := ?o\<rparr>)" using sync_inv_obj [OF inv] by blast
    from sync_inv_pc [OF this, of Idle] have "sync_inv t"
      using sync_inv_spl [of spl "s\<lparr>sy_obj := ?o, sy_pc := (sy_pc s)(cur_of s := Idle)\<rparr>"] by (simp add: t)
    then show ?thesis using pos sm by (simp add: t ended_def)
  qed
  then show "sync_inv t" "atomics (ended s t (Down (cur_of s) sem)) (sy_obj s) = Some (sy_obj t)" by simp_all
qed

lemma acquire_loop_step:
  assumes inv: "sync_inv s" and pid: "\<forall>p. pid_destroy p" and run: "acquire_loop kmalloc pid_destroy lock spl outer s = Done () t"
  shows "sync_inv t" "atomics (ended s t (Acquired (cur_of s) lock)) (sy_obj s) = Some (sy_obj t)"
proof -
  obtain lk where lk: "sy_obj s lock = Some (Lock lk)"
    using run by (auto simp: acquire_loop_def kprog split: option.splits obj.splits)
  have "sync_inv t \<and> atomics (ended s t (Acquired (cur_of s) lock)) (sy_obj s) = Some (sy_obj t)"
  proof (cases "holder lk = 0")
    case False
    obtain ts where ts: "thread_sleep kmalloc pid_destroy [] lock (sy_ts s) = Done () ts"
        "t = s\<lparr>sy_pc := (sy_pc s)(cur_of s := In_acquire lock spl outer), sy_ts := ts\<rparr>"
      using run lk False by (auto simp: acquire_loop_def kprog split: outcome.splits)
    have "sync_inv t" unfolding ts(2) by (rule sleep_keeps [OF inv pid _ _ ts(1)]) (use lk False in simp_all)
    then show ?thesis using ts(2) by (simp add: ended_def)
  next
    case True
    let ?o = "(sy_obj s)(lock \<mapsto> Lock (lk\<lparr>holder := cur_of s\<rparr>))"
    let ?l = "case outer of None \<Rightarrow> spl | Some spl' \<Rightarrow> spl'"
    have t: "t = s\<lparr>sy_obj := ?o, sy_pc := (sy_pc s)(cur_of s := Idle), sy_ts := (sy_ts s)\<lparr>curspl := ?l\<rparr>\<rparr>"
      using run lk True by (cases outer) (auto simp: acquire_loop_def kprog)
    have "blocked ?o fr" if "blocked (sy_obj s) fr" for fr
      using that lk inv by (cases fr) (auto simp: sync_inv_def split: option.splits obj.splits)
    then have "sync_inv (s\<lparr>sy_obj := ?o\<rparr>)" using sync_inv_obj [OF inv] by blast
    from sync_inv_pc [OF this, of Idle] have "sync_inv t"
      using sync_inv_spl [of ?l "s\<lparr>sy_obj := ?o, sy_pc := (sy_pc s)(cur_of s := Idle)\<rparr>"] by (simp add: t)
    then show ?thesis using True lk by (simp add: t ended_def)
  qed
  then show "sync_inv t" "atomics (ended s t (Acquired (cur_of s) lock)) (sy_obj s) = Some (sy_obj t)" by simp_all
qed

lemma lock_do_i_hold_run:
  "lock_do_i_hold lock s = (if lock = 0 then Panic ''assertion failed''
     else case sy_obj s lock of Some (Lock lk) \<Rightarrow> Done (holder lk = cur_of s) s | _ \<Rightarrow> Panic ''bad pointer'')"
  by (simp add: lock_do_i_hold_def kprog split: option.split obj.split)

lemma V_step:
  assumes inv: "sync_inv s" and sems: "sems_ok (sy_obj s)" and run: "V kmalloc sem s = Done () t"
  shows "sync_inv t \<and> atomics [Up (cur_of s) sem] (sy_obj s) = Some (sy_obj t) \<and> sems_ok (sy_obj t)"
proof -
  obtain sm where sm: "sy_obj s sem = Some (Sem sm)"
    using run by (auto simp: V_def kprog split: option.splits obj.splits if_splits)
  define o' where "o' = (sy_obj s)(sem \<mapsto> Sem (sm\<lparr>sem_count := wrap32 (sem_count sm + 1)\<rparr>))"
  define s1 where "s1 = s\<lparr>sy_ts := (sy_ts s)\<lparr>curspl := SPL_HIGH\<rparr>, sy_obj := o'\<rparr>"
  have "blocked o' fr" if "blocked (sy_obj s) fr" "frame_addr fr \<noteq> sem" for fr
    using that by (cases fr) (auto simp: o'_def split: option.splits obj.splits)
  then have "inv_except sem s1" using inv by (auto simp: inv_except_def sync_inv_def s1_def ts_inv_spl)
  then obtain ts where ts: "thread_wakeup kmalloc sem (sy_ts s1) = Done () ts" "sync_inv (s1\<lparr>sy_ts := ts\<rparr>)"
    using wakeup_keeps [of sem s1 kmalloc] by (auto simp: s1_def)
  have r: "wrap32 (sem_count sm + 1) > 0" "t = s1\<lparr>sy_ts := ts\<lparr>curspl := curspl (sy_ts s)\<rparr>\<rparr>"
    using run sm ts(1) by (auto simp: V_def kprog Let_def s1_def o'_def split: if_splits)
  have c: "0 \<le> sem_count sm" "sem_count sm < 2 ^ 31" using sems sm by (auto simp: sems_ok_def)
  then have w: "wrap32 (sem_count sm + 1) = sem_count sm + 1" using r(1) by (cases "sem_count sm = 2147483647") (simp_all add: wrap32_def)
  have "sync_inv t" using ts(2) sync_inv_spl [of "curspl (sy_ts s)" "s1\<lparr>sy_ts := ts\<rparr>"] by (simp add: r(2))
  moreover have "sems_ok (sy_obj t)" using sems c w r(1) by (auto simp: sems_ok_def r(2) s1_def o'_def wrap32_def)
  ultimately show ?thesis using sm w by (simp add: r(2) s1_def o'_def)
qed

lemma lock_release_step:
  assumes inv: "sync_inv s" and run: "lock_release kmalloc lock s = Done () t"
  shows "sync_inv t" "atomics [Released (cur_of s) lock] (sy_obj s) = Some (sy_obj t)" "cur_of t = cur_of s" "sy_pc t = sy_pc s"
    "curspl (sy_ts t) = curspl (sy_ts s)"
proof -
  obtain lk where lk: "sy_obj s lock = Some (Lock lk)" "holder lk = cur_of s"
    using run by (auto simp: lock_release_def lock_do_i_hold_run kprog split: option.splits obj.splits if_splits)
  define o' where "o' = (sy_obj s)(lock \<mapsto> Lock (lk\<lparr>holder := 0\<rparr>))"
  define s1 where "s1 = s\<lparr>sy_ts := (sy_ts s)\<lparr>curspl := SPL_HIGH\<rparr>, sy_obj := o'\<rparr>"
  have "blocked o' fr" if "blocked (sy_obj s) fr" "frame_addr fr \<noteq> lock" for fr
    using that by (cases fr) (auto simp: o'_def split: option.splits obj.splits)
  then have "inv_except lock s1" using inv by (auto simp: inv_except_def sync_inv_def s1_def ts_inv_spl)
  then obtain ts where ts: "thread_wakeup kmalloc lock (sy_ts s1) = Done () ts" "sync_inv (s1\<lparr>sy_ts := ts\<rparr>)" "curthread ts = cur_of s"
    using wakeup_keeps [of lock s1 kmalloc] by (auto simp: s1_def)
  have t: "t = s1\<lparr>sy_ts := ts\<lparr>curspl := curspl (sy_ts s)\<rparr>\<rparr>"
    using run lk ts(1) by (auto simp: lock_release_def lock_do_i_hold_run kprog s1_def o'_def split: if_splits)
  show "sync_inv t" using ts(2) sync_inv_spl [of "curspl (sy_ts s)" "s1\<lparr>sy_ts := ts\<rparr>"] by (simp add: t)
  show "atomics [Released (cur_of s) lock] (sy_obj s) = Some (sy_obj t)" "cur_of t = cur_of s" "sy_pc t = sy_pc s"
    "curspl (sy_ts t) = curspl (sy_ts s)"
    using lk ts(3) by (simp_all add: t s1_def o'_def)
qed

lemma signal_step:
  assumes inv: "sync_inv s" and run: "cv_signal kmalloc cv lock s = Done () t \<or> cv_broadcast kmalloc cv lock s = Done () t"
  shows "sync_inv t \<and> sy_obj t = sy_obj s"
proof -
  define s1 where "s1 = s\<lparr>sy_ts := (sy_ts s)\<lparr>curspl := SPL_HIGH\<rparr>\<rparr>"
  have "sync_inv s1" using inv by (simp add: s1_def sync_inv_spl)
  then obtain ts us where ts: "thread_wakeone kmalloc cv (sy_ts s1) = Done () ts" "sync_inv (s1\<lparr>sy_ts := ts\<rparr>)"
      and us: "thread_wakeup kmalloc cv (sy_ts s1) = Done () us" "sync_inv (s1\<lparr>sy_ts := us\<rparr>)"
    using wakeone_keeps [of s1 kmalloc cv] wakeup_keeps [of cv s1 kmalloc] inv_exceptI by (fastforce simp: s1_def)
  have "t = s1\<lparr>sy_ts := ts\<lparr>curspl := curspl (sy_ts s)\<rparr>\<rparr> \<or> t = s1\<lparr>sy_ts := us\<lparr>curspl := curspl (sy_ts s)\<rparr>\<rparr>"
    using run ts(1) us(1) by (auto simp: cv_signal_def cv_broadcast_def kprog s1_def split: if_splits)
  moreover have "sync_inv (s1\<lparr>sy_ts := ts\<lparr>curspl := curspl (sy_ts s)\<rparr>\<rparr>)" "sync_inv (s1\<lparr>sy_ts := us\<lparr>curspl := curspl (sy_ts s)\<rparr>\<rparr>)"
    using ts(2) us(2) sync_inv_spl [of "curspl (sy_ts s)" "s1\<lparr>sy_ts := ts\<rparr>"] sync_inv_spl [of "curspl (sy_ts s)" "s1\<lparr>sy_ts := us\<rparr>"] by simp_all
  ultimately show ?thesis by (auto simp: s1_def)
qed

lemma cv_wait_step:
  assumes inv: "sync_inv s" and pid: "\<forall>p. pid_destroy p" and run: "cv_wait kmalloc pid_destroy cv lock s = Done () t"
  shows "sync_inv t \<and> atomics [Released (cur_of s) lock] (sy_obj s) = Some (sy_obj t)"
proof -
  define s1 where "s1 = s\<lparr>sy_ts := (sy_ts s)\<lparr>curspl := SPL_HIGH\<rparr>\<rparr>"
  have i1: "sync_inv s1" using inv by (simp add: s1_def sync_inv_spl)
  obtain u ts where u: "lock_release kmalloc lock s1 = Done () u"
      "thread_sleep kmalloc pid_destroy [] cv (sy_ts u) = Done () ts"
      "t = u\<lparr>sy_pc := (sy_pc u)(cur_of u := In_wait cv lock (curspl (sy_ts s))), sy_ts := ts\<rparr>"
    using run by (auto simp: cv_wait_def kprog s1_def split: if_splits outcome.splits)
  note r = lock_release_step [OF i1 u(1)]
  have "sync_inv t" unfolding u(3) by (rule sleep_keeps [OF r(1) pid _ _ u(2)]) simp_all
  then show ?thesis using r(2) by (simp add: u(3) s1_def)
qed

lemma lock_acquire_in_step:
  assumes inv: "sync_inv s" and pid: "\<forall>p. pid_destroy p" and run: "lock_acquire_in kmalloc pid_destroy lock outer s = Done () t"
  shows "sync_inv t \<and> atomics (ended s t (Acquired (cur_of s) lock)) (sy_obj s) = Some (sy_obj t)"
proof -
  define s1 where "s1 = s\<lparr>sy_ts := (sy_ts s)\<lparr>curspl := SPL_HIGH\<rparr>\<rparr>"
  have i1: "sync_inv s1" using inv by (simp add: s1_def sync_inv_spl)
  have "acquire_loop kmalloc pid_destroy lock (curspl (sy_ts s)) outer s1 = Done () t"
    using run by (auto simp: lock_acquire_in_def lock_do_i_hold_run kprog s1_def split: if_splits option.splits obj.splits)
  from acquire_loop_step [OF i1 pid this] show ?thesis by (simp add: ended_def s1_def)
qed

lemma P_step:
  assumes inv: "sync_inv s" and pid: "\<forall>p. pid_destroy p" and run: "P kmalloc pid_destroy sem s = Done () t"
  shows "sync_inv t \<and> atomics (ended s t (Down (cur_of s) sem)) (sy_obj s) = Some (sy_obj t)"
proof -
  define s1 where "s1 = s\<lparr>sy_ts := (sy_ts s)\<lparr>curspl := SPL_HIGH\<rparr>\<rparr>"
  have i1: "sync_inv s1" using inv by (simp add: s1_def sync_inv_spl)
  have "P_loop kmalloc pid_destroy sem (curspl (sy_ts s)) s1 = Done () t"
    using run by (auto simp: P_def kprog s1_def split: if_splits)
  from P_loop_step [OF i1 pid this] show ?thesis by (simp add: ended_def s1_def)
qed

lemma atomic_sems_ok: "atomic e obj = Some obj' \<Longrightarrow> sems_ok obj \<Longrightarrow> (\<And>x a. e \<noteq> Up x a) \<Longrightarrow> sems_ok obj'"
  by (cases e) (force simp: sems_ok_def split: option.splits obj.splits if_splits)+

lemma ended_sems_ok: "atomics (ended s t e) obj = Some obj' \<Longrightarrow> sems_ok obj \<Longrightarrow> (\<And>x a. e \<noteq> Up x a) \<Longrightarrow> sems_ok obj'"
  by (auto simp: ended_def bind_eq_Some_conv intro: atomic_sems_ok split: if_splits)

lemma sync_step_keeps:
  assumes inv: "sync_inv s" "sems_ok (sy_obj s)" and pid: "\<forall>p. pid_destroy p" and run: "sync_exec kmalloc pid_destroy c s = Done () t"
  shows "sync_inv t \<and> sems_ok (sy_obj t) \<and> atomics (events s c t) (sy_obj s) = Some (sy_obj t)"
proof (cases c)
  case (Call_V sem)
  then show ?thesis using V_step [OF inv] run by simp
next
  case Call_yield
  then show ?thesis using yield_keeps [OF inv(1) pid, of kmalloc] run inv(2) by (auto simp: kprog sems_ok_def)
next
  case (Call_signal cv lock)
  then show ?thesis using signal_step [OF inv(1), of kmalloc cv lock t] run inv(2) by (auto simp: sems_ok_def)
next
  case (Call_broadcast cv lock)
  then show ?thesis using signal_step [OF inv(1), of kmalloc cv lock t] run inv(2) by (auto simp: sems_ok_def)
next
  case (Call_P sem)
  then show ?thesis using P_step [OF inv(1) pid, of kmalloc sem t] run ended_sems_ok [OF _ inv(2)] by auto
next
  case (Call_acquire lock)
  then show ?thesis using lock_acquire_in_step [OF inv(1) pid, of kmalloc lock None t] run ended_sems_ok [OF _ inv(2)]
    by (auto simp: lock_acquire_def)
next
  case (Call_release lock)
  then show ?thesis using lock_release_step [OF inv(1), of kmalloc lock t] run atomic_sems_ok [OF _ inv(2), of "Released (cur_of s) lock"] by (simp add: bind_eq_Some_conv)
next
  case (Call_wait cv lock)
  then show ?thesis using cv_wait_step [OF inv(1) pid, of kmalloc cv lock t] run atomic_sems_ok [OF _ inv(2), of "Released (cur_of s) lock"] by (simp add: bind_eq_Some_conv)
next
  case Carry_on
  show ?thesis
  proof (cases "sy_pc s (cur_of s)")
    case Idle
    then show ?thesis using run Carry_on inv by (simp add: resume_sync_def kprog)
  next
    case (In_P sem spl)
    then show ?thesis using run Carry_on P_loop_step [OF inv(1) pid, of kmalloc sem spl t] ended_sems_ok [OF _ inv(2)] by (auto simp: resume_sync_def kprog)
  next
    case (In_acquire lock spl outer)
    then show ?thesis using run Carry_on acquire_loop_step [OF inv(1) pid, of kmalloc lock spl outer t] ended_sems_ok [OF _ inv(2)]
      by (auto simp: resume_sync_def kprog)
  next
    case (In_wait cv lock spl)
    then show ?thesis using run Carry_on lock_acquire_in_step [OF inv(1) pid, of kmalloc lock "Some spl" t] ended_sems_ok [OF _ inv(2)]
      by (auto simp: resume_sync_def kprog)
  qed
qed

subsection \<open>Properties\<close>

lemma sync_run_keeps:
  assumes "sync_run kmalloc pid_destroy s es t" and "sync_inv s" "sems_ok (sy_obj s)" and "\<forall>p. pid_destroy p"
  shows "sync_inv t \<and> sems_ok (sy_obj t) \<and> atomics es (sy_obj s) = Some (sy_obj t) \<and> (\<forall>x a. Acquired x a \<in> set es \<longrightarrow> x \<noteq> 0)"
  using assms
proof (induction rule: sync_run.induct)
  case (run_step es t c u)
  then have t: "sync_inv t" "sems_ok (sy_obj t)" "atomics es (sy_obj s) = Some (sy_obj t)" "\<forall>x a. Acquired x a \<in> set es \<longrightarrow> x \<noteq> 0" by blast+
  have u: "sync_inv u" "sems_ok (sy_obj u)" "atomics (events t c u) (sy_obj t) = Some (sy_obj u)"
    using sync_step_keeps [OF t(1,2) run_step.prems(3) run_step.hyps(3)] by blast+
  have "Acquired x a \<in> set (events t c u) \<Longrightarrow> x = cur_of t" for x a
    by (cases c; cases "sy_pc t (cur_of t)") (simp_all add: ended_def split: if_splits)
  moreover have "cur_of t \<noteq> 0" using t(1) by (simp add: sync_inv_def)
  ultimately show ?case using t u by (auto simp: atomics_append)
qed simp

text \<open>A lock that has a holder keeps it until that thread releases it.\<close>

lemma holder_stays:
  assumes "atomics es obj = Some obj'" and "obj l = Some (Lock lk)" and "holder lk = x" "x \<noteq> 0" and "Released x l \<notin> set es"
  shows "\<exists>lk'. obj' l = Some (Lock lk') \<and> holder lk' = x"
  using assms
proof (induction es arbitrary: obj lk)
  case (Cons e es)
  then obtain obj1 where o: "atomic e obj = Some obj1" "atomics es obj1 = Some obj'" by (auto simp: bind_eq_Some_conv)
  have "\<exists>lk1. obj1 l = Some (Lock lk1) \<and> holder lk1 = x"
    using o(1) Cons.prems(2-5) by (cases e) (auto split: option.splits obj.splits if_splits)
  with Cons.IH [OF o(2)] Cons.prems(4,5) show ?case by auto
qed simp

text \<open>A state to start from: as \<open>threads_sample\<close> with nobody asleep, a semaphore at 20, a lock at 21 and a condition variable at 22.\<close>

definition sync_sample :: sync where
  "sync_sample = \<lparr>sy_ts = threads_sample\<lparr>sleepers := \<lparr>arr_num = 0, arr_max = 4, arr_v = Some [None, None, None, None]\<rparr>, numthreads := 3\<rparr>,
     sy_obj = [20 \<mapsto> Sem \<lparr>sem_name = ''s'', sem_count = 0\<rparr>, 21 \<mapsto> Lock \<lparr>lock_name = ''l'', holder = 0\<rparr>, 22 \<mapsto> Cv ''c''], sy_pc = (\<lambda>_. Idle)\<rparr>"

lemma sync_sample_inv: "sync_inv sync_sample" "sems_ok (sy_obj sync_sample)"
proof -
  let ?ts = "sy_ts sync_sample"
  have v: "ready ?ts = [2, 3]" "asleep ?ts = []" "dead ?ts = []" "running ?ts = [1]"
    using threads_sample_inv(3,5) by (simp_all add: sync_sample_def views array_list_def) (simp add: threads_sample_def)
  have "ts_core threads_sample" using threads_sample_inv(1) by (simp add: ts_inv_def)
  then have "ts_core ?ts"
    using threads_sample_inv(2-5) unfolding ts_core_def all_threads_def v
    by (auto simp: sync_sample_def running_def array_ok_def array_list_def)
  then have "ts_inv ?ts" unfolding ts_inv_def v by (simp add: sync_sample_def threads_sample_def)
  then show "sync_inv sync_sample" by (simp add: sync_inv_def v) (simp add: sync_sample_def threads_sample_def)
  show "sems_ok (sy_obj sync_sample)" by (simp add: sems_ok_def sync_sample_def)
qed

text \<open>
  C28. Semaphores, locks and condition variables behave as atomic objects. Whatever routines the threads call, in whatever order they come to
  run, what the completed calls have done to the objects is what the same operations do one after the other, each at once: \<^verbatim>\<open>P\<close> has only gone
  through with a positive count, \<^verbatim>\<open>lock_acquire\<close> with a free lock, \<^verbatim>\<open>lock_release\<close> by the holder.
\<close>

theorem synch_refines_atomic:
  assumes "sync_run kmalloc pid_destroy s es t" and "sync_inv s" and "sems_ok (sy_obj s)" and "\<forall>p. pid_destroy p"
  shows "atomics es (sy_obj s) = Some (sy_obj t)"
  using sync_run_keeps [OF assms] by simp

definition sample_held :: "nat \<Rightarrow> sync" where
  "sample_held h = sync_sample\<lparr>sy_obj := (sy_obj sync_sample)(21 \<mapsto> Lock \<lparr>lock_name = ''l'', holder = h\<rparr>)\<rparr>"

lemma sample_held_steps:
  "sync_exec kmalloc pid_destroy (Call_acquire 21) (sample_held 0) = Done () (sample_held 1)"
  "sync_exec kmalloc pid_destroy (Call_release 21) (sample_held 1) = Done () (sample_held 0)"
  "may_call (Call_acquire 21) (sample_held 0)" "may_call (Call_release 21) (sample_held 1)" "sample_held 0 = sync_sample"
  "events (sample_held 0) (Call_acquire 21) (sample_held 1) = [Acquired 1 21]"
  "events (sample_held 1) (Call_release 21) (sample_held 0) = [Released 1 21]"
proof -
  have c: "cur_of (sample_held h) = 1" "sy_pc (sample_held h) = (\<lambda>_. Idle)" "sy_obj (sample_held h) 21 = Some (Lock \<lparr>lock_name = ''l'', holder = h\<rparr>)"
      "arr_num (sleepers (sy_ts (sample_held h))) = 0"
    and put: "(sample_held h)\<lparr>sy_obj := (sy_obj (sample_held h))(21 \<mapsto> Lock \<lparr>lock_name = ''l'', holder = k\<rparr>)\<rparr> = sample_held k" for h k
    by (simp_all add: sample_held_def sync_sample_def threads_sample_def)
  have pc: "(\<lambda>_. Idle)(Suc 0 := Idle) = (\<lambda>_. Idle)" by (simp add: fun_eq_iff)
  show "sync_exec kmalloc pid_destroy (Call_acquire 21) (sample_held 0) = Done () (sample_held 1)"
    using c put [of 0 1]
    by (simp add: lock_acquire_def lock_acquire_in_def lock_do_i_hold_run acquire_loop_def kprog pc) (simp add: sample_held_def sync_sample_def)
  show "sync_exec kmalloc pid_destroy (Call_release 21) (sample_held 1) = Done () (sample_held 0)"
    using c put [of 1 0] by (simp add: lock_release_def lock_do_i_hold_run kprog thread_wakeup_def array_getnum_def) (simp add: sample_held_def)
  show "may_call (Call_acquire 21) (sample_held 0)" "may_call (Call_release 21) (sample_held 1)" by (simp_all add: may_call_def c)
  show "sample_held 0 = sync_sample" by (simp add: sample_held_def sync_sample_def fun_upd_twist)
  show "events (sample_held 0) (Call_acquire 21) (sample_held 1) = [Acquired 1 21]"
    "events (sample_held 1) (Call_release 21) (sample_held 0) = [Released 1 21]" by (simp_all add: ended_def c)
qed

lemma sample_runs:
  "sync_run kmalloc pid_destroy sync_sample [Acquired 1 21] (sample_held 1)"
  "sync_run kmalloc pid_destroy sync_sample [Acquired 1 21, Released 1 21, Acquired 1 21] (sample_held 1)"
proof -
  note st = sample_held_steps(1) [of kmalloc pid_destroy] sample_held_steps(2) [of kmalloc pid_destroy] sample_held_steps(3-7)
  have 0: "sync_run kmalloc pid_destroy sync_sample [] (sample_held 0)" unfolding st(5) by (rule run_none)
  show 1: "sync_run kmalloc pid_destroy sync_sample [Acquired 1 21] (sample_held 1)" using run_step [OF 0 st(3,1)] st(6) by simp
  have 2: "sync_run kmalloc pid_destroy sync_sample [Acquired 1 21, Released 1 21] (sample_held 0)" using run_step [OF 1 st(4,2)] st(7) by simp
  show "sync_run kmalloc pid_destroy sync_sample [Acquired 1 21, Released 1 21, Acquired 1 21] (sample_held 1)" using run_step [OF 2 st(3,1)] st(6) by simp
qed

theorem synch_refines_atomic_witness:
  "\<exists>t. sync_run (\<lambda>_. False) (\<lambda>_. True) sync_sample [Acquired 1 21] t \<and> sync_inv sync_sample \<and> sems_ok (sy_obj sync_sample) \<and>
     atomics [Acquired 1 21] (sy_obj sync_sample) = Some (sy_obj t)"
  using sample_runs(1) [of "\<lambda>_. False" "\<lambda>_. True"] sync_sample_inv
    synch_refines_atomic [of "\<lambda>_. False" "\<lambda>_. True" sync_sample "[Acquired 1 21]"] by blast

text \<open>
  C29. No wakeup is lost. In every state that the threads can bring about, a thread asleep in \<^verbatim>\<open>P\<close> has a semaphore whose count is 0, and a thread
  asleep in \<^verbatim>\<open>lock_acquire\<close>, also when called from \<^verbatim>\<open>cv_wait\<close>, a lock that some thread holds: nobody sleeps who could go on.
\<close>

theorem no_lost_wakeup:
  assumes "sync_run kmalloc pid_destroy s es t" and "sync_inv s" and "sems_ok (sy_obj s)" and "\<forall>p. pid_destroy p" and "x \<in> set (asleep (sy_ts t))"
  shows "waits_on (sy_ts t) (frame_addr (sy_pc t x)) x \<and>
    (case sy_pc t x of Idle \<Rightarrow> False
     | In_P sem spl \<Rightarrow> \<exists>sm. sy_obj t sem = Some (Sem sm) \<and> sem_count sm = 0
     | In_acquire lock spl outer \<Rightarrow> \<exists>lk. sy_obj t lock = Some (Lock lk) \<and> holder lk \<noteq> 0
     | In_wait cv lock spl \<Rightarrow> True)"
  using sync_run_keeps [OF assms(1-4)] assms(5)
  by (cases "sy_pc t x") (force simp: sync_inv_def split: option.splits obj.splits)+

theorem no_lost_wakeup_witness:
  "\<exists>t. sync_run (\<lambda>_. False) (\<lambda>_. True) sync_sample [] t \<and> 1 \<in> set (asleep (sy_ts t)) \<and> sy_pc t 1 = In_P 20 15 \<and>
     (\<exists>sm. sy_obj t 20 = Some (Sem sm) \<and> sem_count sm = 0)"
proof -
  let ?k = "\<lambda>_::nat. False" and ?p = "\<lambda>_::int. True"
  let ?ts = "sy_ts sync_sample"
  let ?ts1 = "?ts\<lparr>curspl := SPL_HIGH\<rparr>"
  have c: "cur_of sync_sample = 1" "sy_pc sync_sample = (\<lambda>_. Idle)" "sy_obj sync_sample 20 = Some (Sem \<lparr>sem_name = ''s'', sem_count = 0\<rparr>)"
      "in_interrupt ?ts = 0" "curspl ?ts = 15" "ready ?ts = [2, 3]" "asleep ?ts = []"
    using threads_sample_inv(3) by (simp_all add: sync_sample_def views array_list_def) (simp_all add: threads_sample_def)
  have inv: "ts_inv ?ts1" using sync_sample_inv(1) by (simp add: ts_inv_spl sync_inv_def)
  obtain ts where ts: "thread_sleep ?k ?p [] 20 ?ts1 = Done () ts" "asleep ts = [1]"
    using thread_sleep_run [OF inv, of 1 ?p 2 "[3]" ?k "[]" 20] c by (auto simp: ts_inv_spl)
  let ?t = "sync_sample\<lparr>sy_pc := (sy_pc sync_sample)(1 := In_P 20 15), sy_ts := ts\<rparr>"
  have run: "sync_exec ?k ?p (Call_P 20) sync_sample = Done () ?t"
    using c ts(1) by (simp add: P_def P_loop_def kprog)
  have "sync_run ?k ?p sync_sample ([] @ events sync_sample (Call_P 20) ?t) ?t"
    by (rule sync_run.run_step [OF sync_run.run_none _ run]) (simp add: may_call_def c)
  then have r: "sync_run ?k ?p sync_sample [] ?t" by (simp add: ended_def c)
  have "1 \<in> set (asleep (sy_ts ?t))" "sy_pc ?t 1 = In_P 20 15" using ts(2) by simp_all
  then show ?thesis using no_lost_wakeup [OF r sync_sample_inv _ \<open>1 \<in> set (asleep (sy_ts ?t))\<close>] r by fastforce
qed

text \<open>
  C30. Mutual exclusion. Between two successful acquisitions of the same lock, the thread that acquired it first has released it
  (by \<^verbatim>\<open>lock_release\<close> or in \<^verbatim>\<open>cv_wait\<close>).
\<close>

theorem lock_mutual_exclusion:
  assumes run: "sync_run kmalloc pid_destroy s (es1 @ Acquired x l # es2 @ Acquired y l # es3) t"
    and inv: "sync_inv s" "sems_ok (sy_obj s)" and pid: "\<forall>p. pid_destroy p"
  shows "Released x l \<in> set es2"
proof (rule ccontr)
  assume no: "Released x l \<notin> set es2"
  have at: "atomics (es1 @ Acquired x l # es2 @ Acquired y l # es3) (sy_obj s) = Some (sy_obj t)" and x: "x \<noteq> 0"
    using sync_run_keeps [OF run inv pid] by auto
  obtain o1 o2 o3 o4 where o: "atomic (Acquired x l) o1 = Some o2" "atomics es2 o2 = Some o3" "atomic (Acquired y l) o3 = Some o4"
    using at by (auto simp: atomics_append bind_eq_Some_conv simp del: atomic.simps)
  obtain lk where "o2 l = Some (Lock lk)" "holder lk = x" using o(1) by (auto split: option.splits obj.splits if_splits)
  from holder_stays [OF o(2) this x no] obtain lk' where "o3 l = Some (Lock lk')" "holder lk' = x" by blast
  with o(3) x show False by simp
qed

theorem lock_mutual_exclusion_witness:
  "\<exists>t. sync_run (\<lambda>_. False) (\<lambda>_. True) sync_sample ([] @ Acquired 1 21 # [Released 1 21] @ Acquired 1 21 # []) t \<and>
     Released 1 21 \<in> set [Released 1 21]"
proof -
  have r: "sync_run (\<lambda>_. False) (\<lambda>_. True) sync_sample ([] @ Acquired 1 21 # [Released 1 21] @ Acquired 1 21 # []) (sample_held 1)"
    using sample_runs(2) by simp
  show ?thesis using r lock_mutual_exclusion [OF r sync_sample_inv] by blast
qed

end
