(* ===== verification/Uio.thy ===== *)
theory Uio
  imports Prelude
begin

text \<open>
  Moving data: the user/kernel copy routines of \<^verbatim>\<open>kern/lib/copyinout.c\<close> and the I/O
  descriptors of \<^verbatim>\<open>kern/userprog/uio.c\<close>.

  User memory is a function from addresses to bytes together with the addresses a load, or
  a store, reaches without a fatal fault; \<open>um_badfaultfunc\<close> says whether
  \<^verbatim>\<open>pcb_badfaultfunc\<close> is set, and a fatal fault while it is not brings the kernel down. A kernel
  buffer is the list of its bytes. A descriptor over a kernel buffer keeps the bytes it has
  passed and those it has still to pass.
\<close>

abbreviation (input) USERTOP :: nat where "USERTOP \<equiv> 0x80000000"

record user =
  um_mem :: "nat \<Rightarrow> byte"
  um_readable :: "nat \<Rightarrow> bool"
  um_writable :: "nat \<Rightarrow> bool"
  um_badfaultfunc :: bool

subsection \<open>User memory\<close>

text \<open>
  A fatal fault in kernel mode: with \<^verbatim>\<open>pcb_badfaultfunc\<close> set, \<^verbatim>\<open>copyfail\<close> jumps back to the
  \<^verbatim>\<open>setjmp\<close> of the copy routine.
\<close>

definition copyfail :: "(user, 'a) prog" where
  "copyfail = kbind (kget um_badfaultfunc) (\<lambda>armed. if armed then kfail EFAULT else kpanic ''fatal fault'')"

definition user_load :: "nat \<Rightarrow> (user, byte) prog" where
  "user_load a = kbind (kget (\<lambda>u. u)) (\<lambda>u. if um_readable u a then kret (um_mem u a) else copyfail)"

definition user_store :: "nat \<Rightarrow> byte \<Rightarrow> (user, unit) prog" where
  "user_store a b = kbind (kget (\<lambda>u. u)) (\<lambda>u.
     if um_writable u a then kmod (\<lambda>u. u\<lparr>um_mem := (um_mem u)(a := b)\<rparr>) else copyfail)"

fun memcpy_from_user :: "nat \<Rightarrow> nat \<Rightarrow> (user, byte list) prog" where
  "memcpy_from_user a 0 = kret []"
| "memcpy_from_user a (Suc n) =
     kbind (user_load a) (\<lambda>b. kbind (memcpy_from_user (Suc a) n) (\<lambda>bs. kret (b # bs)))"

fun memcpy_to_user :: "nat \<Rightarrow> byte list \<Rightarrow> (user, unit) prog" where
  "memcpy_to_user a [] = kret ()"
| "memcpy_to_user a (b # bs) = kthen (user_store a b) (memcpy_to_user (Suc a) bs)"

text \<open>\<open>copycheck\<close> returns \<^verbatim>\<open>stoplen\<close>; the address arithmetic is modulo \<open>2 ^ 32\<close>.\<close>

definition copycheck :: "nat \<Rightarrow> nat \<Rightarrow> ('s, nat) prog" where
  "copycheck userptr len =
     (let bot = userptr; top = (bot + len + 2 ^ 32 - 1) mod 2 ^ 32 in
      if top < bot then kfail EFAULT
      else if bot \<ge> USERTOP then kfail EFAULT
      else if top \<ge> USERTOP then kret (USERTOP - bot)
      else kret len)"

text \<open>
  What every copy routine does around its copying loop: set \<^verbatim>\<open>pcb_badfaultfunc\<close>, run it, and
  clear the field again, on the \<^verbatim>\<open>setjmp\<close> path too.
\<close>

definition with_copyfail :: "(user, 'a) prog \<Rightarrow> (user, 'a) prog" where
  "with_copyfail copy =
     kthen (kmod (\<lambda>u. u\<lparr>um_badfaultfunc := True\<rparr>))
     (kbind (kcatch copy) (\<lambda>result.
      kthen (kmod (\<lambda>u. u\<lparr>um_badfaultfunc := False\<rparr>))
      (case result of Inl e \<Rightarrow> kfail e | Inr x \<Rightarrow> kret x)))"

definition copyin :: "nat \<Rightarrow> nat \<Rightarrow> (user, byte list) prog" where
  "copyin usersrc len =
     kbind (copycheck usersrc len) (\<lambda>stoplen.
     if stoplen \<noteq> len then kfail EFAULT
     else with_copyfail (memcpy_from_user usersrc len))"

definition copyout :: "byte list \<Rightarrow> nat \<Rightarrow> (user, unit) prog" where
  "copyout src userdest =
     kbind (copycheck userdest (length src)) (\<lambda>stoplen.
     if stoplen \<noteq> length src then kfail EFAULT
     else with_copyfail (memcpy_to_user userdest src))"

text \<open>
  \<open>copystr\<close> reads \<^verbatim>\<open>src[i]\<close> with \<open>rd\<close> and writes \<^verbatim>\<open>dest[i]\<close> with \<open>wr\<close>; it returns the bytes copied,
  whose number is \<^verbatim>\<open>*gotlen\<close>.
\<close>

function copystr :: "(nat \<Rightarrow> (user, byte) prog) \<Rightarrow> (nat \<Rightarrow> byte \<Rightarrow> (user, unit) prog) \<Rightarrow> nat \<Rightarrow> nat
    \<Rightarrow> nat \<Rightarrow> (user, byte list) prog" where
  "copystr rd wr maxlen stoplen i =
     (if i < maxlen \<and> i < stoplen
      then kbind (rd i) (\<lambda>c.
           kthen (wr i c)
           (if c = 0 then kret [c]
            else kbind (copystr rd wr maxlen stoplen (Suc i)) (\<lambda>cs. kret (c # cs))))
      else if stoplen < maxlen then kfail EFAULT else kfail ENAMETOOLONG)"
  by pat_completeness auto
termination
  by (relation "measure (\<lambda>(rd, wr, maxlen, stoplen, i). maxlen - i)") auto

definition copyinstr :: "nat \<Rightarrow> nat \<Rightarrow> (user, byte list) prog" where
  "copyinstr usersrc len =
     kbind (copycheck usersrc len) (\<lambda>stoplen.
     with_copyfail (copystr (\<lambda>i. user_load (usersrc + i)) (\<lambda>i c. kret ()) len stoplen 0))"

definition copyoutstr :: "byte list \<Rightarrow> nat \<Rightarrow> nat \<Rightarrow> (user, byte list) prog" where
  "copyoutstr src userdest len =
     kbind (copycheck userdest len) (\<lambda>stoplen.
     with_copyfail (copystr (knth src) (\<lambda>i c. user_store (userdest + i) c) len stoplen 0))"

declare copystr.simps [simp del]

subsection \<open>The copy routines\<close>

lemma copycheck_run:
  assumes "p < 2 ^ 32" and "0 < n" and "n < 2 ^ 32"
  shows "copycheck p n s =
    (if p + n \<le> USERTOP then Done n s
     else if p < USERTOP \<and> p + n \<le> 2 ^ 32 then Done (USERTOP - p) s
     else Fail EFAULT s)"
proof (cases "p + n \<le> 2 ^ 32")
  case True
  then have "(p + n + 2 ^ 32 - 1) mod 2 ^ 32 = p + n - 1"
    using assms by (metis Nat.add_diff_assoc2 add_gr_0 diff_less mod_add_self2 mod_less
        less_one not_less order_less_le_trans zero_less_one Suc_leI One_nat_def)
  with True assms show ?thesis by (auto simp: copycheck_def kprog Let_def)
next
  case False
  then have "p + n + 2 ^ 32 - 1 = (p + n - 1 - 2 ^ 32) + 2 * 2 ^ 32" by simp
  then have "(p + n + 2 ^ 32 - 1) mod 2 ^ 32 = (p + n - 1 - 2 ^ 32) mod 2 ^ 32"
    by (simp only: mod_mult_self1 mult.commute)
  then have "(p + n + 2 ^ 32 - 1) mod 2 ^ 32 = p + n - 1 - 2 ^ 32"
    using assms by simp
  with False assms show ?thesis by (auto simp: copycheck_def kprog Let_def)
qed

text \<open>The bytes of user memory from an address on, and storing bytes there.\<close>

definition user_bytes :: "user \<Rightarrow> nat \<Rightarrow> nat \<Rightarrow> byte list" where
  "user_bytes u a n = map (\<lambda>i. um_mem u (a + i)) [0..<n]"

definition mem_put :: "nat \<Rightarrow> byte list \<Rightarrow> (nat \<Rightarrow> byte) \<Rightarrow> nat \<Rightarrow> byte" where
  "mem_put a bs m = (\<lambda>x. if a \<le> x \<and> x < a + length bs then bs ! (x - a) else m x)"

definition user_put :: "nat \<Rightarrow> byte list \<Rightarrow> user \<Rightarrow> user" where
  "user_put a bs u = u\<lparr>um_mem := mem_put a bs (um_mem u)\<rparr>"

lemma user_bytes_Suc: "user_bytes u a (Suc n) = um_mem u a # user_bytes u (Suc a) n"
proof -
  have "[0..<Suc n] = 0 # map Suc [0..<n]" by (simp add: map_Suc_upt upt_conv_Cons del: upt_Suc)
  then show ?thesis by (simp add: user_bytes_def comp_def)
qed

lemma mem_put_Nil: "mem_put a [] m = m"
  by (rule ext) (auto simp: mem_put_def)

lemma mem_put_append: "mem_put (a + length xs) ys (mem_put a xs f) = mem_put a (xs @ ys) f"
  by (rule ext) (auto simp: mem_put_def nth_append)

lemma mem_put_Cons: "mem_put a (b # bs) m = mem_put (Suc a) bs (m(a := b))"
proof
  fix x show "mem_put a (b # bs) m x = mem_put (Suc a) bs (m(a := b)) x"
    by (cases "x = a") (auto simp: mem_put_def nth_Cons' Suc_diff_Suc)
qed

lemma user_put_Nil: "user_put a [] u = u"
  by (simp add: user_put_def mem_put_Nil)

lemma user_put_Cons:
  "user_put a (b # bs) u = user_put (Suc a) bs (u\<lparr>um_mem := (um_mem u)(a := b)\<rparr>)"
  by (simp add: user_put_def mem_put_Cons)

lemma user_put_fields [simp]:
  "um_readable (user_put a bs u) = um_readable u" "um_writable (user_put a bs u) = um_writable u"
  "um_badfaultfunc (user_put a bs u) = um_badfaultfunc u"
  by (simp_all add: user_put_def)

lemma user_bytes_put: "user_bytes (user_put a bs u) a (length bs) = bs"
  by (rule nth_equalityI) (simp_all add: user_bytes_def user_put_def mem_put_def)

lemma all_less_Suc: "(\<forall>i < Suc n. P (a + i)) \<longleftrightarrow> P a \<and> (\<forall>i < n. P (Suc a + i))"
  by (metis Suc_less_eq add_0_right add_Suc add_Suc_right less_Suc_eq_0_disj)

lemma memcpy_from_user_run:
  "memcpy_from_user a n u =
     (if \<forall>i < n. um_readable u (a + i) then Done (user_bytes u a n) u
      else if um_badfaultfunc u then Fail EFAULT u else Panic ''fatal fault'')"
proof (induction n arbitrary: a)
  case 0
  then show ?case by (simp add: kprog user_bytes_def)
next
  case (Suc n)
  show ?case
    by (simp only: all_less_Suc memcpy_from_user.simps)
       (simp add: kprog user_load_def copyfail_def Suc user_bytes_Suc)
qed

lemma memcpy_to_user_run:
  assumes "um_badfaultfunc u"
  shows "(\<forall>i < length bs. um_writable u (a + i)) \<and> memcpy_to_user a bs u = Done () (user_put a bs u) \<or>
         (\<exists>k < length bs. \<not> um_writable u (a + k) \<and>
            memcpy_to_user a bs u = Fail EFAULT (user_put a (take k bs) u))"
  using assms
proof (induction bs arbitrary: a u)
  case Nil
  then show ?case by (simp add: kprog user_put_Nil)
next
  case (Cons b bs)
  let ?u = "u\<lparr>um_mem := (um_mem u)(a := b)\<rparr>"
  show ?case
  proof (cases "um_writable u a")
    case False
    then have "memcpy_to_user a (b # bs) u = Fail EFAULT (user_put a (take 0 (b # bs)) u)"
      using Cons.prems by (simp add: kprog user_store_def copyfail_def user_put_Nil)
    with False show ?thesis by (intro disjI2 exI [of _ 0]) simp
  next
    case True
    then have step: "memcpy_to_user a (b # bs) u = memcpy_to_user (Suc a) bs ?u"
      by (simp add: kprog user_store_def)
    have "um_badfaultfunc ?u" using Cons.prems by simp
    from Cons.IH [OF this, of "Suc a"] show ?thesis
    proof (elim disjE exE conjE)
      assume "\<forall>i < length bs. um_writable ?u (Suc a + i)"
        and "memcpy_to_user (Suc a) bs ?u = Done () (user_put (Suc a) bs ?u)"
      then show ?thesis using True step
        by (intro disjI1) (simp add: all_less_Suc [of "length bs" "um_writable u" a] user_put_Cons)
    next
      fix k assume "k < length bs" "\<not> um_writable ?u (Suc a + k)"
        "memcpy_to_user (Suc a) bs ?u = Fail EFAULT (user_put (Suc a) (take k bs) ?u)"
      then show ?thesis using step
        by (intro disjI2 exI [of _ "Suc k"]) (simp add: user_put_Cons)
    qed
  qed
qed

lemma with_copyfail_run:
  "with_copyfail m u = (case m (u\<lparr>um_badfaultfunc := True\<rparr>) of
     Done x t \<Rightarrow> Done x (t\<lparr>um_badfaultfunc := False\<rparr>)
   | Fail e t \<Rightarrow> Fail e (t\<lparr>um_badfaultfunc := False\<rparr>)
   | Panic p \<Rightarrow> Panic p)"
  by (simp add: with_copyfail_def kprog split: outcome.split)

text \<open>A block of user memory a copy may touch: below \<^verbatim>\<open>USERTOP\<close>, not wrapping, not faulting.\<close>

definition user_range :: "(nat \<Rightarrow> bool) \<Rightarrow> nat \<Rightarrow> nat \<Rightarrow> bool" where
  "user_range ok a n \<longleftrightarrow> a + n \<le> USERTOP \<and> (\<forall>i < n. ok (a + i))"

lemma copyin_run:
  assumes "p < 2 ^ 32" and "0 < n" and "n < 2 ^ 32" and "\<not> um_badfaultfunc u"
  shows "copyin p n u = (if user_range (um_readable u) p n then Done (user_bytes u p n) u
                         else Fail EFAULT u)"
proof -
  have u: "u\<lparr>um_badfaultfunc := False\<rparr> = u" using assms(4) by (cases u) simp
  have b: "user_bytes (u\<lparr>um_badfaultfunc := True\<rparr>) p n = user_bytes u p n" by (simp add: user_bytes_def)
  show ?thesis
    using assms by (auto simp: copyin_def kprog copycheck_run with_copyfail_run memcpy_from_user_run
        user_range_def u b)
qed

lemma copyout_run:
  assumes "p < 2 ^ 32" and "0 < length bs" and "length bs < 2 ^ 32" and "\<not> um_badfaultfunc u"
  shows "user_range (um_writable u) p (length bs) \<and> copyout bs p u = Done () (user_put p bs u) \<or>
         \<not> user_range (um_writable u) p (length bs) \<and>
         (\<exists>k < length bs. copyout bs p u = Fail EFAULT (user_put p (take k bs) u))"
proof -
  have u: "(user_put p cs (u\<lparr>um_badfaultfunc := True\<rparr>))\<lparr>um_badfaultfunc := False\<rparr> = user_put p cs u" for cs
    using assms(4) by (cases u) (simp add: user_put_def)
  have refused: "copyout bs p u = Fail EFAULT (user_put p (take 0 bs) u)" if "\<not> p + length bs \<le> USERTOP"
    using that assms by (auto simp: copyout_def kprog copycheck_run user_put_Nil)
  show ?thesis
  proof (cases "p + length bs \<le> USERTOP")
    case False
    with refused assms(2) show ?thesis by (auto simp: user_range_def)
  next
    case True
    then have "copyout bs p u = with_copyfail (memcpy_to_user p bs) u"
      using assms by (simp add: copyout_def kprog copycheck_run)
    then show ?thesis
      using memcpy_to_user_run [of "u\<lparr>um_badfaultfunc := True\<rparr>" bs p] True
      by (auto simp: with_copyfail_run u user_range_def)
  qed
qed

text \<open>A length of zero is refused whatever the address.\<close>

lemma copyin_zero: "p < 2 ^ 32 \<Longrightarrow> copyin p 0 u = Fail EFAULT u"
proof (cases "p = 0")
  case False
  assume p: "p < 2 ^ 32"
  have "(p + 0 + 2 ^ 32 - 1) mod 2 ^ 32 = (p - 1 + 2 ^ 32) mod 2 ^ 32" using False by simp
  also have "\<dots> = p - 1" unfolding mod_add_self2 using p by simp
  finally show ?thesis using False by (simp add: copyin_def copycheck_def Let_def kprog)
qed (simp add: copyin_def copycheck_def Let_def kprog)

subsection \<open>Strings from user space\<close>

definition is_cstring :: "byte list \<Rightarrow> bool" where
  "is_cstring bs \<longleftrightarrow> bs \<noteq> [] \<and> last bs = 0 \<and> 0 \<notin> set (butlast bs)"

lemma is_cstring_Cons: "c \<noteq> 0 \<Longrightarrow> is_cstring cs \<Longrightarrow> is_cstring (c # cs)"
  by (auto simp: is_cstring_def)

lemma user_load_run:
  "user_load a u = (if um_readable u a then Done (um_mem u a) u
                    else if um_badfaultfunc u then Fail EFAULT u else Panic ''fatal fault'')"
  by (simp add: user_load_def copyfail_def kprog)

lemma copystr_user_run:
  assumes "um_badfaultfunc u"
  shows "case copystr (\<lambda>i. user_load (p + i)) (\<lambda>i c. kret ()) maxlen stoplen i u of
      Done bs t \<Rightarrow> t = u \<and> is_cstring bs \<and> bs = user_bytes u (p + i) (length bs) \<and>
                   i + length bs \<le> maxlen \<and> i + length bs \<le> stoplen
    | Fail e t \<Rightarrow> t = u \<and> (e = EFAULT \<or>
                   e = ENAMETOOLONG \<and> maxlen \<le> stoplen \<and>
                   (\<forall>j. i \<le> j \<and> j < maxlen \<longrightarrow> um_mem u (p + j) \<noteq> 0))
    | Panic m \<Rightarrow> False"
proof (induction "\<lambda>i. user_load (p + i)" "\<lambda>(i::nat) (c::byte). (kret () :: (user, unit) prog)"
    maxlen stoplen i rule: copystr.induct)
  case (1 maxlen stoplen i)
  note unfold = copystr.simps [of "\<lambda>i. user_load (p + i)" "\<lambda>i c. kret ()" maxlen stoplen i]
  let ?c = "um_mem u (p + i)"
  show ?case
  proof (cases "i < maxlen \<and> i < stoplen")
    case False
    then show ?thesis by (auto simp: unfold kprog)
  next
    case lt: True
    show ?thesis
    proof (cases "um_readable u (p + i) \<and> ?c \<noteq> 0")
      case False
      with lt assms show ?thesis
        by (auto simp: unfold kprog user_load_run is_cstring_def user_bytes_def)
    next
      case True
      with lt have run: "copystr (\<lambda>i. user_load (p + i)) (\<lambda>i c. kret ()) maxlen stoplen i u =
          kbind (copystr (\<lambda>i. user_load (p + i)) (\<lambda>i c. kret ()) maxlen stoplen (Suc i))
            (\<lambda>cs. kret (?c # cs)) u"
        by (simp add: unfold kprog user_load_run)
      from "1.hyps" [OF lt True [THEN conjunct2]] True show ?thesis
        unfolding run
        by (auto simp: kprog is_cstring_Cons user_bytes_Suc split: outcome.splits)
           (metis le_eq_less_or_eq less_eq_Suc_le)
    qed
  qed
qed


definition user_sample :: user where
  "user_sample = \<lparr>um_mem = (\<lambda>a. if a = 1000 then 104 else if a = 1001 then 105 else 0),
                  um_readable = (\<lambda>a. a < 4096), um_writable = (\<lambda>a. a < 4096),
                  um_badfaultfunc = False\<rparr>"


subsection \<open>I/O descriptors\<close>

datatype uio_rw = UIO_READ | UIO_WRITE

datatype uio_seg = UIO_USERSPACE | UIO_SYSSPACE | UIO_USERISPACE

text \<open>
  The base of the \<^verbatim>\<open>iovec\<close>: a kernel buffer split at \<^verbatim>\<open>iov_kbase\<close> into what lies before and from
  there on, or a user address.
\<close>

datatype iov_base = Kbase (kpast: "byte list") (krest: "byte list") | Ubase (ubase: nat)

record uio =
  iov_un :: iov_base
  iov_len :: nat
  uio_offset :: int
  uio_resid :: nat
  uio_segflg :: uio_seg
  uio_rw :: uio_rw
  uio_space :: "nat option"

text \<open>
  What an I/O routine works on: the descriptor, the memory of the current process and the
  address space \<^verbatim>\<open>curthread->t_vmspace\<close> it has in context, and a device.
\<close>

record 'd io =
  io_uio :: uio
  io_user :: user
  io_vmspace :: "nat option"
  io_dev :: 'd

abbreviation (input) io_uio_upd :: "(uio \<Rightarrow> uio) \<Rightarrow> 'd io \<Rightarrow> 'd io" where
  "io_uio_upd f s \<equiv> s\<lparr>io_uio := f (io_uio s)\<rparr>"

text \<open>Copying \<open>sz\<close> bytes between a kernel buffer and the buffer of the descriptor.\<close>

definition uio_copy :: "byte list \<Rightarrow> nat \<Rightarrow> ('d io, byte list) prog" where
  "uio_copy ptr sz =
     kbind (kget io_uio) (\<lambda>u.
     case uio_segflg u of
       UIO_SYSSPACE \<Rightarrow>
         (case iov_un u of
            Ubase a \<Rightarrow> kpanic ''bad pointer''
          | Kbase past rest \<Rightarrow>
              kthen (kassert (sz \<le> length ptr \<and> sz \<le> length rest))
              (if uio_rw u = UIO_READ
               then kthen (kmod (io_uio_upd (\<lambda>u. u\<lparr>iov_un := Kbase (past @ take sz ptr) (drop sz rest)\<rparr>)))
                    (kret ptr)
               else kthen (kmod (io_uio_upd (\<lambda>u. u\<lparr>iov_un := Kbase (past @ take sz rest) (drop sz rest)\<rparr>)))
                    (kret (take sz rest @ drop sz ptr))))
     | _ \<Rightarrow>
         (case iov_un u of
            Kbase past rest \<Rightarrow> kpanic ''bad pointer''
          | Ubase a \<Rightarrow>
              kthen (kassert (sz \<le> length ptr))
              (if uio_rw u = UIO_READ
               then kthen (kzoom io_user (\<lambda>m s. s\<lparr>io_user := m\<rparr>) (copyout (take sz ptr) a))
                    (kthen (kmod (io_uio_upd (\<lambda>u. u\<lparr>iov_un := Ubase (a + sz)\<rparr>))) (kret ptr))
               else kbind (kzoom io_user (\<lambda>m s. s\<lparr>io_user := m\<rparr>) (copyin a sz)) (\<lambda>bs.
                    kthen (kmod (io_uio_upd (\<lambda>u. u\<lparr>iov_un := Ubase (a + sz)\<rparr>)))
                    (kret (bs @ drop sz ptr))))))"

text \<open>
  The loop of \<^verbatim>\<open>uiomove\<close>. \<open>ptr\<close> is the part of the caller's buffer not passed yet, and the result
  is that part afterwards.
\<close>

function uiomove_loop :: "byte list \<Rightarrow> nat \<Rightarrow> ('d io, byte list) prog" where
  "uiomove_loop ptr n =
     kbind (kget io_uio) (\<lambda>u.
     if n > 0 \<and> uio_resid u > 0
     then let sz = min (iov_len u) n in
          if sz = 0 then kpanic ''uiomove: size reached 0''
          else kbind (uio_copy ptr sz) (\<lambda>ptr'.
               kthen (kmod (io_uio_upd (\<lambda>u. u\<lparr>iov_len := iov_len u - sz, uio_resid := usub32 (uio_resid u) sz,
                                               uio_offset := wrap32 (uio_offset u + int sz)\<rparr>)))
               (kbind (uiomove_loop (drop sz ptr') (n - sz)) (\<lambda>rest. kret (take sz ptr' @ rest))))
     else kret ptr)"
  by pat_completeness auto
termination
  by (relation "measure (\<lambda>(ptr, n). n)") auto

definition uiomove :: "byte list \<Rightarrow> nat \<Rightarrow> ('d io, byte list) prog" where
  "uiomove ptr n =
     kbind (kget (\<lambda>s. s)) (\<lambda>s.
     kthen (if uio_segflg (io_uio s) = UIO_SYSSPACE then kassert (uio_space (io_uio s) = None)
            else kassert (uio_space (io_uio s) = io_vmspace s))
     (uiomove_loop ptr n))"

function uiomovezeros_loop :: "nat \<Rightarrow> ('d io, unit) prog" where
  "uiomovezeros_loop n =
     (if n > 0
      then let amt = min 16 n in
           kthen (uiomove (replicate 16 0) amt) (uiomovezeros_loop (n - amt))
      else kret ())"
  by pat_completeness auto
termination
  by (relation "measure id") auto

definition uiomovezeros :: "nat \<Rightarrow> ('d io, unit) prog" where
  "uiomovezeros n =
     kbind (kget io_uio) (\<lambda>u. kthen (kassert (uio_rw u = UIO_READ)) (uiomovezeros_loop n))"

definition mk_kuio :: "byte list \<Rightarrow> nat \<Rightarrow> int \<Rightarrow> uio_rw \<Rightarrow> uio" where
  "mk_kuio kbuf len pos rw =
     \<lparr>iov_un = Kbase [] kbuf, iov_len = len, uio_offset = pos, uio_resid = len,
      uio_segflg = UIO_SYSSPACE, uio_rw = rw, uio_space = None\<rparr>"

declare uiomove_loop.simps [simp del] uiomovezeros_loop.simps [simp del]

text \<open>
  A descriptor over a kernel buffer that is set up the way \<^verbatim>\<open>uio.h\<close> asks, and the effect of
  transferring \<open>m\<close> bytes on it: \<open>bs\<close> is what the passed part of the buffer holds then.
\<close>

definition kuio_ok :: "uio \<Rightarrow> bool" where
  "kuio_ok u \<longleftrightarrow> uio_segflg u = UIO_SYSSPACE \<and> uio_space u = None \<and>
     (case iov_un u of Kbase past rest \<Rightarrow> length rest = iov_len u | Ubase a \<Rightarrow> False) \<and>
     uio_resid u \<le> iov_len u \<and> iov_len u < 2 ^ 31 \<and>
     0 \<le> uio_offset u \<and> uio_offset u + int (uio_resid u) < 2 ^ 31"

definition kuio_advance :: "nat \<Rightarrow> byte list \<Rightarrow> uio \<Rightarrow> uio" where
  "kuio_advance m bs u = u\<lparr>iov_un := Kbase (kpast (iov_un u) @ bs) (drop m (krest (iov_un u))),
     iov_len := iov_len u - m, uio_resid := uio_resid u - m, uio_offset := uio_offset u + int m\<rparr>"

lemma kuio_ok_Kbase: "kuio_ok u \<Longrightarrow> iov_un u = Kbase (kpast (iov_un u)) (krest (iov_un u)) \<and>
    length (krest (iov_un u)) = iov_len u"
  by (cases "iov_un u") (auto simp: kuio_ok_def)

lemma kuio_ok_advance: "kuio_ok u \<Longrightarrow> m \<le> uio_resid u \<Longrightarrow> kuio_ok (kuio_advance m bs u)"
  using kuio_ok_Kbase [of u] by (auto simp: kuio_ok_def kuio_advance_def)

lemma uio_copy_kernel:
  assumes ok: "kuio_ok (io_uio s)" and "m \<le> length ptr" and "m \<le> iov_len (io_uio s)"
  shows "uio_copy ptr m s =
    (let u = io_uio s; past = kpast (iov_un u); rest = krest (iov_un u) in
     if uio_rw u = UIO_READ
     then Done ptr (s\<lparr>io_uio := u\<lparr>iov_un := Kbase (past @ take m ptr) (drop m rest)\<rparr>\<rparr>)
     else Done (take m rest @ drop m ptr)
            (s\<lparr>io_uio := u\<lparr>iov_un := Kbase (past @ take m rest) (drop m rest)\<rparr>\<rparr>))"
proof -
  obtain past rest where r: "iov_un (io_uio s) = Kbase past rest" "length rest = iov_len (io_uio s)"
    using kuio_ok_Kbase [OF ok] by metis
  with assms show ?thesis by (simp add: uio_copy_def kprog kuio_ok_def Let_def)
qed

lemma uiomove_loop_0 [kprog]: "uiomove_loop ptr 0 s = Done ptr s"
  by (simp add: uiomove_loop.simps [of ptr 0] kprog)

lemma uiomove_kernel_loop:
  assumes ok: "kuio_ok (io_uio s)" and n: "n \<le> length ptr" and "n \<le> uio_resid (io_uio s)"
  shows "uiomove_loop ptr n s =
    (let u = io_uio s; rest = krest (iov_un u) in
     if uio_rw u = UIO_READ then Done ptr (s\<lparr>io_uio := kuio_advance n (take n ptr) u\<rparr>)
     else Done (take n rest @ drop n ptr) (s\<lparr>io_uio := kuio_advance n (take n rest) u\<rparr>))"
proof (cases "n = 0")
  case True
  obtain past rest where r: "iov_un (io_uio s) = Kbase past rest"
    using kuio_ok_Kbase [OF ok] by metis
  then have "kuio_advance 0 [] (io_uio s) = io_uio s" by (simp add: kuio_advance_def)
  with True show ?thesis by (simp add: kprog Let_def)
next
  case False
  let ?u = "io_uio s"
  have bounds: "uio_resid ?u \<le> iov_len ?u" "iov_len ?u < 2 ^ 31" "0 \<le> uio_offset ?u"
    "uio_offset ?u + int (uio_resid ?u) < 2 ^ 31" using ok by (auto simp: kuio_ok_def)
  have m: "min (iov_len ?u) n = n" using assms(3) bounds by simp
  have "wrap32 (uio_offset ?u + int n) = uio_offset ?u + int n"
    using bounds assms(3) by (intro wrap32_id) auto
  moreover have "usub32 (uio_resid ?u) n = uio_resid ?u - n"
    using bounds assms(3) by (intro usub32_eq) auto
  moreover have "length (krest (iov_un ?u)) = iov_len ?u" using kuio_ok_Kbase [OF ok] by simp
  ultimately show ?thesis
    using False assms bounds m
    by (simp add: uiomove_loop.simps [of ptr n] kprog uio_copy_kernel Let_def kuio_advance_def)
qed

lemma uiomove_kernel:
  assumes ok: "kuio_ok (io_uio s)" and n: "n \<le> length ptr" "n \<le> uio_resid (io_uio s)"
  shows "uiomove ptr n s =
    (let u = io_uio s; rest = krest (iov_un u) in
     if uio_rw u = UIO_READ then Done ptr (s\<lparr>io_uio := kuio_advance n (take n ptr) u\<rparr>)
     else Done (take n rest @ drop n ptr) (s\<lparr>io_uio := kuio_advance n (take n rest) u\<rparr>))"
proof -
  have "uio_segflg (io_uio s) = UIO_SYSSPACE" "uio_space (io_uio s) = None"
    using ok by (auto simp: kuio_ok_def)
  then show ?thesis using uiomove_kernel_loop [OF ok n] by (simp add: uiomove_def kprog)
qed

lemma kuio_advance_fields [simp]:
  "uio_rw (kuio_advance m bs u) = uio_rw u" "uio_segflg (kuio_advance m bs u) = uio_segflg u"
  "uio_resid (kuio_advance m bs u) = uio_resid u - m" "iov_len (kuio_advance m bs u) = iov_len u - m"
  "uio_offset (kuio_advance m bs u) = uio_offset u + int m"
  "kpast (iov_un (kuio_advance m bs u)) = kpast (iov_un u) @ bs"
  "krest (iov_un (kuio_advance m bs u)) = drop m (krest (iov_un u))"
  by (simp_all add: kuio_advance_def)

lemma kuio_advance_add:
  "kuio_advance n cs (kuio_advance m bs u) = kuio_advance (m + n) (bs @ cs) u"
  by (simp add: kuio_advance_def add.commute)

lemma kuio_advance_0: "kuio_ok u \<Longrightarrow> kuio_advance 0 [] u = u"
  using kuio_ok_Kbase [of u] by (simp add: kuio_advance_def)

lemma uiomovezeros_loop_kernel:
  "kuio_ok (io_uio s) \<Longrightarrow> n \<le> uio_resid (io_uio s) \<Longrightarrow> uio_rw (io_uio s) = UIO_READ \<Longrightarrow>
   uiomovezeros_loop n s = Done () (s\<lparr>io_uio := kuio_advance n (replicate n 0) (io_uio s)\<rparr>)"
proof (induction n arbitrary: s rule: uiomovezeros_loop.induct)
  case (1 n)
  show ?case
  proof (cases "n = 0")
    case True
    with "1.prems" show ?thesis
      by (simp add: uiomovezeros_loop.simps [of 0] kprog kuio_advance_0)
  next
    case False
    define m where "m = min 16 n"
    let ?s = "s\<lparr>io_uio := kuio_advance m (replicate m 0) (io_uio s)\<rparr>"
    have m: "m \<le> 16" "m \<le> n" "0 < m" using False by (auto simp: m_def)
    have "uiomove (replicate 16 0) m s = Done (replicate 16 0) ?s"
      using uiomove_kernel [OF "1.prems"(1), of m "replicate 16 0"] "1.prems" m by (simp add: Let_def)
    moreover have "uiomovezeros_loop (n - m) ?s =
        Done () (s\<lparr>io_uio := kuio_advance n (replicate n 0) (io_uio s)\<rparr>)"
      using "1.IH" [OF _ m_def, of ?s] "1.prems" False m
      by (simp add: kuio_ok_advance kuio_advance_add flip: replicate_add)
    ultimately show ?thesis
      using False by (simp add: uiomovezeros_loop.simps [of n] kprog Let_def flip: m_def)
  qed
qed

lemma uiomovezeros_kernel:
  "kuio_ok (io_uio s) \<Longrightarrow> n \<le> uio_resid (io_uio s) \<Longrightarrow> uio_rw (io_uio s) = UIO_READ \<Longrightarrow>
   uiomovezeros n s = Done () (s\<lparr>io_uio := kuio_advance n (replicate n 0) (io_uio s)\<rparr>)"
  by (simp add: uiomovezeros_def kprog uiomovezeros_loop_kernel)

text \<open>The same for a descriptor over user memory.\<close>

definition uuio_ok :: "'d io \<Rightarrow> bool" where
  "uuio_ok s \<longleftrightarrow> (let u = io_uio s in
     uio_segflg u \<noteq> UIO_SYSSPACE \<and> uio_space u = io_vmspace s \<and> \<not> um_badfaultfunc (io_user s) \<and>
     (case iov_un u of Ubase a \<Rightarrow> a < 2 ^ 32 | Kbase p r \<Rightarrow> False) \<and>
     uio_resid u \<le> iov_len u \<and> iov_len u < 2 ^ 31 \<and>
     0 \<le> uio_offset u \<and> uio_offset u + int (uio_resid u) < 2 ^ 31)"

definition uuio_advance :: "nat \<Rightarrow> uio \<Rightarrow> uio" where
  "uuio_advance m u = u\<lparr>iov_un := Ubase (ubase (iov_un u) + m),
     iov_len := iov_len u - m, uio_resid := uio_resid u - m, uio_offset := uio_offset u + int m\<rparr>"


definition io_sample :: "unit io" where
  "io_sample = \<lparr>io_uio = \<lparr>iov_un = Ubase 1000, iov_len = 2, uio_offset = 0, uio_resid = 2,
                           uio_segflg = UIO_USERSPACE, uio_rw = UIO_WRITE, uio_space = Some 1\<rparr>,
                io_user = user_sample, io_vmspace = Some 1, io_dev = ()\<rparr>"


end
