(* ===== verification/Lhd.thy ===== *)
theory Lhd
  imports Uio
begin

unbundle bit_operations_syntax

text \<open>
  The disk driver \<^verbatim>\<open>kern/dev/lamebus/lhd.c\<close>. Its soft state is \<open>lhd_softc\<close>; the card is the
  function \<open>hw\<close>, which is given the sector register, whether the operation is a write and the
  on-card buffer, and answers with a completion status, the buffer it leaves and its own
  new state. Between starting an operation and returning from \<^verbatim>\<open>P(lh_done)\<close> the card completes
  it and interrupts, so that wait runs the card and then the interrupt handler.
\<close>

abbreviation (input) LHD_SECTSIZE :: nat where "LHD_SECTSIZE \<equiv> 512"

definition LHD_IDLE :: u32 where "LHD_IDLE = 0"
definition LHD_WORKING :: u32 where "LHD_WORKING = 1"
definition LHD_OK :: u32 where "LHD_OK = 4"
definition LHD_INVSECT :: u32 where "LHD_INVSECT = 12"
definition LHD_MEDIA :: u32 where "LHD_MEDIA = 20"
definition LHD_ISWRITE :: u32 where "LHD_ISWRITE = 2"
definition LHD_STATEMASK :: u32 where "LHD_STATEMASK = 0x1d"

lemmas lhd_codes = LHD_IDLE_def LHD_WORKING_def LHD_OK_def LHD_INVSECT_def LHD_MEDIA_def
  LHD_ISWRITE_def LHD_STATEMASK_def

datatype lhd_reg = LHD_REG_STAT | LHD_REG_SECT

text \<open>\<open>lh_result\<close> is \<open>None\<close> for 0; the semaphores are their counts.\<close>

record 'h lhd_softc =
  lh_buf :: "byte list"
  lh_result :: "errno option"
  lh_clear :: nat
  lh_done :: nat
  lh_blocks :: nat
  lh_statreg :: u32
  lh_sectreg :: nat
  lh_card :: 'h

type_synonym 'h lhd_hw = "nat \<Rightarrow> bool \<Rightarrow> byte list \<Rightarrow> 'h \<Rightarrow> u32 \<times> byte list \<times> 'h"

definition lhd_rdreg :: "'h lhd_softc \<Rightarrow> u32" where
  "lhd_rdreg lh = lh_statreg lh"

fun lhd_wreg :: "lhd_reg \<Rightarrow> nat \<Rightarrow> 'h lhd_softc \<Rightarrow> 'h lhd_softc" where
  "lhd_wreg LHD_REG_STAT v lh = lh\<lparr>lh_statreg := of_nat v\<rparr>"
| "lhd_wreg LHD_REG_SECT v lh = lh\<lparr>lh_sectreg := v\<rparr>"

definition lhd_code_to_errno :: "u32 \<Rightarrow> errno option" where
  "lhd_code_to_errno code =
     (let c = code AND LHD_STATEMASK in
      if c = LHD_OK then None
      else if c = LHD_INVSECT then Some EINVAL
      else if c = LHD_MEDIA then Some EIO
      else Some EAGAIN)"

definition lhd_iodone :: "errno option \<Rightarrow> 'h lhd_softc \<Rightarrow> 'h lhd_softc" where
  "lhd_iodone err lh = lh\<lparr>lh_result := err, lh_done := lh_done lh + 1\<rparr>"

definition lhd_irq :: "'h lhd_softc \<Rightarrow> 'h lhd_softc" where
  "lhd_irq lh =
     (let val = lhd_rdreg lh; c = val AND LHD_STATEMASK in
      if c = LHD_IDLE \<or> c = LHD_WORKING then lh
      else if c = LHD_OK \<or> c = LHD_INVSECT \<or> c = LHD_MEDIA
      then lhd_iodone (lhd_code_to_errno val) (lhd_wreg LHD_REG_STAT 0 lh)
      else lh)"

text \<open>The card, once the status register says \<^verbatim>\<open>LHD_WORKING\<close>, up to its interrupt.\<close>

definition lhd_card_run :: "'h lhd_hw \<Rightarrow> 'h lhd_softc \<Rightarrow> 'h lhd_softc" where
  "lhd_card_run hw lh =
     (if lh_statreg lh AND LHD_WORKING \<noteq> 0
      then case hw (lh_sectreg lh) (lh_statreg lh AND LHD_ISWRITE \<noteq> 0) (lh_buf lh) (lh_card lh) of
             (status, buf, h) \<Rightarrow> lh\<lparr>lh_statreg := status, lh_buf := buf, lh_card := h\<rparr>
      else lh)"

definition lhd_P_clear :: "('h lhd_softc io, unit) prog" where
  "lhd_P_clear = kbind (kget (lh_clear \<circ> io_dev)) (\<lambda>n.
     if n = 0 then kpanic ''sleeps forever''
     else kmod (\<lambda>s. s\<lparr>io_dev := (io_dev s)\<lparr>lh_clear := n - 1\<rparr>\<rparr>))"

definition lhd_V_clear :: "('h lhd_softc io, unit) prog" where
  "lhd_V_clear = kmod (\<lambda>s. s\<lparr>io_dev := (io_dev s)\<lparr>lh_clear := lh_clear (io_dev s) + 1\<rparr>\<rparr>)"

definition lhd_P_done :: "'h lhd_hw \<Rightarrow> ('h lhd_softc io, unit) prog" where
  "lhd_P_done hw =
     kthen (kmod (\<lambda>s. if lh_done (io_dev s) = 0 then s\<lparr>io_dev := lhd_irq (lhd_card_run hw (io_dev s))\<rparr> else s))
     (kbind (kget (lh_done \<circ> io_dev)) (\<lambda>n.
      if n = 0 then kpanic ''sleeps forever''
      else kmod (\<lambda>s. s\<lparr>io_dev := (io_dev s)\<lparr>lh_done := n - 1\<rparr>\<rparr>)))"

text \<open>One round of the loop of \<^verbatim>\<open>lhd_io\<close>. The on-card buffer is what \<^verbatim>\<open>uiomove\<close> is given.\<close>

definition lhd_uiomove :: "('h lhd_softc io, unit) prog" where
  "lhd_uiomove = kbind (kget (lh_buf \<circ> io_dev)) (\<lambda>buf.
     kbind (uiomove buf LHD_SECTSIZE) (\<lambda>buf'.
     kmod (\<lambda>s. s\<lparr>io_dev := (io_dev s)\<lparr>lh_buf := buf'\<rparr>\<rparr>)))"

definition lhd_sector_io :: "'h lhd_hw \<Rightarrow> u32 \<Rightarrow> nat \<Rightarrow> ('h lhd_softc io, unit) prog" where
  "lhd_sector_io hw statval sect =
     kthen lhd_P_clear
     (kbind (kget (uio_rw \<circ> io_uio)) (\<lambda>rw.
      kbind (if rw = UIO_WRITE then kcatch lhd_uiomove else kret (Inr ())) (\<lambda>moved.
      case moved of
        Inl e \<Rightarrow> kthen lhd_V_clear (kfail e)
      | Inr _ \<Rightarrow>
          kthen (kmod (\<lambda>s. s\<lparr>io_dev := lhd_wreg LHD_REG_SECT sect (io_dev s)\<rparr>))
          (kthen (kmod (\<lambda>s. s\<lparr>io_dev := lhd_wreg LHD_REG_STAT (unat statval) (io_dev s)\<rparr>))
          (kthen (lhd_P_done hw)
          (kbind (kget (lh_result \<circ> io_dev)) (\<lambda>result.
           kbind (if result = None \<and> rw = UIO_READ then kcatch lhd_uiomove
                  else kret (case result of None \<Rightarrow> Inr () | Some e \<Rightarrow> Inl e)) (\<lambda>result.
           kthen lhd_V_clear
           (case result of Inl e \<Rightarrow> kfail e | Inr _ \<Rightarrow> kret ())))))))))"

fun lhd_io_loop :: "'h lhd_hw \<Rightarrow> u32 \<Rightarrow> nat \<Rightarrow> nat \<Rightarrow> ('h lhd_softc io, unit) prog" where
  "lhd_io_loop hw statval sector 0 = kret ()"
| "lhd_io_loop hw statval sector (Suc n) =
     kthen (lhd_sector_io hw statval sector)
     (lhd_io_loop hw statval ((sector + 1) mod 2 ^ 32) n)"

text \<open>
  \<open>lhd_io\<close>. The sector number is only used when the offset is a multiple of the sector size, so
  rounding of negative offsets does not matter; as \<^verbatim>\<open>u_int32_t\<close> it is taken modulo \<open>2 ^ 32\<close>, and so is
  the sum that is compared with the size of the disk.
\<close>

definition lhd_io :: "'h lhd_hw \<Rightarrow> ('h lhd_softc io, unit) prog" where
  "lhd_io hw =
     kbind (kget (\<lambda>s. s)) (\<lambda>s.
     let u = io_uio s;
         sector = nat (uio_offset u div int LHD_SECTSIZE mod 2 ^ 32);
         sectoff = uio_offset u mod int LHD_SECTSIZE;
         len = uio_resid u div LHD_SECTSIZE;
         lenoff = uio_resid u mod LHD_SECTSIZE;
         statval = (if uio_rw u = UIO_WRITE then LHD_WORKING OR LHD_ISWRITE else LHD_WORKING)
     in if sectoff \<noteq> 0 \<or> lenoff \<noteq> 0 then kfail EINVAL
        else if (sector + len) mod 2 ^ 32 > lh_blocks (io_dev s) then kfail EINVAL
        else lhd_io_loop hw statval sector len)"

definition lhd_open :: "('s, unit) prog" where "lhd_open = kret ()"
definition lhd_close :: "('s, unit) prog" where "lhd_close = kret ()"
definition lhd_ioctl :: "('s, unit) prog" where "lhd_ioctl = kfail EIOCTL"

subsection \<open>The contract of a block device\<close>

text \<open>
  What SFS relies on when it reads or writes one block through \<^verbatim>\<open>d_io\<close> with a descriptor over a
  kernel buffer: the sector is transferred, the descriptor advanced, everything else left
  alone. \<open>sectors\<close> reads the contents of the device.
\<close>

definition block_request :: "nat \<Rightarrow> uio \<Rightarrow> bool" where
  "block_request k u \<longleftrightarrow> kuio_ok u \<and> uio_resid u = LHD_SECTSIZE \<and> uio_offset u = int (k * LHD_SECTSIZE)"

locale block_device =
  fixes d_io :: "('d io, unit) prog" and d_blocks :: "'d \<Rightarrow> nat"
    and sectors :: "'d \<Rightarrow> nat \<Rightarrow> byte list" and ready :: "'d \<Rightarrow> bool"
  assumes read_law: "ready (io_dev s) \<Longrightarrow> k < d_blocks (io_dev s) \<Longrightarrow> block_request k (io_uio s) \<Longrightarrow>
      uio_rw (io_uio s) = UIO_READ \<Longrightarrow>
      \<exists>d. d_io s = Done () (s\<lparr>io_uio := kuio_advance LHD_SECTSIZE (sectors (io_dev s) k) (io_uio s),
                             io_dev := d\<rparr>) \<and>
          ready d \<and> d_blocks d = d_blocks (io_dev s) \<and> sectors d = sectors (io_dev s)"
    and write_law: "ready (io_dev s) \<Longrightarrow> k < d_blocks (io_dev s) \<Longrightarrow> block_request k (io_uio s) \<Longrightarrow>
      uio_rw (io_uio s) = UIO_WRITE \<Longrightarrow>
      (let bs = take LHD_SECTSIZE (krest (iov_un (io_uio s))) in
       \<exists>d. d_io s = Done () (s\<lparr>io_uio := kuio_advance LHD_SECTSIZE bs (io_uio s), io_dev := d\<rparr>) \<and>
          ready d \<and> d_blocks d = d_blocks (io_dev s) \<and> sectors d = (sectors (io_dev s))(k := bs))"
    and sector_length: "ready d \<Longrightarrow> k < d_blocks d \<Longrightarrow> length (sectors d k) = LHD_SECTSIZE"
    and blocks_bound: "ready d \<Longrightarrow> d_blocks d * LHD_SECTSIZE < 2 ^ 31"

text \<open>
  A card that works: in range, a read puts the sector into the buffer and a write stores the
  buffer, with status \<^verbatim>\<open>LHD_OK\<close>.
\<close>

locale working_card =
  fixes hw :: "'h lhd_hw" and nsect :: "'h \<Rightarrow> nat" and contents :: "'h \<Rightarrow> nat \<Rightarrow> byte list"
  assumes card_read: "k < nsect h \<Longrightarrow> hw k False buf h = (st, buf', h') \<Longrightarrow>
      st AND LHD_STATEMASK = LHD_OK \<and> buf' = contents h k \<and> nsect h' = nsect h \<and> contents h' = contents h"
    and card_write: "k < nsect h \<Longrightarrow> length buf = LHD_SECTSIZE \<Longrightarrow> hw k True buf h = (st, buf', h') \<Longrightarrow>
      st AND LHD_STATEMASK = LHD_OK \<and> length buf' = LHD_SECTSIZE \<and> nsect h' = nsect h \<and>
      contents h' = (contents h)(k := buf)"
    and card_sectors: "k < nsect h \<Longrightarrow> length (contents h k) = LHD_SECTSIZE"

text \<open>The driver between two requests.\<close>

definition lhd_ready :: "('h \<Rightarrow> nat) \<Rightarrow> 'h lhd_softc \<Rightarrow> bool" where
  "lhd_ready nsect lh \<longleftrightarrow> lh_clear lh = 1 \<and> lh_done lh = 0 \<and> length (lh_buf lh) = LHD_SECTSIZE \<and>
     lh_blocks lh = nsect (lh_card lh) \<and> lh_blocks lh * LHD_SECTSIZE < 2 ^ 31"

lemma code_to_errno_cases:
  "c AND LHD_STATEMASK = LHD_OK \<Longrightarrow> lhd_code_to_errno c = None"
  "c AND LHD_STATEMASK = LHD_MEDIA \<Longrightarrow> lhd_code_to_errno c = Some EIO"
  by (simp_all add: lhd_code_to_errno_def lhd_codes)

text \<open>
  Waiting for a started operation: the card completes it, the handler records the outcome
  and clears the register.
\<close>

lemma lhd_P_done_run:
  assumes d: "io_dev s = lh" and "lh_done lh = 0" and "lh_statreg lh AND LHD_WORKING \<noteq> 0"
    and hw: "hw (lh_sectreg lh) (lh_statreg lh AND LHD_ISWRITE \<noteq> 0) (lh_buf lh) (lh_card lh) = (st, buf', h')"
    and st: "st AND LHD_STATEMASK \<in> {LHD_OK, LHD_INVSECT, LHD_MEDIA}"
  shows "lhd_P_done hw s = Done () (s\<lparr>io_dev := lh\<lparr>lh_statreg := 0, lh_buf := buf', lh_card := h',
     lh_result := lhd_code_to_errno st, lh_done := 0\<rparr>\<rparr>)"
proof -
  have "st AND LHD_STATEMASK \<noteq> LHD_IDLE" "st AND LHD_STATEMASK \<noteq> LHD_WORKING"
    using st by (auto simp: lhd_codes)
  then show ?thesis
    using assms by (simp add: lhd_P_done_def kprog lhd_card_run_def lhd_irq_def lhd_rdreg_def Let_def
        lhd_iodone_def)
qed

lemma statval_bits:
  "LHD_WORKING AND LHD_WORKING \<noteq> 0" "LHD_WORKING AND LHD_ISWRITE = 0"
  "(LHD_WORKING OR LHD_ISWRITE) AND LHD_WORKING \<noteq> 0" "(LHD_WORKING OR LHD_ISWRITE) AND LHD_ISWRITE \<noteq> 0"
  by (simp_all add: lhd_codes)

lemma lhd_uiomove_run:
  assumes "kuio_ok (io_uio s)" and "LHD_SECTSIZE \<le> uio_resid (io_uio s)"
    and "length (lh_buf (io_dev s)) = LHD_SECTSIZE"
  shows "lhd_uiomove s =
    (let u = io_uio s; lh = io_dev s; out = take LHD_SECTSIZE (krest (iov_un u)) in
     if uio_rw u = UIO_READ then Done () (s\<lparr>io_uio := kuio_advance LHD_SECTSIZE (lh_buf lh) u\<rparr>)
     else Done () (s\<lparr>io_uio := kuio_advance LHD_SECTSIZE out u, io_dev := lh\<lparr>lh_buf := out\<rparr>\<rparr>))"
  using uiomove_kernel [OF assms(1), of LHD_SECTSIZE "lh_buf (io_dev s)"] assms
  by (simp add: lhd_uiomove_def kprog Let_def)

lemma lhd_read_sector:
  assumes d: "io_dev s = lh" "lh_clear lh = 1" "lh_done lh = 0"
    and u: "kuio_ok (io_uio s)" "LHD_SECTSIZE \<le> uio_resid (io_uio s)" "uio_rw (io_uio s) = UIO_READ"
    and hw: "hw k False (lh_buf lh) (lh_card lh) = (st, buf', h')" "st AND LHD_STATEMASK = LHD_OK"
    and buf': "length buf' = LHD_SECTSIZE"
  shows "lhd_sector_io hw LHD_WORKING k s = Done () (s\<lparr>io_uio := kuio_advance LHD_SECTSIZE buf' (io_uio s),
     io_dev := lh\<lparr>lh_sectreg := k, lh_statreg := 0, lh_buf := buf', lh_card := h', lh_result := None\<rparr>\<rparr>)"
  using d u hw buf' code_to_errno_cases(1) [OF hw(2)] statval_bits
  by (simp add: lhd_sector_io_def lhd_P_clear_def lhd_V_clear_def kprog lhd_uiomove_run Let_def
      lhd_P_done_run [where buf' = buf' and h' = h' and st = st])

lemma lhd_write_sector:
  assumes d: "io_dev s = lh" "lh_clear lh = 1" "lh_done lh = 0" "length (lh_buf lh) = LHD_SECTSIZE"
    and u: "kuio_ok (io_uio s)" "LHD_SECTSIZE \<le> uio_resid (io_uio s)" "uio_rw (io_uio s) = UIO_WRITE"
    and out: "out = take LHD_SECTSIZE (krest (iov_un (io_uio s)))"
    and hw: "hw k True out (lh_card lh) = (st, buf', h')" "st AND LHD_STATEMASK \<in> {LHD_OK, LHD_INVSECT, LHD_MEDIA}"
  shows "lhd_sector_io hw (LHD_WORKING OR LHD_ISWRITE) k s =
    (let t = s\<lparr>io_uio := kuio_advance LHD_SECTSIZE out (io_uio s),
              io_dev := lh\<lparr>lh_sectreg := k, lh_statreg := 0, lh_buf := buf', lh_card := h',
                            lh_result := lhd_code_to_errno st\<rparr>\<rparr>
     in case lhd_code_to_errno st of None \<Rightarrow> Done () t | Some e \<Rightarrow> Fail e t)"
  using d u hw out statval_bits
  by (simp add: lhd_sector_io_def lhd_P_clear_def lhd_V_clear_def kprog lhd_uiomove_run Let_def
      lhd_P_done_run [where buf' = buf' and h' = h' and st = st] split: option.split)

lemma lhd_io_block:
  assumes "block_request k (io_uio s)" and "k < lh_blocks (io_dev s)" and "lh_blocks (io_dev s) * LHD_SECTSIZE < 2 ^ 31"
  shows "lhd_io hw s = lhd_sector_io hw
           (if uio_rw (io_uio s) = UIO_WRITE then LHD_WORKING OR LHD_ISWRITE else LHD_WORKING) k s"
proof -
  have k: "k < 2 ^ 31" using assms(2,3) by simp
  have "nat (uio_offset (io_uio s) div int LHD_SECTSIZE mod 2 ^ 32) = k"
    using assms(1) k by (simp add: block_request_def)
  moreover have "uio_offset (io_uio s) mod int LHD_SECTSIZE = 0"
    using assms(1) by (simp add: block_request_def)
  moreover have "(k + 1) mod 2 ^ 32 \<le> lh_blocks (io_dev s)" using k assms(2) by simp
  ultimately show ?thesis
    using assms(1) by (simp add: lhd_io_def kprog Let_def block_request_def split: outcome.split)
qed

text \<open>What one request, or one round of it, does to the device: \<open>c\<close> is what it holds then.\<close>

definition lhd_after :: "('h \<Rightarrow> nat) \<Rightarrow> ('h \<Rightarrow> nat \<Rightarrow> byte list) \<Rightarrow> 'h lhd_softc \<Rightarrow> (nat \<Rightarrow> byte list)
    \<Rightarrow> 'h lhd_softc \<Rightarrow> bool" where
  "lhd_after nsect contents lh c d \<longleftrightarrow>
     lhd_ready nsect d \<and> lh_blocks d = lh_blocks lh \<and> contents (lh_card d) = c"

context working_card begin

lemma read_sector:
  assumes rdy: "lhd_ready nsect lh" and k: "k < lh_blocks lh" and lh: "io_dev s = lh"
    and req: "kuio_ok (io_uio s)" "LHD_SECTSIZE \<le> uio_resid (io_uio s)" "uio_rw (io_uio s) = UIO_READ"
  shows "\<exists>d. lhd_sector_io hw LHD_WORKING k s =
       Done () (s\<lparr>io_uio := kuio_advance LHD_SECTSIZE (contents (lh_card lh) k) (io_uio s), io_dev := d\<rparr>) \<and>
     lhd_after nsect contents lh (contents (lh_card lh)) d"
proof -
  obtain st buf' h' where hw: "hw k False (lh_buf lh) (lh_card lh) = (st, buf', h')"
    by (metis prod_cases3)
  have kn: "k < nsect (lh_card lh)" using rdy k by (simp add: lhd_ready_def)
  note c = card_read [OF kn hw]
  have "lhd_sector_io hw LHD_WORKING k s = Done () (s\<lparr>io_uio := kuio_advance LHD_SECTSIZE buf' (io_uio s),
     io_dev := lh\<lparr>lh_sectreg := k, lh_statreg := 0, lh_buf := buf', lh_card := h', lh_result := None\<rparr>\<rparr>)"
    using rdy req c card_sectors [OF kn] lh hw
    by (intro lhd_read_sector [where lh = lh and hw = hw and st = st]) (auto simp: lhd_ready_def)
  then show ?thesis
    using c rdy card_sectors [OF kn] by (auto simp: lhd_ready_def lhd_after_def)
qed

lemma write_sector:
  assumes rdy: "lhd_ready nsect lh" and k: "k < lh_blocks lh" and lh: "io_dev s = lh"
    and req: "kuio_ok (io_uio s)" "LHD_SECTSIZE \<le> uio_resid (io_uio s)" "uio_rw (io_uio s) = UIO_WRITE"
    and bs: "bs = take LHD_SECTSIZE (krest (iov_un (io_uio s)))"
  shows "\<exists>d. lhd_sector_io hw (LHD_WORKING OR LHD_ISWRITE) k s =
       Done () (s\<lparr>io_uio := kuio_advance LHD_SECTSIZE bs (io_uio s), io_dev := d\<rparr>) \<and>
     lhd_after nsect contents lh ((contents (lh_card lh))(k := bs)) d"
proof -
  obtain st buf' h' where hw: "hw k True bs (lh_card lh) = (st, buf', h')"
    by (metis prod_cases3)
  have kn: "k < nsect (lh_card lh)" using rdy k by (simp add: lhd_ready_def)
  have len: "length bs = LHD_SECTSIZE"
    using req kuio_ok_Kbase [of "io_uio s"] bs by (auto simp: kuio_ok_def)
  note c = card_write [OF kn len hw]
  have "lhd_sector_io hw (LHD_WORKING OR LHD_ISWRITE) k s =
      Done () (s\<lparr>io_uio := kuio_advance LHD_SECTSIZE bs (io_uio s),
              io_dev := lh\<lparr>lh_sectreg := k, lh_statreg := 0, lh_buf := buf', lh_card := h',
                            lh_result := None\<rparr>\<rparr>)"
    using rdy req c code_to_errno_cases(1) [of st] lh hw bs
    by (subst lhd_write_sector [where lh = lh and hw = hw and st = st and out = bs and buf' = buf' and h' = h'])
       (auto simp: lhd_ready_def)
  then show ?thesis
    using c rdy by (auto simp: lhd_ready_def lhd_after_def)
qed

lemma read_range:
  "lhd_ready nsect (io_dev s) \<Longrightarrow> k + n \<le> lh_blocks (io_dev s) \<Longrightarrow> kuio_ok (io_uio s) \<Longrightarrow>
   n * LHD_SECTSIZE \<le> uio_resid (io_uio s) \<Longrightarrow> uio_rw (io_uio s) = UIO_READ \<Longrightarrow>
   \<exists>d. lhd_io_loop hw LHD_WORKING k n s =
       Done () (s\<lparr>io_uio := kuio_advance (n * LHD_SECTSIZE)
                   (concat (map (contents (lh_card (io_dev s))) [k..<k + n])) (io_uio s), io_dev := d\<rparr>) \<and>
     lhd_after nsect contents (io_dev s) (contents (lh_card (io_dev s))) d"
proof (induction n arbitrary: s k)
  case 0
  then show ?case by (auto simp: kprog kuio_advance_0 lhd_after_def intro!: exI [of _ "io_dev s"])
next
  case (Suc n)
  let ?c = "contents (lh_card (io_dev s))"
  obtain d where d: "lhd_sector_io hw LHD_WORKING k s =
      Done () (s\<lparr>io_uio := kuio_advance LHD_SECTSIZE (?c k) (io_uio s), io_dev := d\<rparr>)"
    "lhd_after nsect contents (io_dev s) ?c d"
    using read_sector [of "io_dev s" k s] Suc.prems by auto
  let ?t = "s\<lparr>io_uio := kuio_advance LHD_SECTSIZE (?c k) (io_uio s), io_dev := d\<rparr>"
  have k: "(k + 1) mod 2 ^ 32 = Suc k" using Suc.prems(1,2) by (simp add: lhd_ready_def)
  have left: "n * LHD_SECTSIZE \<le> uio_resid (io_uio s) - LHD_SECTSIZE" using Suc.prems(4) by simp
  obtain e where "lhd_io_loop hw LHD_WORKING (Suc k) n ?t =
      Done () (?t\<lparr>io_uio := kuio_advance (n * LHD_SECTSIZE) (concat (map ?c [Suc k..<Suc k + n])) (io_uio ?t), io_dev := e\<rparr>)"
    "lhd_after nsect contents (io_dev s) ?c e"
    using Suc.IH [of ?t "Suc k"] Suc.prems left d(2) by (auto simp: kuio_ok_advance lhd_after_def)
  then show ?case
    using d(1) k by (auto simp: kprog kuio_advance_add upt_conv_Cons simp del: upt_Suc)
qed

end

text \<open>Sectors \<open>k, ..., k + n - 1\<close> replaced by successive pieces of \<open>bs\<close>.\<close>

definition put_sectors :: "nat \<Rightarrow> nat \<Rightarrow> byte list \<Rightarrow> (nat \<Rightarrow> byte list) \<Rightarrow> nat \<Rightarrow> byte list" where
  "put_sectors k n bs c = (\<lambda>j. if k \<le> j \<and> j < k + n then take LHD_SECTSIZE (drop ((j - k) * LHD_SECTSIZE) bs) else c j)"

lemma put_sectors_0: "put_sectors k 0 bs c = c"
  by (rule ext) (auto simp: put_sectors_def)

lemma put_sectors_Suc:
  "put_sectors (Suc k) n (drop LHD_SECTSIZE bs) (c(k := take LHD_SECTSIZE bs)) = put_sectors k (Suc n) bs c"
proof
  fix j
  show "put_sectors (Suc k) n (drop LHD_SECTSIZE bs) (c(k := take LHD_SECTSIZE bs)) j = put_sectors k (Suc n) bs c j"
  proof (cases "j \<le> k")
    case False
    then obtain i where "j = Suc k + i" by (metis le_add_diff_inverse not_less_eq_eq)
    then show ?thesis by (simp add: put_sectors_def add.commute)
  qed (auto simp: put_sectors_def)
qed

context working_card begin

lemma write_range:
  "lhd_ready nsect (io_dev s) \<Longrightarrow> k + n \<le> lh_blocks (io_dev s) \<Longrightarrow> kuio_ok (io_uio s) \<Longrightarrow>
   n * LHD_SECTSIZE \<le> uio_resid (io_uio s) \<Longrightarrow> uio_rw (io_uio s) = UIO_WRITE \<Longrightarrow>
   rest = krest (iov_un (io_uio s)) \<Longrightarrow>
   \<exists>d. lhd_io_loop hw (LHD_WORKING OR LHD_ISWRITE) k n s =
       Done () (s\<lparr>io_uio := kuio_advance (n * LHD_SECTSIZE) (take (n * LHD_SECTSIZE) rest) (io_uio s), io_dev := d\<rparr>) \<and>
     lhd_after nsect contents (io_dev s) (put_sectors k n rest (contents (lh_card (io_dev s)))) d"
proof (induction n arbitrary: s k rest)
  case 0
  then show ?case
    by (auto simp: kprog kuio_advance_0 lhd_after_def put_sectors_0 intro!: exI [of _ "io_dev s"])
next
  case (Suc n)
  let ?c = "contents (lh_card (io_dev s))" and ?b = "take LHD_SECTSIZE rest"
  obtain d where d: "lhd_sector_io hw (LHD_WORKING OR LHD_ISWRITE) k s =
      Done () (s\<lparr>io_uio := kuio_advance LHD_SECTSIZE ?b (io_uio s), io_dev := d\<rparr>)"
    "lhd_after nsect contents (io_dev s) (?c(k := ?b)) d"
    using write_sector [of "io_dev s" k s] Suc.prems by auto
  let ?t = "s\<lparr>io_uio := kuio_advance LHD_SECTSIZE ?b (io_uio s), io_dev := d\<rparr>"
  have k: "(k + 1) mod 2 ^ 32 = Suc k" using Suc.prems(1,2) by (simp add: lhd_ready_def)
  have left: "n * LHD_SECTSIZE \<le> uio_resid (io_uio s) - LHD_SECTSIZE" using Suc.prems(4) by simp
  obtain e where "lhd_io_loop hw (LHD_WORKING OR LHD_ISWRITE) (Suc k) n ?t =
      Done () (?t\<lparr>io_uio := kuio_advance (n * LHD_SECTSIZE) (take (n * LHD_SECTSIZE) (drop LHD_SECTSIZE rest))
                 (io_uio ?t), io_dev := e\<rparr>)"
    "lhd_after nsect contents (io_dev s) (put_sectors (Suc k) n (drop LHD_SECTSIZE rest) (?c(k := ?b))) e"
    using Suc.IH [of ?t "Suc k" "drop LHD_SECTSIZE rest"] Suc.prems left d(2)
    by (auto simp: kuio_ok_advance lhd_after_def)
  then show ?case
    using d(1) k by (auto simp: kprog kuio_advance_add put_sectors_Suc take_add)
qed

end

text \<open>With a working card the driver is a block device.\<close>

sublocale working_card \<subseteq> bd: block_device "lhd_io hw" lh_blocks "\<lambda>lh. contents (lh_card lh)" "lhd_ready nsect"
proof unfold_locales
  fix s :: "'h lhd_softc io" and k
  assume r: "lhd_ready nsect (io_dev s)" "k < lh_blocks (io_dev s)" "block_request k (io_uio s)"
    "uio_rw (io_uio s) = UIO_READ"
  have "lhd_io hw s = lhd_sector_io hw LHD_WORKING k s"
    using lhd_io_block [OF r(3,2)] r by (simp add: lhd_ready_def)
  with read_sector [OF r(1,2) refl] r
  show "\<exists>d. lhd_io hw s = Done () (s\<lparr>io_uio := kuio_advance LHD_SECTSIZE (contents (lh_card (io_dev s)) k) (io_uio s),
        io_dev := d\<rparr>) \<and> lhd_ready nsect d \<and> lh_blocks d = lh_blocks (io_dev s) \<and>
        contents (lh_card d) = contents (lh_card (io_dev s))"
    by (simp add: block_request_def lhd_after_def)
next
  fix s :: "'h lhd_softc io" and k
  assume r: "lhd_ready nsect (io_dev s)" "k < lh_blocks (io_dev s)" "block_request k (io_uio s)"
    "uio_rw (io_uio s) = UIO_WRITE"
  have "lhd_io hw s = lhd_sector_io hw (LHD_WORKING OR LHD_ISWRITE) k s"
    using lhd_io_block [OF r(3,2)] r by (simp add: lhd_ready_def)
  with write_sector [OF r(1,2) refl] r
  show "let bs = take LHD_SECTSIZE (krest (iov_un (io_uio s))) in
      \<exists>d. lhd_io hw s = Done () (s\<lparr>io_uio := kuio_advance LHD_SECTSIZE bs (io_uio s), io_dev := d\<rparr>) \<and>
        lhd_ready nsect d \<and> lh_blocks d = lh_blocks (io_dev s) \<and>
        contents (lh_card d) = (contents (lh_card (io_dev s)))(k := bs)"
    by (simp add: Let_def block_request_def lhd_after_def)
next
  fix d :: "'h lhd_softc" and k
  assume "lhd_ready nsect d" "k < lh_blocks d"
  then show "length (contents (lh_card d) k) = LHD_SECTSIZE"
    by (simp add: lhd_ready_def card_sectors)
next
  fix d :: "'h lhd_softc"
  assume "lhd_ready nsect d"
  then show "lh_blocks d * LHD_SECTSIZE < 2 ^ 31" by (simp add: lhd_ready_def)
qed

subsection \<open>A card and its driver\<close>

text \<open>A card without defects, of \<open>dk_nsect\<close> sectors; other sectors give \<^verbatim>\<open>LHD_INVSECT\<close>.\<close>

record disk =
  dk_nsect :: nat
  dk_data :: "nat \<Rightarrow> byte list"

definition fit_sector :: "byte list \<Rightarrow> byte list" where
  "fit_sector bs = take LHD_SECTSIZE (bs @ replicate LHD_SECTSIZE 0)"

definition disk_sectors :: "disk \<Rightarrow> nat \<Rightarrow> byte list" where
  "disk_sectors h k = fit_sector (dk_data h k)"

definition disk_card :: "disk lhd_hw" where
  "disk_card k iswrite buf h =
     (if \<not> k < dk_nsect h then (LHD_INVSECT, buf, h)
      else if iswrite then (LHD_OK, buf, h\<lparr>dk_data := (dk_data h)(k := buf)\<rparr>)
      else (LHD_OK, disk_sectors h k, h))"

lemma fit_sector_length [simp]: "length (fit_sector bs) = LHD_SECTSIZE"
  by (simp add: fit_sector_def)

lemma fit_sector_id: "length bs = LHD_SECTSIZE \<Longrightarrow> fit_sector bs = bs"
  by (simp add: fit_sector_def)

interpretation dc: working_card disk_card dk_nsect disk_sectors
  by unfold_locales
     (auto simp: disk_card_def disk_sectors_def fit_sector_id lhd_codes split: if_splits)

text \<open>
  C6. Reading and writing a run of sectors through the driver. On a card that works, a
  request for \<open>n\<close> whole sectors from sector \<open>k\<close>, all on the disk, succeeds: a read hands back
  exactly those sectors in order and changes none, a write stores exactly those pieces of the
  buffer and no other sector, and either way both semaphores are back where they were.
\<close>

theorem lhd_io_range:
  assumes card: "working_card hw nsect contents" and rdy: "lhd_ready nsect lh" and lh: "io_dev s = lh"
    and u: "io_uio s = u" "kuio_ok u" "uio_offset u = int (k * LHD_SECTSIZE)" "uio_resid u = n * LHD_SECTSIZE"
    and range: "k + n \<le> lh_blocks lh"
  shows "\<exists>d. lhd_ready nsect d \<and> lh_blocks d = lh_blocks lh \<and>
    (if uio_rw u = UIO_READ
     then lhd_io hw s = Done () (s\<lparr>io_dev := d, io_uio := kuio_advance (n * LHD_SECTSIZE)
                                  (concat (map (contents (lh_card lh)) [k..<k + n])) u\<rparr>) \<and>
          contents (lh_card d) = contents (lh_card lh)
     else lhd_io hw s = Done () (s\<lparr>io_dev := d, io_uio := kuio_advance (n * LHD_SECTSIZE)
                                  (take (n * LHD_SECTSIZE) (krest (iov_un u))) u\<rparr>) \<and>
          contents (lh_card d) = put_sectors k n (krest (iov_un u)) (contents (lh_card lh)))"
proof -
  have k: "k < 2 ^ 31" and kn: "(k + n) mod 2 ^ 32 \<le> lh_blocks lh"
    using range rdy by (auto simp: lhd_ready_def)
  have "nat (uio_offset u div int LHD_SECTSIZE mod 2 ^ 32) = k" using u k by simp
  then have run: "lhd_io hw s = lhd_io_loop hw
      (if uio_rw u = UIO_WRITE then LHD_WORKING OR LHD_ISWRITE else LHD_WORKING) k n s"
    using u lh kn by (simp add: lhd_io_def kprog Let_def)
  show ?thesis
  proof (cases "uio_rw u")
    case UIO_READ
    then show ?thesis
      using working_card.read_range [OF card, of s k n] rdy lh u range run by (auto simp: lhd_after_def)
  next
    case UIO_WRITE
    then show ?thesis
      using working_card.write_range [OF card, of s k n, OF _ _ _ _ _ refl] rdy lh u range run
      by (auto simp: lhd_after_def)
  qed
qed

definition lhd_sample :: "disk lhd_softc io" where
  "lhd_sample = \<lparr>io_uio = mk_kuio (replicate 1024 0) 1024 512 UIO_READ, io_user = user_sample,
                 io_vmspace = None,
                 io_dev = \<lparr>lh_buf = replicate 512 0, lh_result = None, lh_clear = 1, lh_done = 0,
                            lh_blocks = 4, lh_statreg = 0, lh_sectreg = 0,
                            lh_card = \<lparr>dk_nsect = 4, dk_data = (\<lambda>k. replicate 512 (of_nat k))\<rparr>\<rparr>\<rparr>"

theorem lhd_io_range_witness:
  "lhd_ready dk_nsect (io_dev lhd_sample) \<and> kuio_ok (io_uio lhd_sample) \<and>
   (\<exists>t. lhd_io disk_card lhd_sample = Done () t \<and> uio_resid (io_uio t) = 0 \<and>
        kpast (iov_un (io_uio t)) = replicate 512 1 @ replicate 512 2)"
proof -
  have rdy: "lhd_ready dk_nsect (io_dev lhd_sample)"
    by (simp add: lhd_ready_def lhd_sample_def)
  have u: "kuio_ok (io_uio lhd_sample)" "uio_offset (io_uio lhd_sample) = int (1 * LHD_SECTSIZE)"
    "uio_resid (io_uio lhd_sample) = 2 * LHD_SECTSIZE" "uio_rw (io_uio lhd_sample) = UIO_READ"
    by (simp_all add: lhd_sample_def mk_kuio_def kuio_ok_def)
  have range: "1 + 2 \<le> lh_blocks (io_dev lhd_sample)" by (simp add: lhd_sample_def)
  have data: "concat (map (disk_sectors (lh_card (io_dev lhd_sample))) [1..<1 + 2]) =
      replicate 512 1 @ replicate 512 2"
    by (simp add: upt_conv_Cons disk_sectors_def lhd_sample_def fit_sector_id)
  have past: "kpast (iov_un (io_uio lhd_sample)) = []" by (simp add: lhd_sample_def mk_kuio_def)
  show ?thesis
    using lhd_io_range [OF dc.working_card_axioms rdy refl refl u(1,2,3) range] u rdy
    unfolding data by (auto simp: past)
qed

text \<open>
  A write the card reports as a media error gives \<^verbatim>\<open>EIO\<close>, but by then the data has been taken out
  of the descriptor: nothing is left to transfer.
\<close>

lemma lhd_write_media_error:
  assumes "lh_clear (io_dev s) = 1" "lh_done (io_dev s) = 0" "length (lh_buf (io_dev s)) = LHD_SECTSIZE"
    and "block_request k (io_uio s)" and "k < lh_blocks (io_dev s)" and "lh_blocks (io_dev s) * LHD_SECTSIZE < 2 ^ 31"
    and "uio_rw (io_uio s) = UIO_WRITE" and out: "out = take LHD_SECTSIZE (krest (iov_un (io_uio s)))"
    and hw: "hw k True out (lh_card (io_dev s)) = (st, buf', h')" "st AND LHD_STATEMASK = LHD_MEDIA"
  shows "lhd_io hw s = Fail EIO (s\<lparr>io_uio := kuio_advance LHD_SECTSIZE out (io_uio s),
     io_dev := (io_dev s)\<lparr>lh_sectreg := k, lh_statreg := 0, lh_buf := buf', lh_card := h', lh_result := Some EIO\<rparr>\<rparr>)"
proof -
  have "lhd_sector_io hw (LHD_WORKING OR LHD_ISWRITE) k s =
    (let t = s\<lparr>io_uio := kuio_advance LHD_SECTSIZE out (io_uio s),
              io_dev := (io_dev s)\<lparr>lh_sectreg := k, lh_statreg := 0, lh_buf := buf', lh_card := h',
                            lh_result := lhd_code_to_errno st\<rparr>\<rparr>
     in case lhd_code_to_errno st of None \<Rightarrow> Done () t | Some e \<Rightarrow> Fail e t)"
    using assms by (intro lhd_write_sector) (auto simp: block_request_def)
  then show ?thesis
    using lhd_io_block [OF assms(4,5,6), of hw] assms(7) code_to_errno_cases(2) [OF hw(2)] by simp
qed

text \<open>A request for no bytes succeeds and does nothing.\<close>

lemma lhd_io_nothing:
  assumes "uio_resid (io_uio s) = 0" and "uio_offset (io_uio s) = int (k * LHD_SECTSIZE)"
    and "k \<le> lh_blocks (io_dev s)" and "lh_blocks (io_dev s) * LHD_SECTSIZE < 2 ^ 31"
  shows "lhd_io hw s = Done () s"
proof -
  have "k < 2 ^ 32" using assms(3,4) by simp
  then have "nat (uio_offset (io_uio s) div int LHD_SECTSIZE mod 2 ^ 32) = k"
    using assms(2) by simp
  then show ?thesis
    using assms \<open>k < 2 ^ 32\<close> by (simp add: lhd_io_def kprog Let_def)
qed

end
