(* ===== verification/SfsDisk.thy ===== *)
theory SfsDisk
  imports Lhd
begin

text \<open>
  The on-disk structures of SFS (\<^verbatim>\<open>kern/include/kern/sfs.h\<close>) and its block I/O
  (\<^verbatim>\<open>kern/fs/sfs/sfs_io.c\<close>). The code reads and writes the structures as raw memory, so each
  has its byte image here, in the byte order of the machine (big-endian), and the two
  directions are proved inverse to each other. Numbers are \<open>nat\<close>, below \<open>2 ^ 32\<close> or \<open>2 ^ 16\<close> in a
  well-formed structure.
\<close>

abbreviation (input) SFS_MAGIC :: nat where "SFS_MAGIC \<equiv> 0xabadf001"
abbreviation (input) SFS_BLOCKSIZE :: nat where "SFS_BLOCKSIZE \<equiv> 512"
abbreviation (input) SFS_VOLNAME_SIZE :: nat where "SFS_VOLNAME_SIZE \<equiv> 32"
abbreviation (input) SFS_NDIRECT :: nat where "SFS_NDIRECT \<equiv> 15"
abbreviation (input) SFS_DBPERIDB :: nat where "SFS_DBPERIDB \<equiv> 128"
abbreviation (input) SFS_NAMELEN :: nat where "SFS_NAMELEN \<equiv> 60"
abbreviation (input) SFS_SB_LOCATION :: nat where "SFS_SB_LOCATION \<equiv> 0"
abbreviation (input) SFS_ROOT_LOCATION :: nat where "SFS_ROOT_LOCATION \<equiv> 1"
abbreviation (input) SFS_MAP_LOCATION :: nat where "SFS_MAP_LOCATION \<equiv> 2"
abbreviation (input) SFS_NOINO :: nat where "SFS_NOINO \<equiv> 0"
abbreviation (input) SFS_BLOCKBITS :: nat where "SFS_BLOCKBITS \<equiv> 4096"
abbreviation (input) SFS_TYPE_INVAL :: nat where "SFS_TYPE_INVAL \<equiv> 0"
abbreviation (input) SFS_TYPE_FILE :: nat where "SFS_TYPE_FILE \<equiv> 1"
abbreviation (input) SFS_TYPE_DIR :: nat where "SFS_TYPE_DIR \<equiv> 2"

definition SFS_ROUNDUP :: "nat \<Rightarrow> nat \<Rightarrow> nat" where
  "SFS_ROUNDUP a b = ((a + b - 1) mod 2 ^ 32) div b * b"

definition SFS_BITMAPSIZE :: "nat \<Rightarrow> nat" where
  "SFS_BITMAPSIZE nblocks = SFS_ROUNDUP nblocks SFS_BLOCKBITS"

definition SFS_BITBLOCKS :: "nat \<Rightarrow> nat" where
  "SFS_BITBLOCKS nblocks = SFS_BITMAPSIZE nblocks div SFS_BLOCKBITS"

record sfs_super =
  sp_magic :: nat
  sp_nblocks :: nat
  sp_volname :: "byte list"
  sp_reserved :: "nat list"

record sfs_inode =
  sfi_size :: nat
  sfi_type :: nat
  sfi_linkcount :: nat
  sfi_direct :: "nat list"
  sfi_indirect :: nat
  sfi_waste :: "nat list"

record sfs_dir =
  sfd_ino :: nat
  sfd_name :: "byte list"

subsection \<open>Byte images\<close>

fun be :: "nat \<Rightarrow> nat \<Rightarrow> byte list" where
  "be 0 n = []"
| "be (Suc w) n = be w (n div 256) @ [of_nat n]"

definition de :: "byte list \<Rightarrow> nat" where
  "de bs = foldl (\<lambda>n b. n * 256 + unat b) 0 bs"

definition be_words :: "nat list \<Rightarrow> byte list" where
  "be_words ns = concat (map (be 4) ns)"

fun de_words :: "nat \<Rightarrow> byte list \<Rightarrow> nat list" where
  "de_words 0 bs = []"
| "de_words (Suc k) bs = de (take 4 bs) # de_words k (drop 4 bs)"

definition super_bytes :: "sfs_super \<Rightarrow> byte list" where
  "super_bytes sp = be 4 (sp_magic sp) @ be 4 (sp_nblocks sp) @ sp_volname sp @ be_words (sp_reserved sp)"

definition super_of :: "byte list \<Rightarrow> sfs_super" where
  "super_of bs = \<lparr>sp_magic = de (take 4 bs), sp_nblocks = de (take 4 (drop 4 bs)),
     sp_volname = take SFS_VOLNAME_SIZE (drop 8 bs), sp_reserved = de_words 118 (drop 40 bs)\<rparr>"

definition inode_bytes :: "sfs_inode \<Rightarrow> byte list" where
  "inode_bytes i = be 4 (sfi_size i) @ be 2 (sfi_type i) @ be 2 (sfi_linkcount i) @
     be_words (sfi_direct i) @ be 4 (sfi_indirect i) @ be_words (sfi_waste i)"

definition inode_of :: "byte list \<Rightarrow> sfs_inode" where
  "inode_of bs = \<lparr>sfi_size = de (take 4 bs), sfi_type = de (take 2 (drop 4 bs)),
     sfi_linkcount = de (take 2 (drop 6 bs)), sfi_direct = de_words SFS_NDIRECT (drop 8 bs),
     sfi_indirect = de (take 4 (drop 68 bs)), sfi_waste = de_words 110 (drop 72 bs)\<rparr>"

definition dir_bytes :: "sfs_dir \<Rightarrow> byte list" where
  "dir_bytes d = be 4 (sfd_ino d) @ sfd_name d"

definition dir_of :: "byte list \<Rightarrow> sfs_dir" where
  "dir_of bs = \<lparr>sfd_ino = de (take 4 bs), sfd_name = take SFS_NAMELEN (drop 4 bs)\<rparr>"

definition idbuf_of :: "byte list \<Rightarrow> nat list" where
  "idbuf_of bs = de_words SFS_DBPERIDB bs"

text \<open>What fits the fields.\<close>

definition super_wf :: "sfs_super \<Rightarrow> bool" where
  "super_wf sp \<longleftrightarrow> sp_magic sp < 2 ^ 32 \<and> sp_nblocks sp < 2 ^ 32 \<and> length (sp_volname sp) = SFS_VOLNAME_SIZE \<and>
     length (sp_reserved sp) = 118 \<and> (\<forall>n \<in> set (sp_reserved sp). n < 2 ^ 32)"

definition inode_wf :: "sfs_inode \<Rightarrow> bool" where
  "inode_wf i \<longleftrightarrow> sfi_size i < 2 ^ 32 \<and> sfi_type i < 2 ^ 16 \<and> sfi_linkcount i < 2 ^ 16 \<and>
     length (sfi_direct i) = SFS_NDIRECT \<and> (\<forall>n \<in> set (sfi_direct i). n < 2 ^ 32) \<and>
     sfi_indirect i < 2 ^ 32 \<and> length (sfi_waste i) = 110 \<and> (\<forall>n \<in> set (sfi_waste i). n < 2 ^ 32)"

definition dir_wf :: "sfs_dir \<Rightarrow> bool" where
  "dir_wf d \<longleftrightarrow> sfd_ino d < 2 ^ 32 \<and> length (sfd_name d) = SFS_NAMELEN"

lemma be_length [simp]: "length (be w n) = w"
  by (induction w n rule: be.induct) simp_all

lemma be_words_length [simp]: "length (be_words ns) = 4 * length ns"
  by (induction ns) (simp_all add: be_words_def)

lemma de_snoc: "de (bs @ [b]) = de bs * 256 + unat b"
  by (simp add: de_def)

lemma de_Nil [simp]: "de [] = 0"
  by (simp add: de_def)

lemma unat_of_nat_byte: "unat (of_nat n :: byte) = n mod 256"
  by (simp add: unat_of_nat)

lemma unat_byte_less: "unat (b :: byte) < 256"
  using unsigned_less [of b] by simp

lemma de_be: "n < 256 ^ w \<Longrightarrow> de (be w n) = n"
proof (induction w n rule: be.induct)
  case (2 w n)
  then have "n div 256 < 256 ^ w" by (simp add: less_mult_imp_div_less mult.commute)
  with 2 show ?case by (simp add: de_snoc unat_of_nat_byte)
qed simp

lemma de_less: "de bs < 256 ^ length bs"
proof (induction bs rule: rev_induct)
  case (snoc b bs)
  have "unat b < 256" by (rule unat_byte_less)
  moreover have "de bs + 1 \<le> 256 ^ length bs" using snoc by simp
  ultimately show ?case unfolding de_snoc by simp
qed simp

lemma be_de: "be (length bs) (de bs) = bs"
proof (induction bs rule: rev_induct)
  case (snoc b bs)
  have b: "unat b < 256" by (rule unat_byte_less)
  have "unat (of_nat (de bs * 256 + unat b) :: byte) = unat b"
    unfolding unat_of_nat_byte using b by simp
  then have "(of_nat (de bs * 256 + unat b) :: byte) = b" by (rule unsigned_word_eqI)
  with snoc b show ?case by (simp add: de_snoc del: of_nat_add of_nat_mult)
qed simp

lemma de4_less: "length bs = 4 \<Longrightarrow> de bs < 2 ^ 32"
  using de_less [of bs] by simp

lemma be_words_Cons: "be_words (n # ns) = be 4 n @ be_words ns"
  by (simp add: be_words_def)

lemma de_words_be_words:
  "\<forall>n \<in> set ns. n < 2 ^ 32 \<Longrightarrow> de_words (length ns) (be_words ns @ rest) = ns"
  by (induction ns) (simp_all add: be_words_Cons de_be)

lemma be_words_de_words: "4 * k \<le> length bs \<Longrightarrow> be_words (de_words k bs) = take (4 * k) bs"
proof (induction k arbitrary: bs)
  case 0
  then show ?case by (simp add: be_words_def)
next
  case (Suc k)
  then have "be 4 (de (take 4 bs)) = take 4 bs" using be_de [of "take 4 bs"] by simp
  with Suc show ?case by (simp add: be_words_Cons take_add)
qed

lemma de_words_length [simp]: "length (de_words k bs) = k"
  by (induction k arbitrary: bs) simp_all

lemma de_words_less: "4 * k \<le> length bs \<Longrightarrow> n \<in> set (de_words k bs) \<Longrightarrow> n < 2 ^ 32"
proof (induction k arbitrary: bs)
  case (Suc k)
  have "de (take 4 bs) < 2 ^ 32" using Suc.prems(1) by (intro de4_less) simp
  moreover have "n < 2 ^ 32" if "n \<in> set (de_words k (drop 4 bs))"
    using Suc.IH [OF _ that] Suc.prems(1) by simp
  ultimately show ?case using Suc.prems(2) by auto
qed simp

lemma de_words_nth: "i < k \<Longrightarrow> de_words k bs ! i = de (take 4 (drop (4 * i) bs))"
proof (induction k arbitrary: bs i)
  case (Suc k)
  then show ?case by (cases i) (simp_all add: add.commute)
qed simp

lemma inode_of_bytes:
  assumes "inode_wf i"
  shows "inode_of (inode_bytes i) = i"
proof -
  have d: "de_words SFS_NDIRECT (be_words (sfi_direct i) @ r) = sfi_direct i" for r
    using de_words_be_words [of "sfi_direct i" r] assms by (simp add: inode_wf_def)
  have w: "de_words 110 (be_words (sfi_waste i)) = sfi_waste i"
    using de_words_be_words [of "sfi_waste i" "[]"] assms by (simp add: inode_wf_def)
  show ?thesis
    using assms d w by (simp add: inode_of_def inode_bytes_def inode_wf_def de_be)
qed

lemma inode_bytes_of:
  assumes "length bs = SFS_BLOCKSIZE"
  shows "inode_bytes (inode_of bs) = bs"
proof -
  have b4: "be 4 (de (take 4 (drop n bs))) = take 4 (drop n bs)" if "n + 4 \<le> SFS_BLOCKSIZE" for n
    using be_de [of "take 4 (drop n bs)"] that assms by (simp add: min_absorb2)
  have b2: "be 2 (de (take 2 (drop n bs))) = take 2 (drop n bs)" if "n + 2 \<le> SFS_BLOCKSIZE" for n
    using be_de [of "take 2 (drop n bs)"] that assms by (simp add: min_absorb2)
  have "inode_bytes (inode_of bs) = take 4 bs @ take 2 (drop 4 bs) @ take 2 (drop 6 bs) @
      take 60 (drop 8 bs) @ take 4 (drop 68 bs) @ drop 72 bs"
    using assms b4 [of 0] b4 [of 68] b2 [of 4] b2 [of 6]
    by (simp add: inode_bytes_def inode_of_def be_words_de_words)
  also have "\<dots> = bs"
    by (simp add: append_take_drop_id drop_drop flip: append_assoc take_add)
  finally show ?thesis .
qed

lemma super_of_bytes:
  assumes "super_wf sp"
  shows "super_of (super_bytes sp) = sp"
proof -
  have r: "de_words 118 (be_words (sp_reserved sp)) = sp_reserved sp"
    using de_words_be_words [of "sp_reserved sp" "[]"] assms by (simp add: super_wf_def)
  show ?thesis using assms r by (simp add: super_of_def super_bytes_def super_wf_def de_be)
qed

lemma super_bytes_of:
  assumes "length bs = SFS_BLOCKSIZE"
  shows "super_bytes (super_of bs) = bs"
proof -
  have b4: "be 4 (de (take 4 (drop n bs))) = take 4 (drop n bs)" if "n + 4 \<le> SFS_BLOCKSIZE" for n
    using be_de [of "take 4 (drop n bs)"] that assms by (simp add: min_absorb2)
  have "super_bytes (super_of bs) = take 4 bs @ take 4 (drop 4 bs) @ take 32 (drop 8 bs) @ drop 40 bs"
    using assms b4 [of 0] b4 [of 4] by (simp add: super_bytes_def super_of_def be_words_de_words)
  also have "\<dots> = bs"
    by (simp add: append_take_drop_id drop_drop flip: append_assoc take_add)
  finally show ?thesis .
qed

lemma dir_of_bytes: "dir_wf d \<Longrightarrow> dir_of (dir_bytes d) = d"
  by (simp add: dir_of_def dir_bytes_def dir_wf_def de_be)

lemma dir_bytes_of: "length bs = 64 \<Longrightarrow> dir_bytes (dir_of bs) = bs"
  using be_de [of "take 4 bs"] by (simp add: dir_of_def dir_bytes_def)

lemma inode_of_wf: "length bs = SFS_BLOCKSIZE \<Longrightarrow> inode_wf (inode_of bs)"
  using de_less [of "take 4 bs"] de_less [of "take 2 (drop 4 bs)"] de_less [of "take 2 (drop 6 bs)"]
    de_less [of "take 4 (drop 68 bs)"] de_words_less [of SFS_NDIRECT "drop 8 bs"]
    de_words_less [of 110 "drop 72 bs"]
  by (simp add: inode_wf_def inode_of_def)

lemma super_of_wf: "length bs = SFS_BLOCKSIZE \<Longrightarrow> super_wf (super_of bs)"
  using de_less [of "take 4 bs"] de_less [of "take 4 (drop 4 bs)"] de_words_less [of 118 "drop 40 bs"]
  by (simp add: super_wf_def super_of_def)

lemma dir_of_wf: "length bs = 64 \<Longrightarrow> dir_wf (dir_of bs)"
  using de_less [of "take 4 bs"] by (simp add: dir_wf_def dir_of_def)

lemma bytes_length:
  "inode_wf i \<Longrightarrow> length (inode_bytes i) = SFS_BLOCKSIZE" "super_wf sp \<Longrightarrow> length (super_bytes sp) = SFS_BLOCKSIZE"
  "dir_wf d \<Longrightarrow> length (dir_bytes d) = 64"
  by (simp_all add: inode_bytes_def inode_wf_def super_bytes_def super_wf_def dir_bytes_def dir_wf_def)



subsection \<open>Block I/O\<close>

text \<open>The retry loop of \<^verbatim>\<open>sfs_rwblock\<close>: at most ten retries of an \<^verbatim>\<open>EIO\<close>.\<close>

function sfs_rwblock_try :: "('d io, unit) prog \<Rightarrow> nat \<Rightarrow> ('d io, unit) prog" where
  "sfs_rwblock_try d_io tries =
     kbind (kcatch d_io) (\<lambda>result.
     case result of
       Inr _ \<Rightarrow> kret ()
     | Inl e \<Rightarrow>
         if e = EINVAL then kpanic ''sfs: d_io returned EINVAL''
         else if e = EIO \<and> tries < 10 then sfs_rwblock_try d_io (tries + 1)
         else kfail e)"
  by pat_completeness auto
termination
  by (relation "measure (\<lambda>(d_io, tries). 10 - tries)") auto

definition sfs_rwblock :: "('d io, unit) prog \<Rightarrow> ('d io, unit) prog" where
  "sfs_rwblock d_io = sfs_rwblock_try d_io 0"

text \<open>A local descriptor: the caller's one is put aside and comes back on every exit.\<close>

definition with_kuio :: "uio \<Rightarrow> ('d io, unit) prog \<Rightarrow> ('d io, uio) prog" where
  "with_kuio ku m = (\<lambda>s. case m (s\<lparr>io_uio := ku\<rparr>) of
       Done _ t \<Rightarrow> Done (io_uio t) (t\<lparr>io_uio := io_uio s\<rparr>)
     | Fail e t \<Rightarrow> Fail e (t\<lparr>io_uio := io_uio s\<rparr>)
     | Panic p \<Rightarrow> Panic p)"

definition SFSUIO :: "byte list \<Rightarrow> nat \<Rightarrow> uio_rw \<Rightarrow> uio" where
  "SFSUIO ptr block rw = mk_kuio ptr SFS_BLOCKSIZE (wrap32 (wrap32 (int block) * int SFS_BLOCKSIZE)) rw"

text \<open>
  \<open>sfs_rblock\<close> returns what the caller's buffer holds afterwards; what it held before, zeros here,
  is overwritten by a complete transfer.
\<close>

definition sfs_rblock :: "('d io, unit) prog \<Rightarrow> nat \<Rightarrow> ('d io, byte list) prog" where
  "sfs_rblock d_io block =
     kbind (with_kuio (SFSUIO (replicate SFS_BLOCKSIZE 0) block UIO_READ) (sfs_rwblock d_io)) (\<lambda>ku.
     kret (kpast (iov_un ku) @ krest (iov_un ku)))"

definition sfs_wblock :: "('d io, unit) prog \<Rightarrow> byte list \<Rightarrow> nat \<Rightarrow> ('d io, unit) prog" where
  "sfs_wblock d_io data block =
     kbind (with_kuio (SFSUIO data block UIO_WRITE) (sfs_rwblock d_io)) (\<lambda>_. kret ())"

declare sfs_rwblock_try.simps [simp del]

lemma sfs_rwblock_Done: "d_io s = Done () t \<Longrightarrow> sfs_rwblock d_io s = Done () t"
  by (simp add: sfs_rwblock_def sfs_rwblock_try.simps [of d_io 0] kprog)

lemma SFSUIO_request:
  assumes "length ptr = SFS_BLOCKSIZE" and "k * SFS_BLOCKSIZE + SFS_BLOCKSIZE < 2 ^ 31"
  shows "block_request k (SFSUIO ptr k rw)"
proof -
  have "wrap32 (int k) = int k" using assms(2) by (intro wrap32_id) auto
  moreover have "wrap32 (int k * 512) = int k * 512" using assms(2) by (intro wrap32_id) auto
  ultimately show ?thesis
    using assms by (simp add: block_request_def SFSUIO_def mk_kuio_def kuio_ok_def)
qed

context block_device begin

lemma rblock:
  assumes "ready (io_dev s)" and "k < d_blocks (io_dev s)"
  shows "\<exists>d. sfs_rblock d_io k s = Done (sectors (io_dev s) k) (s\<lparr>io_dev := d\<rparr>) \<and>
     ready d \<and> d_blocks d = d_blocks (io_dev s) \<and> sectors d = sectors (io_dev s)"
proof -
  let ?ku = "SFSUIO (replicate SFS_BLOCKSIZE 0) k UIO_READ"
  let ?t = "s\<lparr>io_uio := ?ku\<rparr>"
  have "k * SFS_BLOCKSIZE + SFS_BLOCKSIZE < 2 ^ 31" using blocks_bound [OF assms(1)] assms(2) by simp
  then have req: "block_request k (io_uio ?t)" by (simp add: SFSUIO_request)
  have dev: "io_dev ?t = io_dev s" by simp
  have rw: "uio_rw (io_uio ?t) = UIO_READ" by (simp add: SFSUIO_def mk_kuio_def)
  obtain d where d: "d_io ?t = Done () (?t\<lparr>io_uio := kuio_advance SFS_BLOCKSIZE (sectors (io_dev s) k) ?ku, io_dev := d\<rparr>)"
    "ready d" "d_blocks d = d_blocks (io_dev s)" "sectors d = sectors (io_dev s)"
    using read_law [of ?t k] assms req rw by auto
  have "iov_un ?ku = Kbase [] (replicate SFS_BLOCKSIZE 0)" by (simp add: SFSUIO_def mk_kuio_def)
  then have "sfs_rblock d_io k s = Done (sectors (io_dev s) k) (s\<lparr>io_dev := d\<rparr>)"
    using sfs_rwblock_Done [of d_io ?t] d(1) by (simp add: sfs_rblock_def with_kuio_def kprog)
  with d show ?thesis by blast
qed

lemma wblock:
  assumes "ready (io_dev s)" and "k < d_blocks (io_dev s)" and "length data = SFS_BLOCKSIZE"
  shows "\<exists>d. sfs_wblock d_io data k s = Done () (s\<lparr>io_dev := d\<rparr>) \<and>
     ready d \<and> d_blocks d = d_blocks (io_dev s) \<and> sectors d = (sectors (io_dev s))(k := data)"
proof -
  let ?ku = "SFSUIO data k UIO_WRITE"
  let ?t = "s\<lparr>io_uio := ?ku\<rparr>"
  have "k * SFS_BLOCKSIZE + SFS_BLOCKSIZE < 2 ^ 31" using blocks_bound [OF assms(1)] assms(2) by simp
  then have req: "block_request k (io_uio ?t)" using assms(3) by (simp add: SFSUIO_request)
  have rw: "uio_rw (io_uio ?t) = UIO_WRITE" by (simp add: SFSUIO_def mk_kuio_def)
  have data: "take SFS_BLOCKSIZE (krest (iov_un ?ku)) = data" using assms(3) by (simp add: SFSUIO_def mk_kuio_def)
  obtain d where d: "d_io ?t = Done () (?t\<lparr>io_uio := kuio_advance SFS_BLOCKSIZE data ?ku, io_dev := d\<rparr>)"
    "ready d" "d_blocks d = d_blocks (io_dev s)" "sectors d = (sectors (io_dev s))(k := data)"
    using write_law [of ?t k] assms req rw data by (auto simp: Let_def)
  have "sfs_wblock d_io data k s = Done () (s\<lparr>io_dev := d\<rparr>)"
    using sfs_rwblock_Done [of d_io ?t] d(1) by (simp add: sfs_wblock_def with_kuio_def kprog)
  with d show ?thesis by blast
qed

end

text \<open>
  C8. A failed block write is reported as a success. When the card gives a media error, the
  write is retried, but the first attempt has consumed the descriptor; the retry asks the
  driver for no bytes, which succeeds. \<^verbatim>\<open>sfs_wblock\<close> then reports success, and the card is left
  as the failed operation left it.
\<close>

theorem sfs_wblock_lost_write:
  assumes lh: "lh_clear (io_dev s) = 1" "lh_done (io_dev s) = 0" "length (lh_buf (io_dev s)) = LHD_SECTSIZE"
    and k: "k < lh_blocks (io_dev s)" and size: "lh_blocks (io_dev s) * LHD_SECTSIZE < 2 ^ 31"
    and data: "length data = SFS_BLOCKSIZE"
    and hw: "hw k True data (lh_card (io_dev s)) = (st, buf', h')" "st AND LHD_STATEMASK = LHD_MEDIA"
  shows "\<exists>d. sfs_wblock (lhd_io hw) data k s = Done () (s\<lparr>io_dev := d\<rparr>) \<and> lh_card d = h'"
proof -
  let ?ku = "SFSUIO data k UIO_WRITE"
  let ?t = "s\<lparr>io_uio := ?ku\<rparr>"
  let ?d = "(io_dev s)\<lparr>lh_sectreg := k, lh_statreg := 0, lh_buf := buf', lh_card := h', lh_result := Some EIO\<rparr>"
  let ?f = "?t\<lparr>io_uio := kuio_advance LHD_SECTSIZE data ?ku, io_dev := ?d\<rparr>"
  have req: "block_request k ?ku" using k size data by (intro SFSUIO_request) auto
  have rw: "uio_rw ?ku = UIO_WRITE" and rest: "krest (iov_un ?ku) = data"
    by (simp_all add: SFSUIO_def mk_kuio_def)
  have first: "lhd_io hw ?t = Fail EIO ?f"
    using lhd_write_media_error [of ?t k data hw st buf' h'] lh k size data hw req rw rest by simp
  have again: "lhd_io hw ?f = Done () ?f"
    using req k size by (intro lhd_io_nothing [of _ "k + 1"]) (auto simp: block_request_def)
  have "sfs_rwblock (lhd_io hw) ?t = Done () ?f"
    unfolding sfs_rwblock_def sfs_rwblock_try.simps [of "lhd_io hw" 0] sfs_rwblock_try.simps [of "lhd_io hw" "0 + 1"]
    using first again by (simp add: kprog)
  then show ?thesis by (intro exI [of _ ?d]) (simp add: sfs_wblock_def with_kuio_def kprog)
qed

definition broken_card :: "disk lhd_hw" where
  "broken_card k iswrite buf h = (LHD_MEDIA, buf, h)"

theorem sfs_wblock_lost_write_witness:
  "\<exists>d. sfs_wblock (lhd_io broken_card) (replicate 512 7) 2 lhd_sample = Done () (lhd_sample\<lparr>io_dev := d\<rparr>) \<and>
     disk_sectors (lh_card d) 2 = replicate 512 2"
proof -
  have "\<exists>d. sfs_wblock (lhd_io broken_card) (replicate 512 7) 2 lhd_sample = Done () (lhd_sample\<lparr>io_dev := d\<rparr>) \<and>
      lh_card d = lh_card (io_dev lhd_sample)"
    by (rule sfs_wblock_lost_write [where st = LHD_MEDIA and buf' = "replicate 512 7"])
       (simp_all add: lhd_sample_def broken_card_def lhd_codes)
  then show ?thesis by (auto simp: lhd_sample_def disk_sectors_def fit_sector_id)
qed

end
