(* ===== verification/SfsFile.thy ===== *)
theory SfsFile
  imports SfsDisk Bitmap DynArray
begin

text \<open>
  Files of SFS: the block allocator, the block map of an inode and reading and writing
  (the first half of \<^verbatim>\<open>kern/fs/sfs/sfs_vnode.c\<close>). The state \<open>sfs\<close> is the \<^verbatim>\<open>struct sfs_fs\<close> together
  with the vnodes in memory, addressed by pointers, and the I/O state. The static buffers of
  the code are always filled before they are used and are local here. \<open>d_io\<close> is the I/O entry
  point of the device.
\<close>

datatype sfs_ops = Sfs_fileops | Sfs_dirops

record sfs_vnode =
  sv_i :: sfs_inode
  sv_ino :: nat
  sv_dirty :: bool
  vn_refcount :: int
  vn_opencount :: int
  vn_ops :: sfs_ops

record 'd sfs =
  s_super :: sfs_super
  s_superdirty :: bool
  s_vnodes :: "nat array"
  s_freemap :: bitmap
  s_freemapdirty :: bool
  s_heap :: "nat \<Rightarrow> sfs_vnode option"
  s_brk :: nat
  s_io :: "'d io"

definition on_io :: "('d io, 'a) prog \<Rightarrow> ('d sfs, 'a) prog" where
  "on_io = kzoom s_io (\<lambda>x s. s\<lparr>s_io := x\<rparr>)"

definition on_freemap :: "(bitmap, 'a) prog \<Rightarrow> ('d sfs, 'a) prog" where
  "on_freemap = kzoom s_freemap (\<lambda>x s. s\<lparr>s_freemap := x\<rparr>)"

definition get_sv :: "nat \<Rightarrow> ('d sfs, sfs_vnode) prog" where
  "get_sv p = kbind (kget (\<lambda>s. s_heap s p)) kderef"

definition put_sv :: "nat \<Rightarrow> sfs_vnode \<Rightarrow> ('d sfs, unit) prog" where
  "put_sv p sv = kmod (\<lambda>s. s\<lparr>s_heap := (s_heap s)(p \<mapsto> sv)\<rparr>)"

definition mod_sv :: "nat \<Rightarrow> (sfs_vnode \<Rightarrow> sfs_vnode) \<Rightarrow> ('d sfs, unit) prog" where
  "mod_sv p f = kbind (get_sv p) (\<lambda>sv. put_sv p (f sv))"

subsection \<open>Simple stuff and space allocation\<close>

definition sfs_clearblock :: "('d io, unit) prog \<Rightarrow> nat \<Rightarrow> ('d sfs, unit) prog" where
  "sfs_clearblock d_io block = on_io (sfs_wblock d_io (replicate SFS_BLOCKSIZE 0) block)"

definition sfs_sync_inode :: "('d io, unit) prog \<Rightarrow> nat \<Rightarrow> ('d sfs, unit) prog" where
  "sfs_sync_inode d_io p =
     kbind (get_sv p) (\<lambda>sv.
     if sv_dirty sv
     then kthen (on_io (sfs_wblock d_io (inode_bytes (sv_i sv)) (sv_ino sv)))
          (mod_sv p (\<lambda>sv. sv\<lparr>sv_dirty := False\<rparr>))
     else kret ())"

definition sfs_balloc :: "('d io, unit) prog \<Rightarrow> ('d sfs, nat) prog" where
  "sfs_balloc d_io =
     kbind (on_freemap bitmap_alloc) (\<lambda>diskblock.
     kthen (kmod (\<lambda>s. s\<lparr>s_freemapdirty := True\<rparr>))
     (kbind (kget (sp_nblocks \<circ> s_super)) (\<lambda>nblocks.
      if diskblock \<ge> nblocks then kpanic ''sfs: balloc: invalid block''
      else kthen (sfs_clearblock d_io diskblock) (kret diskblock))))"

definition sfs_bfree :: "nat \<Rightarrow> ('d sfs, unit) prog" where
  "sfs_bfree diskblock =
     kthen (on_freemap (bitmap_unmark diskblock)) (kmod (\<lambda>s. s\<lparr>s_freemapdirty := True\<rparr>))"

definition sfs_bused :: "nat \<Rightarrow> ('d sfs, bool) prog" where
  "sfs_bused diskblock =
     kbind (kget (sp_nblocks \<circ> s_super)) (\<lambda>nblocks.
     if diskblock \<ge> nblocks then kpanic ''sfs: sfs_bused called on out of range block''
     else on_freemap (bitmap_isset diskblock))"

subsection \<open>Block mapping\<close>

text \<open>The check both branches of \<^verbatim>\<open>sfs_bmap\<close> end with.\<close>

definition sfs_handback :: "nat \<Rightarrow> ('d sfs, nat) prog" where
  "sfs_handback block =
     (if block \<noteq> 0
      then kbind (sfs_bused block) (\<lambda>used.
           if used then kret block else kpanic ''sfs: Data block marked free'')
      else kret block)"

definition sfs_bmap_direct :: "('d io, unit) prog \<Rightarrow> nat \<Rightarrow> nat \<Rightarrow> bool \<Rightarrow> ('d sfs, nat) prog" where
  "sfs_bmap_direct d_io p fileblock doalloc =
     kbind (get_sv p) (\<lambda>sv.
     kbind (knth (sfi_direct (sv_i sv)) fileblock) (\<lambda>block.
     kbind (if block = 0 \<and> doalloc
            then kbind (sfs_balloc d_io) (\<lambda>block.
                 kthen (mod_sv p (\<lambda>sv. sv\<lparr>sv_i := (sv_i sv)\<lparr>sfi_direct := (sfi_direct (sv_i sv))[fileblock := block]\<rparr>,
                                          sv_dirty := True\<rparr>))
                 (kret block))
            else kret block)
     sfs_handback))"

text \<open>The second half of the indirect case: \<open>idbuf\<close> is the indirect block \<open>idblock\<close> as loaded.\<close>

definition sfs_bmap_entry :: "('d io, unit) prog \<Rightarrow> nat \<Rightarrow> nat list \<Rightarrow> nat \<Rightarrow> bool \<Rightarrow> ('d sfs, nat) prog" where
  "sfs_bmap_entry d_io idblock idbuf idoff doalloc =
     kbind (knth idbuf idoff) (\<lambda>block.
     kbind (if block = 0 \<and> doalloc
            then kbind (sfs_balloc d_io) (\<lambda>block.
                 kthen (on_io (sfs_wblock d_io (be_words (idbuf[idoff := block])) idblock))
                 (kret block))
            else kret block)
     sfs_handback)"

definition sfs_bmap :: "('d io, unit) prog \<Rightarrow> nat \<Rightarrow> nat \<Rightarrow> bool \<Rightarrow> ('d sfs, nat) prog" where
  "sfs_bmap d_io p fileblock doalloc =
     (if fileblock < SFS_NDIRECT then sfs_bmap_direct d_io p fileblock doalloc
      else let fileblock = fileblock - SFS_NDIRECT;
               idnum = fileblock div SFS_DBPERIDB;
               idoff = fileblock mod SFS_DBPERIDB
           in if idnum > 0 then kfail EINVAL
              else kbind (get_sv p) (\<lambda>sv.
                   let idblock = sfi_indirect (sv_i sv) in
                   if idblock = 0 \<and> \<not> doalloc then kret 0
                   else if idblock = 0
                   then kbind (sfs_balloc d_io) (\<lambda>idblock.
                        kthen (mod_sv p (\<lambda>sv. sv\<lparr>sv_i := (sv_i sv)\<lparr>sfi_indirect := idblock\<rparr>, sv_dirty := True\<rparr>))
                        (sfs_bmap_entry d_io idblock (replicate SFS_DBPERIDB 0) idoff doalloc))
                   else kbind (on_io (sfs_rblock d_io idblock)) (\<lambda>buf.
                        sfs_bmap_entry d_io idblock (idbuf_of buf) idoff doalloc)))"

subsection \<open>File-level I/O\<close>

definition get_uio :: "('d sfs, uio) prog" where
  "get_uio = kget (io_uio \<circ> s_io)"

definition set_uio :: "(uio \<Rightarrow> uio) \<Rightarrow> ('d sfs, unit) prog" where
  "set_uio f = kmod (\<lambda>s. s\<lparr>s_io := (s_io s)\<lparr>io_uio := f (io_uio (s_io s))\<rparr>\<rparr>)"

text \<open>\<^verbatim>\<open>uio->uio_offset / SFS_BLOCKSIZE\<close> as a \<^verbatim>\<open>u_int32_t\<close>.\<close>

definition uio_fileblock :: "uio \<Rightarrow> nat" where
  "uio_fileblock u = nat (uio_offset u div int SFS_BLOCKSIZE mod 2 ^ 32)"

definition sfs_partialio :: "('d io, unit) prog \<Rightarrow> nat \<Rightarrow> nat \<Rightarrow> nat \<Rightarrow> ('d sfs, unit) prog" where
  "sfs_partialio d_io p skipstart len =
     kbind get_uio (\<lambda>u.
     let doalloc = (uio_rw u = UIO_WRITE) in
     kthen (kassert (skipstart + len \<le> SFS_BLOCKSIZE))
     (kbind (sfs_bmap d_io p (uio_fileblock u) doalloc) (\<lambda>diskblock.
      kbind (if diskblock = 0
             then kthen (kassert (uio_rw u = UIO_READ)) (kret (replicate SFS_BLOCKSIZE 0))
             else on_io (sfs_rblock d_io diskblock)) (\<lambda>iobuf.
      kbind (on_io (uiomove (drop skipstart iobuf) len)) (\<lambda>part.
      if uio_rw u = UIO_WRITE
      then on_io (sfs_wblock d_io (take skipstart iobuf @ part) diskblock)
      else kret ())))))"

text \<open>The mapped case of \<^verbatim>\<open>sfs_blockio\<close>: the request to the device, straight into the caller's region.\<close>

definition sfs_blockio_disk :: "('d io, unit) prog \<Rightarrow> nat \<Rightarrow> ('d sfs, unit) prog" where
  "sfs_blockio_disk d_io diskblock =
     kbind get_uio (\<lambda>u.
     let saveoff = uio_offset u;
         diskoff = wrap32 (int diskblock * int SFS_BLOCKSIZE);
         saveres = uio_resid u
     in kthen (set_uio (\<lambda>u. u\<lparr>uio_offset := diskoff\<rparr>))
        (kthen (kassert (SFS_BLOCKSIZE \<le> saveres))
        (kthen (set_uio (\<lambda>u. u\<lparr>uio_resid := SFS_BLOCKSIZE\<rparr>))
        (kbind (kcatch (on_io (sfs_rwblock d_io))) (\<lambda>result.
         kthen (set_uio (\<lambda>u. u\<lparr>uio_offset := wrap32 ((uio_offset u - diskoff) + saveoff),
                               uio_resid := (uio_resid u + saveres + 2 ^ 32 - SFS_BLOCKSIZE) mod 2 ^ 32\<rparr>))
         (case result of Inl e \<Rightarrow> kfail e | Inr _ \<Rightarrow> kret ()))))))"

definition sfs_blockio :: "('d io, unit) prog \<Rightarrow> nat \<Rightarrow> ('d sfs, unit) prog" where
  "sfs_blockio d_io p =
     kbind get_uio (\<lambda>u.
     let doalloc = (uio_rw u = UIO_WRITE) in
     kbind (sfs_bmap d_io p (uio_fileblock u) doalloc) (\<lambda>diskblock.
     if diskblock = 0
     then kthen (kassert (uio_rw u = UIO_READ)) (on_io (uiomovezeros SFS_BLOCKSIZE))
     else sfs_blockio_disk d_io diskblock))"

fun sfs_blocksio :: "('d io, unit) prog \<Rightarrow> nat \<Rightarrow> nat \<Rightarrow> ('d sfs, unit) prog" where
  "sfs_blocksio d_io p 0 = kret ()"
| "sfs_blocksio d_io p (Suc n) = kthen (sfs_blockio d_io p) (sfs_blocksio d_io p n)"

text \<open>
  The transfer proper of \<^verbatim>\<open>sfs_io\<close>, up to the label \<^verbatim>\<open>out\<close>: a leading partial block, whole blocks, a
  trailing partial block.
\<close>

definition sfs_io_last :: "('d io, unit) prog \<Rightarrow> nat \<Rightarrow> ('d sfs, unit) prog" where
  "sfs_io_last d_io p =
     kbind get_uio (\<lambda>u.
     kthen (kassert (uio_resid u < SFS_BLOCKSIZE))
     (if uio_resid u > 0 then sfs_partialio d_io p 0 (uio_resid u) else kret ()))"

definition sfs_io_tail :: "('d io, unit) prog \<Rightarrow> nat \<Rightarrow> ('d sfs, unit) prog" where
  "sfs_io_tail d_io p =
     kbind get_uio (\<lambda>u.
     if uio_resid u = 0 then kret ()
     else kthen (kassert (uio_offset u mod int SFS_BLOCKSIZE = 0))
          (kthen (sfs_blocksio d_io p (uio_resid u div SFS_BLOCKSIZE)) (sfs_io_last d_io p)))"

definition sfs_io_body :: "('d io, unit) prog \<Rightarrow> nat \<Rightarrow> ('d sfs, unit) prog" where
  "sfs_io_body d_io p =
     kbind get_uio (\<lambda>u.
     let blkoff = nat (uio_offset u mod int SFS_BLOCKSIZE) in
     kthen (if blkoff \<noteq> 0
            then sfs_partialio d_io p blkoff (min (SFS_BLOCKSIZE - blkoff) (uio_resid u))
            else kret ())
     (sfs_io_tail d_io p))"

text \<open>
  The end of \<^verbatim>\<open>sfs_io\<close>, from the label \<^verbatim>\<open>out\<close>: a write that has gone past the end of the file moves the end,
  and what a read was trimmed by is put back.
\<close>

definition sfs_io_out :: "nat \<Rightarrow> nat \<Rightarrow> errno + unit \<Rightarrow> ('d sfs, unit) prog" where
  "sfs_io_out p extraresid result =
     kbind get_uio (\<lambda>u.
     kbind (get_sv p) (\<lambda>sv.
     kthen (if uio_rw u = UIO_WRITE \<and> uio_offset u > wrap32 (int (sfi_size (sv_i sv)))
            then mod_sv p (\<lambda>sv. sv\<lparr>sv_i := (sv_i sv)\<lparr>sfi_size := nat (uio_offset u mod 2 ^ 32)\<rparr>,
                                   sv_dirty := True\<rparr>)
            else kret ())
     (kthen (set_uio (\<lambda>u. u\<lparr>uio_resid := (uio_resid u + extraresid) mod 2 ^ 32\<rparr>))
     (case result of Inl e \<Rightarrow> kfail e | Inr _ \<Rightarrow> kret ()))))"

text \<open>
  \<open>sfs_io\<close>. For a read past the end \<^verbatim>\<open>uio_resid\<close> is cut by \<^verbatim>\<open>extraresid\<close> and restored at the label
  \<^verbatim>\<open>out\<close>, which every exit of the transfer passes through.
\<close>

definition sfs_io :: "('d io, unit) prog \<Rightarrow> nat \<Rightarrow> ('d sfs, unit) prog" where
  "sfs_io d_io p =
     kbind get_uio (\<lambda>u.
     kbind (get_sv p) (\<lambda>sv.
     let fsize = wrap32 (int (sfi_size (sv_i sv)));
         endpos = wrap32 (uio_offset u + int (uio_resid u))
     in if uio_rw u = UIO_READ \<and> uio_offset u \<ge> fsize then kret ()
        else let extraresid = (if uio_rw u = UIO_READ \<and> endpos > fsize then nat (endpos - fsize) else 0)
             in kthen (kassert (extraresid = 0 \<or> uio_resid u > extraresid))
                (kthen (set_uio (\<lambda>u. u\<lparr>uio_resid := uio_resid u - extraresid\<rparr>))
                (kbind (kcatch (sfs_io_body d_io p)) (sfs_io_out p extraresid)))))"

subsection \<open>What a file is\<close>

text \<open>The blocks of an inode, given the contents of the disk: where a file block is, and all of them.\<close>

definition fmap :: "(nat \<Rightarrow> byte list) \<Rightarrow> sfs_inode \<Rightarrow> nat \<Rightarrow> nat" where
  "fmap secs i fb =
     (if fb < SFS_NDIRECT then sfi_direct i ! fb
      else if fb < SFS_NDIRECT + SFS_DBPERIDB \<and> sfi_indirect i \<noteq> 0
      then idbuf_of (secs (sfi_indirect i)) ! (fb - SFS_NDIRECT)
      else 0)"

definition fblocks :: "(nat \<Rightarrow> byte list) \<Rightarrow> sfs_inode \<Rightarrow> nat list" where
  "fblocks secs i = filter (\<lambda>b. b \<noteq> 0)
     (sfi_direct i @ sfi_indirect i # (if sfi_indirect i = 0 then [] else idbuf_of (secs (sfi_indirect i))))"

text \<open>The contents of a file block: a hole reads as zeros.\<close>

definition fdata :: "(nat \<Rightarrow> byte list) \<Rightarrow> sfs_inode \<Rightarrow> nat \<Rightarrow> byte list" where
  "fdata secs i fb = (if fmap secs i fb = 0 then replicate SFS_BLOCKSIZE 0 else secs (fmap secs i fb))"

text \<open>No block appears twice, and all are inside the file system and marked in use.\<close>

definition inode_ok :: "(nat \<Rightarrow> byte list) \<Rightarrow> nat \<Rightarrow> nat set \<Rightarrow> sfs_inode \<Rightarrow> bool" where
  "inode_ok secs nblocks used i \<longleftrightarrow> inode_wf i \<and> distinct (fblocks secs i) \<and>
     (\<forall>b \<in> set (fblocks secs i). b < nblocks \<and> b \<in> used)"

abbreviation (input) nblocks_of :: "'d sfs \<Rightarrow> nat" where "nblocks_of s \<equiv> sp_nblocks (s_super s)"
abbreviation (input) used_of :: "'d sfs \<Rightarrow> nat set" where "used_of s \<equiv> bm_set (s_freemap s)"
abbreviation (input) dev_of :: "'d sfs \<Rightarrow> 'd" where "dev_of s \<equiv> io_dev (s_io s)"
abbreviation (input) uio_of :: "'d sfs \<Rightarrow> uio" where "uio_of s \<equiv> io_uio (s_io s)"
abbreviation (input) inode_at :: "nat \<Rightarrow> 'd sfs \<Rightarrow> sfs_inode" where
  "inode_at p s \<equiv> sv_i (the (s_heap s p))"

text \<open>
  The file system as a whole: the device is ready and big enough, the free map is well
  formed, and block 0 and the blocks past the end are marked in it.
\<close>

definition sfs_ok :: "('d \<Rightarrow> nat) \<Rightarrow> ('d \<Rightarrow> bool) \<Rightarrow> 'd sfs \<Rightarrow> bool" where
  "sfs_ok d_blocks ready s \<longleftrightarrow> ready (dev_of s) \<and> bm_ok (s_freemap s) \<and>
     nblocks_of s \<le> bm_nbits (s_freemap s) \<and> nblocks_of s \<le> d_blocks (dev_of s) \<and>
     {nblocks_of s..<bm_nbits (s_freemap s)} \<subseteq> used_of s \<and> 0 \<in> used_of s"

definition file_ok :: "(nat \<Rightarrow> byte list) \<Rightarrow> nat \<Rightarrow> 'd sfs \<Rightarrow> bool" where
  "file_ok secs p s \<longleftrightarrow> s_heap s p \<noteq> None \<and> inode_ok secs (nblocks_of s) (used_of s) (inode_at p s)"

text \<open>
  What working on the file at \<open>p\<close> may change: its own blocks and blocks that were free. Every
  block it takes is a block of the file afterwards, so none is lost.
\<close>

definition sfs_frame :: "'d sfs \<Rightarrow> 'd sfs \<Rightarrow> bool" where
  "sfs_frame s t \<longleftrightarrow> s_super t = s_super s \<and> s_superdirty t = s_superdirty s \<and> s_vnodes t = s_vnodes s \<and>
     s_brk t = s_brk s \<and> io_vmspace (s_io t) = io_vmspace (s_io s) \<and> bm_nbits (s_freemap t) = bm_nbits (s_freemap s)"

text \<open>An inode in memory that has been changed is marked dirty.\<close>

definition sv_frame :: "sfs_vnode \<Rightarrow> sfs_vnode \<Rightarrow> bool" where
  "sv_frame sv sw \<longleftrightarrow> sv_ino sw = sv_ino sv \<and> vn_refcount sw = vn_refcount sv \<and> vn_opencount sw = vn_opencount sv \<and>
     vn_ops sw = vn_ops sv \<and> sfi_type (sv_i sw) = sfi_type (sv_i sv) \<and>
     sfi_linkcount (sv_i sw) = sfi_linkcount (sv_i sv) \<and> (sv_dirty sv \<longrightarrow> sv_dirty sw) \<and> (sv_dirty sw \<or> sv_i sw = sv_i sv)"

definition grows :: "nat set \<Rightarrow> nat set \<Rightarrow> (nat \<Rightarrow> byte list) \<Rightarrow> nat set \<Rightarrow> nat set \<Rightarrow> (nat \<Rightarrow> byte list) \<Rightarrow> bool" where
  "grows F U S F' U' S' \<longleftrightarrow> F \<subseteq> F' \<and> U' = U \<union> F' \<and> F' \<inter> U \<subseteq> F \<and> (\<forall>c \<in> U - F. S' c = S c)"

definition file_rel :: "('d \<Rightarrow> nat \<Rightarrow> byte list) \<Rightarrow> nat \<Rightarrow> 'd sfs \<Rightarrow> 'd sfs \<Rightarrow> bool" where
  "file_rel sectors p s t \<longleftrightarrow> sfs_frame s t \<and> file_ok (sectors (dev_of t)) p t \<and>
     (\<forall>q. q \<noteq> p \<longrightarrow> s_heap t q = s_heap s q) \<and> sv_frame (the (s_heap s p)) (the (s_heap t p)) \<and>
     grows (set (fblocks (sectors (dev_of s)) (inode_at p s))) (used_of s) (sectors (dev_of s))
       (set (fblocks (sectors (dev_of t)) (inode_at p t))) (used_of t) (sectors (dev_of t))"

lemma grows_trans: "grows F U S F' U' S' \<Longrightarrow> grows F' U' S' F'' U'' S'' \<Longrightarrow> grows F U S F'' U'' S''"
proof -
  assume a: "grows F U S F' U' S'" and b: "grows F' U' S' F'' U'' S''"
  have 1: "F \<subseteq> F'" "U' = U \<union> F'" "F' \<inter> U \<subseteq> F" "\<forall>c \<in> U - F. S' c = S c"
    and 2: "F' \<subseteq> F''" "U'' = U' \<union> F''" "F'' \<inter> U' \<subseteq> F'" "\<forall>c \<in> U' - F'. S'' c = S' c"
    using a b unfolding grows_def by metis+
  have "S'' c = S c" if "c \<in> U - F" for c
  proof -
    have "c \<in> U' - F'" using that 1 by blast
    with 1(4) 2(4) that show ?thesis by simp
  qed
  then show ?thesis unfolding grows_def using 1(1-3) 2(1-3) by blast
qed

lemma sfs_frame_trans: "sfs_frame s t \<Longrightarrow> sfs_frame t u \<Longrightarrow> sfs_frame s u"
  by (simp add: sfs_frame_def)

lemma sv_frame_trans: "sv_frame s t \<Longrightarrow> sv_frame t u \<Longrightarrow> sv_frame s u"
  by (auto simp: sv_frame_def)

lemma file_rel_refl: "file_ok (sectors (dev_of s)) p s \<Longrightarrow> file_rel sectors p s s"
  by (auto simp: file_rel_def sfs_frame_def sv_frame_def file_ok_def inode_ok_def grows_def)

lemma file_rel_trans:
  assumes st: "file_rel sectors p s t" and tu: "file_rel sectors p t u"
  shows "file_rel sectors p s u"
proof -
  note s = st [unfolded file_rel_def] and t = tu [unfolded file_rel_def]
  show ?thesis
    unfolding file_rel_def
  proof (intro conjI)
    show "sfs_frame s u" using s t sfs_frame_trans by blast
    show "sv_frame (the (s_heap s p)) (the (s_heap u p))" using s t sv_frame_trans by blast
    show "grows (set (fblocks (sectors (dev_of s)) (inode_at p s))) (used_of s) (sectors (dev_of s))
       (set (fblocks (sectors (dev_of u)) (inode_at p u))) (used_of u) (sectors (dev_of u))"
      using s t grows_trans by blast
  qed (use s t in auto)
qed

subsection \<open>The allocator\<close>

lemma on_io_run [kprog]: "on_io m s = (case m (s_io s) of Done x t \<Rightarrow> Done x (s\<lparr>s_io := t\<rparr>)
    | Fail e t \<Rightarrow> Fail e (s\<lparr>s_io := t\<rparr>) | Panic p \<Rightarrow> Panic p)"
  by (simp add: on_io_def kprog)

lemma on_freemap_run [kprog]: "on_freemap m s = (case m (s_freemap s) of Done x t \<Rightarrow> Done x (s\<lparr>s_freemap := t\<rparr>)
    | Fail e t \<Rightarrow> Fail e (s\<lparr>s_freemap := t\<rparr>) | Panic p \<Rightarrow> Panic p)"
  by (simp add: on_freemap_def kprog)

lemma get_sv_run [kprog]: "get_sv p s = (case s_heap s p of None \<Rightarrow> Panic ''bad pointer'' | Some sv \<Rightarrow> Done sv s)"
  by (simp add: get_sv_def kprog kderef_def split: option.split)

lemma put_sv_run [kprog]: "put_sv p sv s = Done () (s\<lparr>s_heap := (s_heap s)(p \<mapsto> sv)\<rparr>)"
  by (simp add: put_sv_def kprog)

lemma mod_sv_run [kprog]: "mod_sv p f s = (case s_heap s p of None \<Rightarrow> Panic ''bad pointer''
    | Some sv \<Rightarrow> Done () (s\<lparr>s_heap := (s_heap s)(p \<mapsto> f sv)\<rparr>))"
  by (cases "s_heap s p") (simp_all add: mod_sv_def kprog)

lemma get_uio_run [kprog]: "get_uio s = Done (uio_of s) s"
  by (simp add: get_uio_def kprog)

lemma set_uio_run [kprog]: "set_uio f s = Done () (s\<lparr>s_io := (s_io s)\<lparr>io_uio := f (uio_of s)\<rparr>\<rparr>)"
  by (simp add: set_uio_def kprog)

text \<open>The state after block \<open>b\<close> has been allocated and cleared.\<close>

definition balloc_step :: "('d \<Rightarrow> nat \<Rightarrow> byte list) \<Rightarrow> 'd sfs \<Rightarrow> nat \<Rightarrow> 'd sfs \<Rightarrow> bool" where
  "balloc_step sectors s b t \<longleftrightarrow> 0 < b \<and> b < nblocks_of s \<and> b \<notin> used_of s \<and> used_of t = insert b (used_of s) \<and>
     sectors (dev_of t) = (sectors (dev_of s))(b := replicate SFS_BLOCKSIZE 0) \<and>
     s_heap t = s_heap s \<and> sfs_frame s t \<and> uio_of t = uio_of s \<and> io_user (s_io t) = io_user (s_io s)"

context block_device begin

lemma balloc:
  assumes ok: "sfs_ok d_blocks ready s"
  shows "case sfs_balloc d_io s of
      Done b t \<Rightarrow> sfs_ok d_blocks ready t \<and> balloc_step sectors s b t
    | Fail e t \<Rightarrow> e = ENOSPC \<and> t = s \<and> used_of s = {..<bm_nbits (s_freemap s)}
    | Panic m \<Rightarrow> False"
proof (cases "bitmap_alloc (s_freemap s)")
  case (Fail e fm)
  then show ?thesis
    using bitmap_alloc_cases [of "s_freemap s"] ok by (simp add: sfs_balloc_def kprog sfs_ok_def)
next
  case (Panic m)
  then show ?thesis
    using bitmap_alloc_cases [of "s_freemap s"] ok by (simp add: sfs_ok_def)
next
  case (Done b fm)
  with bitmap_alloc_cases [of "s_freemap s"] ok
  have fm: "b < bm_nbits (s_freemap s)" "b \<notin> used_of s" "bm_ok fm" "bm_nbits fm = bm_nbits (s_freemap s)"
    "bm_set fm = insert b (used_of s)" by (auto simp: sfs_ok_def)
  have b: "b < nblocks_of s" "b \<noteq> 0"
    using fm ok by (auto simp: sfs_ok_def subset_iff) (meson not_less)
  obtain d where d: "sfs_wblock d_io (replicate SFS_BLOCKSIZE 0) b (s_io s) = Done () ((s_io s)\<lparr>io_dev := d\<rparr>)"
    "ready d" "d_blocks d = d_blocks (dev_of s)" "sectors d = (sectors (dev_of s))(b := replicate SFS_BLOCKSIZE 0)"
    using wblock [of "s_io s" b "replicate SFS_BLOCKSIZE 0"] ok b by (auto simp: sfs_ok_def)
  show ?thesis
    using Done fm b d ok
    by (auto simp: sfs_balloc_def sfs_clearblock_def kprog sfs_ok_def balloc_step_def sfs_frame_def)
qed

lemma handback:
  assumes "sfs_ok d_blocks ready s" and "b \<noteq> 0 \<Longrightarrow> b < nblocks_of s \<and> b \<in> used_of s"
  shows "sfs_handback b s = Done b s"
  using assms bitmap_isset_correct [of "s_freemap s" b]
  by (cases "b = 0") (auto simp: sfs_handback_def sfs_bused_def kprog sfs_ok_def)

end

subsection \<open>The block map\<close>

lemma filter_update_zero:
  fixes xs :: "nat list"
  assumes "k < length xs" and "xs ! k = 0" and "b \<noteq> 0"
  shows "\<exists>us vs. filter (\<lambda>b. b \<noteq> 0) xs = us @ vs \<and> filter (\<lambda>b. b \<noteq> 0) (xs[k := b]) = us @ b # vs"
proof (intro exI conjI)
  show "filter (\<lambda>b. b \<noteq> 0) xs = filter (\<lambda>b. b \<noteq> 0) (take k xs) @ filter (\<lambda>b. b \<noteq> 0) (drop (Suc k) xs)"
    using assms arg_cong [OF id_take_nth_drop [OF assms(1)], of "filter (\<lambda>b. b \<noteq> 0)"] by simp
  show "filter (\<lambda>b. b \<noteq> 0) (xs[k := b]) = filter (\<lambda>b. b \<noteq> 0) (take k xs) @ b # filter (\<lambda>b. b \<noteq> 0) (drop (Suc k) xs)"
    using assms by (simp add: upd_conv_take_nth_drop)
qed

lemma idbuf_of_be_words:
  "length ns = SFS_DBPERIDB \<Longrightarrow> \<forall>n \<in> set ns. n < 2 ^ 32 \<Longrightarrow> idbuf_of (be_words ns) = ns"
  using de_words_be_words [of ns "[]"] by (simp add: idbuf_of_def)

lemma idbuf_of_zeros: "idbuf_of (replicate SFS_BLOCKSIZE 0) = replicate SFS_DBPERIDB 0"
proof -
  have z: "be w 0 = replicate w 0" for w
    by (induction w) (simp_all add: replicate_append_same)
  have "be_words (replicate n 0) = replicate (4 * n) 0" for n
    by (induction n) (simp_all add: be_words_Cons z replicate_add, simp add: be_words_def)
  then have "be_words (replicate SFS_DBPERIDB 0) = replicate SFS_BLOCKSIZE 0" by simp
  then show ?thesis using idbuf_of_be_words [of "replicate SFS_DBPERIDB 0"] by simp
qed

lemma idbuf_of_length [simp]: "length (idbuf_of bs) = SFS_DBPERIDB"
  by (simp add: idbuf_of_def)

lemma idbuf_of_less: "length bs = SFS_BLOCKSIZE \<Longrightarrow> n \<in> set (idbuf_of bs) \<Longrightarrow> n < 2 ^ 32"
  by (rule de_words_less [of SFS_DBPERIDB bs]) (simp_all add: idbuf_of_def)

lemma fmap_in_fblocks:
  assumes "length (sfi_direct i) = SFS_NDIRECT" and "fmap secs i fb \<noteq> 0"
  shows "fmap secs i fb \<in> set (fblocks secs i)"
  using assms by (auto simp: fmap_def fblocks_def split: if_splits)

lemma indirect_in_fblocks: "sfi_indirect i \<noteq> 0 \<Longrightarrow> sfi_indirect i \<in> set (fblocks secs i)"
  by (simp add: fblocks_def)

text \<open>Allocating a direct block of a hole.\<close>

lemma fblocks_direct:
  assumes "length (sfi_direct i) = SFS_NDIRECT" and "fb < SFS_NDIRECT" and "sfi_direct i ! fb = 0" and "b \<noteq> 0"
    and "sfi_indirect i = 0 \<or> secs' (sfi_indirect i) = secs (sfi_indirect i)"
  shows "\<exists>us vs. fblocks secs i = us @ vs \<and>
    fblocks secs' (i\<lparr>sfi_direct := (sfi_direct i)[fb := b]\<rparr>) = us @ b # vs"
proof -
  obtain us vs where "filter (\<lambda>b. b \<noteq> 0) (sfi_direct i) = us @ vs"
    "filter (\<lambda>b. b \<noteq> 0) ((sfi_direct i)[fb := b]) = us @ b # vs"
    using filter_update_zero [of fb "sfi_direct i" b] assms by auto
  moreover define ws where
    "ws = filter (\<lambda>b. b \<noteq> 0) (sfi_indirect i # (if sfi_indirect i = 0 then [] else idbuf_of (secs (sfi_indirect i))))"
  ultimately have "fblocks secs i = us @ (vs @ ws) \<and>
      fblocks secs' (i\<lparr>sfi_direct := (sfi_direct i)[fb := b]\<rparr>) = us @ b # (vs @ ws)"
    using assms(5) by (auto simp: fblocks_def)
  then show ?thesis by blast
qed

text \<open>Giving an inode a cleared indirect block.\<close>

lemma fblocks_indirect:
  assumes "sfi_indirect i = 0" and "b \<noteq> 0" and "secs' b = replicate SFS_BLOCKSIZE 0"
  shows "fblocks secs' (i\<lparr>sfi_indirect := b\<rparr>) = fblocks secs i @ [b]"
  using assms by (simp add: fblocks_def idbuf_of_zeros)

text \<open>Entering a block into the indirect block.\<close>

lemma fblocks_entry:
  assumes "sfi_indirect i \<noteq> 0" and "off < SFS_DBPERIDB" and "idbuf_of (secs (sfi_indirect i)) ! off = 0" and "b \<noteq> 0"
    and "idbuf_of (secs' (sfi_indirect i)) = (idbuf_of (secs (sfi_indirect i)))[off := b]"
  shows "\<exists>us vs. fblocks secs i = us @ vs \<and> fblocks secs' i = us @ b # vs"
proof -
  obtain us vs where "filter (\<lambda>b. b \<noteq> 0) (idbuf_of (secs (sfi_indirect i))) = us @ vs"
    "filter (\<lambda>b. b \<noteq> 0) ((idbuf_of (secs (sfi_indirect i)))[off := b]) = us @ b # vs"
    using filter_update_zero [of off "idbuf_of (secs (sfi_indirect i))" b] assms by auto
  then have "fblocks secs i = (filter (\<lambda>b. b \<noteq> 0) (sfi_direct i) @ sfi_indirect i # us) @ vs \<and>
      fblocks secs' i = (filter (\<lambda>b. b \<noteq> 0) (sfi_direct i) @ sfi_indirect i # us) @ b # vs"
    using assms by (simp add: fblocks_def)
  then show ?thesis by blast
qed

lemma grows_one:
  assumes "fblocks S i = us @ vs" and "fblocks S' i' = us @ b # vs" and "inode_ok S nb U i" and "inode_wf i'"
    and "b < nb" and "b \<notin> U" and "\<And>c. c \<in> U - set (fblocks S i) \<Longrightarrow> S' c = S c"
  shows "inode_ok S' nb (insert b U) i'" and "grows (set (fblocks S i)) U S (set (fblocks S' i')) (insert b U) S'"
  using assms by (auto simp: inode_ok_def grows_def)

text \<open>A step that leaves the contents of the file alone.\<close>

definition file_same :: "('d \<Rightarrow> nat \<Rightarrow> byte list) \<Rightarrow> nat \<Rightarrow> 'd sfs \<Rightarrow> 'd sfs \<Rightarrow> bool" where
  "file_same sectors p s t \<longleftrightarrow> file_rel sectors p s t \<and>
     (\<forall>fb. fdata (sectors (dev_of t)) (inode_at p t) fb = fdata (sectors (dev_of s)) (inode_at p s) fb) \<and>
     sfi_size (inode_at p t) = sfi_size (inode_at p s) \<and> uio_of t = uio_of s \<and> io_user (s_io t) = io_user (s_io s)"

lemma file_same_refl: "file_ok (sectors (dev_of s)) p s \<Longrightarrow> file_same sectors p s s"
  by (simp add: file_same_def file_rel_refl)

lemma file_same_trans: "file_same sectors p s t \<Longrightarrow> file_same sectors p t u \<Longrightarrow> file_same sectors p s u"
  using file_rel_trans [of sectors p s t u] by (simp add: file_same_def)

lemma inode_ok_facts:
  assumes "inode_ok S nb U i"
  shows "length (sfi_direct i) = SFS_NDIRECT" "inode_wf i"
    "sfi_indirect i \<noteq> 0 \<Longrightarrow> sfi_indirect i < nb \<and> sfi_indirect i \<in> U"
    "fmap S i fb \<noteq> 0 \<Longrightarrow> fmap S i fb < nb \<and> fmap S i fb \<in> U"
  using assms fmap_in_fblocks [of i S fb] indirect_in_fblocks [of i S]
  by (auto simp: inode_ok_def inode_wf_def)

lemma inode_wf_direct:
  assumes "inode_wf i" and "b < 2 ^ 32"
  shows "inode_wf (i\<lparr>sfi_direct := (sfi_direct i)[fb := b]\<rparr>)"
  using assms set_update_subset_insert [of "sfi_direct i" fb b] by (auto simp: inode_wf_def)

lemma fdata_direct:
  assumes ok: "inode_ok S nb U i" and b: "b \<notin> U" "b \<noteq> 0" and hole: "fb < SFS_NDIRECT" "sfi_direct i ! fb = 0"
    and i': "i' = i\<lparr>sfi_direct := (sfi_direct i)[fb := b]\<rparr>" and S': "S' = S(b := replicate SFS_BLOCKSIZE 0)"
  shows "fmap S' i' = (fmap S i)(fb := b)" and "fdata S' i' = fdata S i"
proof -
  note facts = inode_ok_facts [OF ok]
  have ind: "S' (sfi_indirect i) = S (sfi_indirect i)" if "sfi_indirect i \<noteq> 0"
    using facts(3) [OF that] b by (auto simp: S')
  show map: "fmap S' i' = (fmap S i)(fb := b)"
    using facts(1) hole ind by (auto simp: fmap_def i' nth_list_update)
  have zero: "fmap S i fb = 0" using hole by (simp add: fmap_def)
  have S'c: "S' c = (if c = b then replicate SFS_BLOCKSIZE 0 else S c)" for c by (simp add: S')
  show "fdata S' i' = fdata S i"
  proof
    fix x
    show "fdata S' i' x = fdata S i x"
      using facts(4) [of x] b zero by (auto simp: fdata_def map S'c)
  qed
qed

lemma fdata_indirect:
  assumes ok: "inode_ok S nb U i" and b: "b \<notin> U" "b \<noteq> 0" and hole: "sfi_indirect i = 0"
    and i': "i' = i\<lparr>sfi_indirect := b\<rparr>" and S': "S' = S(b := replicate SFS_BLOCKSIZE 0)"
  shows "fmap S' i' = fmap S i" and "fdata S' i' = fdata S i"
proof -
  have S'c: "S' c = (if c = b then replicate SFS_BLOCKSIZE 0 else S c)" for c by (simp add: S')
  show map: "fmap S' i' = fmap S i"
    using hole b by (auto simp: fmap_def i' S'c idbuf_of_zeros)
  show "fdata S' i' = fdata S i"
  proof
    fix x
    show "fdata S' i' x = fdata S i x"
      using inode_ok_facts(4) [OF ok, of x] b by (auto simp: fdata_def map S'c)
  qed
qed

lemma fmap_not_indirect:
  assumes ok: "inode_ok S nb U i" and ind: "sfi_indirect i \<noteq> 0" and "fmap S i x \<noteq> 0"
  shows "fmap S i x \<noteq> sfi_indirect i"
proof -
  have "distinct (filter (\<lambda>b. b \<noteq> 0) (sfi_direct i @ sfi_indirect i # idbuf_of (S (sfi_indirect i))))"
    using ok ind by (simp add: inode_ok_def fblocks_def)
  then have "sfi_indirect i \<notin> set (sfi_direct i)" "sfi_indirect i \<notin> set (idbuf_of (S (sfi_indirect i)))"
    using ind by auto
  moreover have "fmap S i x \<in> set (sfi_direct i) \<or> fmap S i x \<in> set (idbuf_of (S (sfi_indirect i)))"
    using assms(3) inode_ok_facts(1) [OF ok] by (simp add: fmap_def split: if_splits)
  ultimately show ?thesis by metis
qed

lemma fdata_entry:
  assumes ok: "inode_ok S nb U i" and b: "b \<notin> U" "b \<noteq> 0" "b < 2 ^ 32"
    and ind: "sfi_indirect i \<noteq> 0" "length (S (sfi_indirect i)) = SFS_BLOCKSIZE"
    and hole: "off < SFS_DBPERIDB" "idbuf_of (S (sfi_indirect i)) ! off = 0"
    and S': "S' = S(b := replicate SFS_BLOCKSIZE 0, sfi_indirect i := be_words ((idbuf_of (S (sfi_indirect i)))[off := b]))"
  shows "idbuf_of (S' (sfi_indirect i)) = (idbuf_of (S (sfi_indirect i)))[off := b]"
    and "fmap S' i = (fmap S i)(SFS_NDIRECT + off := b)" and "fdata S' i = fdata S i"
proof -
  let ?ids = "idbuf_of (S (sfi_indirect i))"
  have "\<forall>n \<in> set (?ids[off := b]). n < 2 ^ 32"
    using idbuf_of_less [OF ind(2)] b set_update_subset_insert [of ?ids off b] by auto
  then show ids: "idbuf_of (S' (sfi_indirect i)) = ?ids[off := b]"
    using idbuf_of_be_words [of "?ids[off := b]"] by (simp add: S')
  show map: "fmap S' i = (fmap S i)(SFS_NDIRECT + off := b)"
    using ind(1) hole by (auto simp: fmap_def ids nth_list_update)
  have zero: "fmap S i (SFS_NDIRECT + off) = 0" using hole by (simp add: fmap_def)
  have S'c: "S' c = (if c = b then replicate SFS_BLOCKSIZE 0 else S c)" if "c \<noteq> sfi_indirect i" for c
    using that by (simp add: S')
  have nb: "b \<noteq> sfi_indirect i" using inode_ok_facts(3) [OF ok ind(1)] b by auto
  have ni: "fmap S i x \<noteq> sfi_indirect i" if "fmap S i x \<noteq> 0" for x
    by (rule fmap_not_indirect [OF ok ind(1) that])
  show "fdata S' i = fdata S i"
  proof
    fix x
    show "fdata S' i x = fdata S i x"
      using inode_ok_facts(4) [OF ok, of x] b zero nb ni [of x] S'c by (auto simp: fdata_def map)
  qed
qed

lemma file_sameI:
  assumes "s_heap s p = Some sv" and "s_heap t = (s_heap s)(p \<mapsto> sw)" and "sv_frame sv sw" and "sfs_frame s t"
    and "inode_ok (sectors (dev_of t)) (nblocks_of s) (used_of t) (sv_i sw)"
    and "grows (set (fblocks (sectors (dev_of s)) (sv_i sv))) (used_of s) (sectors (dev_of s))
           (set (fblocks (sectors (dev_of t)) (sv_i sw))) (used_of t) (sectors (dev_of t))"
    and "fdata (sectors (dev_of t)) (sv_i sw) = fdata (sectors (dev_of s)) (sv_i sv)"
    and "sfi_size (sv_i sw) = sfi_size (sv_i sv)" and "uio_of t = uio_of s" and "io_user (s_io t) = io_user (s_io s)"
  shows "file_same sectors p s t"
  using assms by (simp add: file_same_def file_rel_def file_ok_def sfs_frame_def)

lemma sfs_ok_less32: "sfs_ok d_blocks ready s \<Longrightarrow> b < nblocks_of s \<Longrightarrow> b < 2 ^ 32"
  by (auto simp: sfs_ok_def bm_ok_def)

lemma sfs_ok_heap [simp]: "sfs_ok d_blocks ready (s\<lparr>s_heap := h\<rparr>) = sfs_ok d_blocks ready s"
  by (simp add: sfs_ok_def)

lemma file_okD:
  assumes "file_ok secs p s"
  obtains sv where "s_heap s p = Some sv" "inode_ok secs (nblocks_of s) (used_of s) (sv_i sv)"
  using assms by (auto simp: file_ok_def)

lemma alloc_direct:
  assumes ok: "sfs_ok d_blocks ready s" and sv: "s_heap s p = Some sv"
    and i: "inode_ok (sectors (dev_of s)) (nblocks_of s) (used_of s) (sv_i sv)"
    and hole: "fb < SFS_NDIRECT" "sfi_direct (sv_i sv) ! fb = 0" and step: "balloc_step sectors s b t0"
    and sw: "sw = sv\<lparr>sv_i := (sv_i sv)\<lparr>sfi_direct := (sfi_direct (sv_i sv))[fb := b]\<rparr>, sv_dirty := True\<rparr>"
    and t: "t = t0\<lparr>s_heap := (s_heap t0)(p \<mapsto> sw)\<rparr>"
  shows "file_same sectors p s t" and "fmap (sectors (dev_of t)) (sv_i sw) fb = b"
proof -
  let ?S = "sectors (dev_of s)" and ?S' = "sectors (dev_of t)" and ?i = "sv_i sv"
  have b: "b \<noteq> 0" "b < nblocks_of s" "b \<notin> used_of s" "used_of t = insert b (used_of s)"
    "?S' = ?S(b := replicate SFS_BLOCKSIZE 0)"
    using step by (auto simp: balloc_step_def t)
  have i': "sv_i sw = ?i\<lparr>sfi_direct := (sfi_direct ?i)[fb := b]\<rparr>" by (simp add: sw)
  note data = fdata_direct [OF i b(3,1) hole i' b(5)]
  have old: "?S' c = ?S c" if "c \<in> used_of s" for c using that b by auto
  obtain us vs where "fblocks ?S ?i = us @ vs" "fblocks ?S' (sv_i sw) = us @ b # vs"
    using fblocks_direct [of ?i fb b ?S' ?S] inode_ok_facts [OF i] hole b old i' by metis
  note grown = grows_one [OF this i _ b(2,3)]
  have wf: "inode_wf (sv_i sw)"
    unfolding i' using inode_ok_facts(2) [OF i] sfs_ok_less32 [OF ok b(2)] by (rule inode_wf_direct)
  show "file_same sectors p s t"
  proof (rule file_sameI [OF sv])
    show "s_heap t = (s_heap s)(p \<mapsto> sw)" "sfs_frame s t" "uio_of t = uio_of s" "io_user (s_io t) = io_user (s_io s)"
      using step by (auto simp: t balloc_step_def sfs_frame_def)
  qed (use grown [OF wf] old b(4) data in \<open>auto simp: sv_frame_def sw\<close>)
  show "fmap ?S' (sv_i sw) fb = b" using data(1) by simp
qed

lemma alloc_indirect:
  assumes ok: "sfs_ok d_blocks ready s" and sv: "s_heap s p = Some sv"
    and i: "inode_ok (sectors (dev_of s)) (nblocks_of s) (used_of s) (sv_i sv)"
    and hole: "sfi_indirect (sv_i sv) = 0" and step: "balloc_step sectors s b t0"
    and sw: "sw = sv\<lparr>sv_i := (sv_i sv)\<lparr>sfi_indirect := b\<rparr>, sv_dirty := True\<rparr>"
    and t: "t = t0\<lparr>s_heap := (s_heap t0)(p \<mapsto> sw)\<rparr>"
  shows "file_same sectors p s t" and "sectors (dev_of t) b = replicate SFS_BLOCKSIZE 0"
proof -
  let ?S = "sectors (dev_of s)" and ?S' = "sectors (dev_of t)" and ?i = "sv_i sv"
  have b: "b \<noteq> 0" "b < nblocks_of s" "b \<notin> used_of s" "used_of t = insert b (used_of s)"
    "?S' = ?S(b := replicate SFS_BLOCKSIZE 0)"
    using step by (auto simp: balloc_step_def t)
  have i': "sv_i sw = ?i\<lparr>sfi_indirect := b\<rparr>" by (simp add: sw)
  note data = fdata_indirect [OF i b(3,1) hole i' b(5)]
  have old: "?S' c = ?S c" if "c \<in> used_of s" for c using that b by auto
  have "fblocks ?S ?i = fblocks ?S ?i @ []" "fblocks ?S' (sv_i sw) = fblocks ?S ?i @ b # []"
    using fblocks_indirect [of ?i b ?S' ?S] hole b i' by auto
  note grown = grows_one [OF this i _ b(2,3)]
  have wf: "inode_wf (sv_i sw)"
    using inode_ok_facts(2) [OF i] sfs_ok_less32 [OF ok b(2)] by (simp add: i' inode_wf_def)
  show "file_same sectors p s t"
  proof (rule file_sameI [OF sv])
    show "s_heap t = (s_heap s)(p \<mapsto> sw)" "sfs_frame s t" "uio_of t = uio_of s" "io_user (s_io t) = io_user (s_io s)"
      using step by (auto simp: t balloc_step_def sfs_frame_def)
  qed (use grown [OF wf] old b(4) data in \<open>auto simp: sv_frame_def sw\<close>)
  show "?S' b = replicate SFS_BLOCKSIZE 0" using b(5) by simp
qed

lemma alloc_entry:
  assumes ok: "sfs_ok d_blocks ready s" and sv: "s_heap s p = Some sv"
    and i: "inode_ok (sectors (dev_of s)) (nblocks_of s) (used_of s) (sv_i sv)"
    and ind: "sfi_indirect (sv_i sv) = idblock" "idblock \<noteq> 0" "length (sectors (dev_of s) idblock) = SFS_BLOCKSIZE"
    and hole: "off < SFS_DBPERIDB" "idbuf_of (sectors (dev_of s) idblock) ! off = 0" and step: "balloc_step sectors s b t0"
    and t: "t = t0\<lparr>s_io := (s_io t0)\<lparr>io_dev := d\<rparr>\<rparr>"
    and d: "sectors d = (sectors (dev_of t0))(idblock := be_words ((idbuf_of (sectors (dev_of s) idblock))[off := b]))"
  shows "file_same sectors p s t" and "fmap (sectors (dev_of t)) (sv_i sv) (SFS_NDIRECT + off) = b"
    and "b \<noteq> 0" "b < nblocks_of t" "b \<in> used_of t"
proof -
  let ?S = "sectors (dev_of s)" and ?S' = "sectors (dev_of t)" and ?i = "sv_i sv"
  have b: "b \<noteq> 0" "b < nblocks_of s" "b \<notin> used_of s" "used_of t = insert b (used_of s)"
    using step by (auto simp: balloc_step_def t)
  have S': "?S' = ?S(b := replicate SFS_BLOCKSIZE 0, sfi_indirect ?i := be_words ((idbuf_of (?S (sfi_indirect ?i)))[off := b]))"
    using step d by (simp add: balloc_step_def t ind(1))
  note data = fdata_entry [OF i b(3,1) sfs_ok_less32 [OF ok b(2)] _ _ hole(1) _ S', unfolded ind(1), OF ind(2,3) hole(2)]
  obtain us vs where "fblocks ?S ?i = us @ vs" "fblocks ?S' ?i = us @ b # vs"
    using fblocks_entry [of ?i off ?S b ?S'] hole b data(1) ind by auto
  note grown = grows_one [OF this i inode_ok_facts(2) [OF i] b(2,3)]
  have old: "?S' c = ?S c" if "c \<in> used_of s - set (fblocks ?S ?i)" for c
    using that b ind indirect_in_fblocks [of ?i ?S] unfolding S' by auto
  show "file_same sectors p s t"
  proof (rule file_sameI [OF sv])
    show "s_heap t = (s_heap s)(p \<mapsto> sv)" "sfs_frame s t" "uio_of t = uio_of s" "io_user (s_io t) = io_user (s_io s)"
      using step sv by (auto simp: t balloc_step_def sfs_frame_def)
  qed (use grown old b(4) data in \<open>auto simp: sv_frame_def\<close>)
  show "fmap ?S' ?i (SFS_NDIRECT + off) = b" using data(2) by simp
  show "b \<noteq> 0" "b < nblocks_of t" "b \<in> used_of t"
    using b step by (auto simp: t balloc_step_def sfs_frame_def)
qed

text \<open>
  What \<^verbatim>\<open>sfs_bmap\<close> promises: the contents of the file do not change, the block it names is where the
  file block is, and without \<^verbatim>\<open>doalloc\<close> nothing changes at all.
\<close>

definition bmap_post :: "('d \<Rightarrow> nat) \<Rightarrow> ('d \<Rightarrow> nat \<Rightarrow> byte list) \<Rightarrow> ('d \<Rightarrow> bool) \<Rightarrow> nat \<Rightarrow> nat \<Rightarrow> bool \<Rightarrow> 'd sfs
    \<Rightarrow> ('d sfs, nat) outcome \<Rightarrow> bool" where
  "bmap_post d_blocks sectors ready p fb doalloc s r = (case r of
      Done b t \<Rightarrow> sfs_ok d_blocks ready t \<and> file_same sectors p s t \<and> b = fmap (sectors (dev_of t)) (inode_at p t) fb \<and>
        (doalloc \<longrightarrow> b \<noteq> 0) \<and>
        (\<not> doalloc \<longrightarrow> sectors (dev_of t) = sectors (dev_of s) \<and> s_heap t = s_heap s \<and>
            s_freemap t = s_freemap s \<and> s_freemapdirty t = s_freemapdirty s)
    | Fail e t \<Rightarrow> e = ENOSPC \<and> doalloc \<and> sfs_ok d_blocks ready t \<and> file_same sectors p s t
    | Panic m \<Rightarrow> False)"

context block_device begin

lemma bmap_direct:
  assumes ok: "sfs_ok d_blocks ready s" and fok: "file_ok (sectors (dev_of s)) p s" and fb: "fb < SFS_NDIRECT"
  shows "bmap_post d_blocks sectors ready p fb doalloc s (sfs_bmap d_io p fb doalloc s)"
proof -
  obtain sv where sv: "s_heap s p = Some sv" and i: "inode_ok (sectors (dev_of s)) (nblocks_of s) (used_of s) (sv_i sv)"
    using fok by (rule file_okD)
  note facts = inode_ok_facts [OF i]
  define b where "b = sfi_direct (sv_i sv) ! fb"
  have map: "fmap (sectors (dev_of s)) (sv_i sv) fb = b" using fb by (simp add: fmap_def b_def)
  show ?thesis
  proof (cases "b = 0 \<and> doalloc")
    case False
    have "sfs_handback b s = Done b s" using facts(4) [of fb] map by (intro handback [OF ok]) auto
    then have "sfs_bmap d_io p fb doalloc s = Done b s"
      using False fb sv facts(1) b_def by (auto simp: sfs_bmap_def sfs_bmap_direct_def kprog)
    then show ?thesis using ok False map sv file_same_refl [where sectors = sectors, OF fok] by (auto simp: bmap_post_def)
  next
    case True
    have run: "sfs_bmap d_io p fb doalloc s = (case sfs_balloc d_io s of
        Done b t0 \<Rightarrow> kthen (mod_sv p (\<lambda>sv. sv\<lparr>sv_i := (sv_i sv)\<lparr>sfi_direct := (sfi_direct (sv_i sv))[fb := b]\<rparr>, sv_dirty := True\<rparr>))
            (sfs_handback b) t0
      | Fail e t \<Rightarrow> Fail e t | Panic m \<Rightarrow> Panic m)"
      using True fb sv facts(1) b_def
      by (simp add: sfs_bmap_def sfs_bmap_direct_def kprog split: outcome.split)
    show ?thesis
    proof (cases "sfs_balloc d_io s")
      case (Done c t0)
      with balloc [OF ok] have t0: "sfs_ok d_blocks ready t0" "balloc_step sectors s c t0" by auto
      let ?sw = "sv\<lparr>sv_i := (sv_i sv)\<lparr>sfi_direct := (sfi_direct (sv_i sv))[fb := c]\<rparr>, sv_dirty := True\<rparr>"
      let ?t = "t0\<lparr>s_heap := (s_heap t0)(p \<mapsto> ?sw)\<rparr>"
      note a = alloc_direct [OF ok sv i fb _ t0(2) refl refl]
      have "sfs_handback c ?t = Done c ?t"
        using t0 by (intro handback) (auto simp: balloc_step_def sfs_frame_def)
      moreover have "s_heap t0 p = Some sv" "c \<noteq> 0" using t0(2) sv by (auto simp: balloc_step_def)
      ultimately show ?thesis
        using run Done True a t0(1) b_def by (simp add: mod_sv_def kprog bmap_post_def)
    next
      case (Fail e t)
      with balloc [OF ok] run True file_same_refl [where sectors = sectors, OF fok] ok show ?thesis by (simp add: bmap_post_def)
    next
      case (Panic m)
      with balloc [OF ok] show ?thesis by simp
    qed
  qed
qed

lemma bmap_entry:
  assumes ok: "sfs_ok d_blocks ready s" and fok: "file_ok (sectors (dev_of s)) p s" and off: "off < SFS_DBPERIDB"
    and ind: "sfi_indirect (inode_at p s) = idblock" "idblock \<noteq> 0" and idbuf: "idbuf = idbuf_of (sectors (dev_of s) idblock)"
  shows "bmap_post d_blocks sectors ready p (SFS_NDIRECT + off) doalloc s (sfs_bmap_entry d_io idblock idbuf off doalloc s)"
proof -
  obtain sv where sv: "s_heap s p = Some sv" and i: "inode_ok (sectors (dev_of s)) (nblocks_of s) (used_of s) (sv_i sv)"
    using fok by (rule file_okD)
  have ind': "sfi_indirect (sv_i sv) = idblock" using ind sv by simp
  define b where "b = idbuf ! off"
  have map: "fmap (sectors (dev_of s)) (sv_i sv) (SFS_NDIRECT + off) = b"
    using off ind ind' by (simp add: fmap_def b_def idbuf)
  have idb: "idblock < d_blocks (dev_of s)" using inode_ok_facts(3) [OF i] ind ind' ok by (auto simp: sfs_ok_def)
  note same0 = file_same_refl [where sectors = sectors, OF fok]
  show ?thesis
  proof (cases "b = 0 \<and> doalloc")
    case False
    have "sfs_handback b s = Done b s"
      using inode_ok_facts(4) [OF i, of "SFS_NDIRECT + off"] map by (intro handback [OF ok]) auto
    then have "sfs_bmap_entry d_io idblock idbuf off doalloc s = Done b s"
      using False off b_def idbuf by (auto simp: sfs_bmap_entry_def kprog)
    then show ?thesis using ok False map sv same0 by (auto simp: bmap_post_def)
  next
    case True
    show ?thesis
    proof (cases "sfs_balloc d_io s")
      case (Done c t0)
      with balloc [OF ok] have t0: "sfs_ok d_blocks ready t0" "balloc_step sectors s c t0" by auto
      have len: "length (be_words (idbuf[off := c])) = SFS_BLOCKSIZE" by (simp add: idbuf)
      have "idblock < d_blocks (dev_of t0)"
        using t0 inode_ok_facts(3) [OF i] ind ind' by (auto simp: sfs_ok_def balloc_step_def sfs_frame_def)
      then obtain d where d: "sfs_wblock d_io (be_words (idbuf[off := c])) idblock (s_io t0) = Done () ((s_io t0)\<lparr>io_dev := d\<rparr>)"
        "ready d" "d_blocks d = d_blocks (dev_of t0)" "sectors d = (sectors (dev_of t0))(idblock := be_words (idbuf[off := c]))"
        using wblock [of "s_io t0" idblock, OF _ _ len] t0(1) by (auto simp: sfs_ok_def)
      let ?t = "t0\<lparr>s_io := (s_io t0)\<lparr>io_dev := d\<rparr>\<rparr>"
      have ok': "sfs_ok d_blocks ready ?t" using t0(1) d by (simp add: sfs_ok_def)
      have "length (sectors (dev_of s) idblock) = SFS_BLOCKSIZE"
        using sector_length [OF _ idb] ok by (simp add: sfs_ok_def)
      note a = alloc_entry [OF ok sv i ind' ind(2) this off _ t0(2) refl d(4) [unfolded idbuf]]
      have hole: "idbuf_of (sectors (dev_of s) idblock) ! off = 0" using True b_def idbuf by simp
      have "sfs_handback c ?t = Done c ?t" using a [OF hole] by (intro handback [OF ok']) auto
      moreover have "s_heap t0 p = Some sv" using t0(2) sv by (simp add: balloc_step_def)
      ultimately show ?thesis
        using Done True a [OF hole] d(1) ok' off b_def idbuf by (simp add: sfs_bmap_entry_def kprog bmap_post_def)
    next
      case (Fail e t)
      with balloc [OF ok] True same0 ok off b_def idbuf show ?thesis
        by (auto simp: bmap_post_def sfs_bmap_entry_def kprog)
    next
      case (Panic m)
      with balloc [OF ok] show ?thesis by simp
    qed
  qed
qed

text \<open>A step before \<^verbatim>\<open>sfs_bmap\<close> proper that leaves the file alone.\<close>

lemma bmap_post_after:
  assumes "file_same sectors p s s1" and "bmap_post d_blocks sectors ready p fb doalloc s1 r"
    and "\<not> doalloc \<Longrightarrow> sectors (dev_of s1) = sectors (dev_of s) \<and> s_heap s1 = s_heap s \<and>
            s_freemap s1 = s_freemap s \<and> s_freemapdirty s1 = s_freemapdirty s"
  shows "bmap_post d_blocks sectors ready p fb doalloc s r"
  using assms file_same_trans [OF assms(1)] by (auto simp: bmap_post_def split: outcome.splits)

lemma file_same_dev:
  assumes "file_ok (sectors (dev_of s)) p s" and "sectors d = sectors (dev_of s)"
  shows "file_same sectors p s (s\<lparr>s_io := (s_io s)\<lparr>io_dev := d\<rparr>\<rparr>)"
  using file_same_refl [where sectors = sectors, OF assms(1)] assms(2)
  by (simp add: file_same_def file_rel_def file_ok_def sfs_frame_def)

lemma bmap:
  assumes ok: "sfs_ok d_blocks ready s" and fok: "file_ok (sectors (dev_of s)) p s" and fb: "fb < SFS_NDIRECT + SFS_DBPERIDB"
  shows "bmap_post d_blocks sectors ready p fb doalloc s (sfs_bmap d_io p fb doalloc s)"
proof (cases "fb < SFS_NDIRECT")
  case True
  with ok fok show ?thesis by (rule bmap_direct)
next
  case False
  obtain sv where sv: "s_heap s p = Some sv" and i: "inode_ok (sectors (dev_of s)) (nblocks_of s) (used_of s) (sv_i sv)"
    using fok by (rule file_okD)
  define off where "off = fb - SFS_NDIRECT"
  have off: "off < SFS_DBPERIDB" "SFS_NDIRECT + off = fb" using False fb by (auto simp: off_def)
  define idblock where "idblock = sfi_indirect (sv_i sv)"
  note same0 = file_same_refl [where sectors = sectors, OF fok]
  consider "idblock = 0" "\<not> doalloc" | "idblock = 0" doalloc | "idblock \<noteq> 0" by blast
  then show ?thesis
  proof cases
    case 1
    then have "sfs_bmap d_io p fb doalloc s = Done 0 s" and "fmap (sectors (dev_of s)) (sv_i sv) fb = 0"
      using False off sv idblock_def by (auto simp: sfs_bmap_def kprog Let_def off_def fmap_def)
    then show ?thesis using ok same0 1 sv by (simp add: bmap_post_def)
  next
    case 2
    have run: "sfs_bmap d_io p fb doalloc s = (case sfs_balloc d_io s of
        Done b t0 \<Rightarrow> kthen (mod_sv p (\<lambda>sv. sv\<lparr>sv_i := (sv_i sv)\<lparr>sfi_indirect := b\<rparr>, sv_dirty := True\<rparr>))
            (sfs_bmap_entry d_io b (replicate SFS_DBPERIDB 0) off doalloc) t0
      | Fail e t \<Rightarrow> Fail e t | Panic m \<Rightarrow> Panic m)"
      using 2 False off sv idblock_def by (simp add: sfs_bmap_def kprog Let_def off_def split: outcome.split)
    show ?thesis
    proof (cases "sfs_balloc d_io s")
      case (Done c t0)
      with balloc [OF ok] have t0: "sfs_ok d_blocks ready t0" "balloc_step sectors s c t0" by auto
      let ?sw = "sv\<lparr>sv_i := (sv_i sv)\<lparr>sfi_indirect := c\<rparr>, sv_dirty := True\<rparr>"
      let ?t = "t0\<lparr>s_heap := (s_heap t0)(p \<mapsto> ?sw)\<rparr>"
      note a = alloc_indirect [OF ok sv i 2(1) [unfolded idblock_def] t0(2) refl refl]
      have "bmap_post d_blocks sectors ready p fb doalloc ?t (sfs_bmap_entry d_io c (replicate SFS_DBPERIDB 0) off doalloc ?t)"
        using bmap_entry [of ?t p off c "replicate SFS_DBPERIDB 0" doalloc] t0 a off
        by (simp add: file_same_def file_rel_def balloc_step_def idbuf_of_zeros)
      then have "bmap_post d_blocks sectors ready p fb doalloc s (sfs_bmap_entry d_io c (replicate SFS_DBPERIDB 0) off doalloc ?t)"
        by (rule bmap_post_after [OF a(1)]) (use 2 in simp)
      then show ?thesis
        using run Done t0(2) sv by (simp add: mod_sv_def kprog balloc_step_def)
    next
      case (Fail e t)
      with balloc [OF ok] run 2 same0 ok show ?thesis by (simp add: bmap_post_def)
    next
      case (Panic m)
      with balloc [OF ok] show ?thesis by simp
    qed
  next
    case 3
    then have "idblock < d_blocks (dev_of s)" using inode_ok_facts(3) [OF i] ok by (auto simp: sfs_ok_def idblock_def)
    then obtain d where d: "sfs_rblock d_io idblock (s_io s) = Done (sectors (dev_of s) idblock) ((s_io s)\<lparr>io_dev := d\<rparr>)"
      "ready d" "d_blocks d = d_blocks (dev_of s)" "sectors d = sectors (dev_of s)"
      using rblock [of "s_io s" idblock] ok by (auto simp: sfs_ok_def)
    let ?t = "s\<lparr>s_io := (s_io s)\<lparr>io_dev := d\<rparr>\<rparr>"
    have same: "file_same sectors p s ?t" using fok d(4) by (rule file_same_dev)
    have "bmap_post d_blocks sectors ready p fb doalloc ?t
        (sfs_bmap_entry d_io idblock (idbuf_of (sectors (dev_of s) idblock)) off doalloc ?t)"
      using bmap_entry [of ?t p off idblock "idbuf_of (sectors (dev_of s) idblock)" doalloc] ok d off 3 sv same
      by (simp add: file_same_def file_rel_def sfs_ok_def idblock_def)
    then show ?thesis
      using bmap_post_after [OF same] False off sv 3 d idblock_def
      by (simp add: sfs_bmap_def kprog Let_def off_def)
  qed
qed

lemma bmap_too_big: "SFS_NDIRECT + SFS_DBPERIDB \<le> fb \<Longrightarrow> sfs_bmap d_io p fb doalloc s = Fail EINVAL s"
  by (auto simp: sfs_bmap_def Let_def kprog div_greater_zero_iff)

end

subsection \<open>Writing a data block\<close>

lemma distinct_filter_nth:
  assumes d: "distinct (filter P xs)" and "m < length xs" "n < length xs" "xs ! m = xs ! n" "P (xs ! m)"
  shows "m = n"
proof -
  have "\<not> a < b" if "a < length xs" "b < length xs" "xs ! a = xs ! b" "P (xs ! a)" for a b
  proof
    assume "a < b"
    then have "xs ! a \<in> set (take b xs)" using that by (auto simp: in_set_conv_nth)
    moreover have "xs ! b \<in> set (drop b xs)" using that by (metis Cons_nth_drop_Suc list.set_intros(1))
    moreover have "distinct (filter P (take b xs) @ filter P (drop b xs))"
      using d by (metis append_take_drop_id filter_append)
    ultimately show False using that(3,4) by auto
  qed
  with assms show ?thesis by (metis linorder_neqE_nat)
qed

lemma fmap_inj:
  assumes ok: "inode_ok S nb U i" and "fmap S i x = fmap S i y" and "fmap S i x \<noteq> 0"
  shows "x = y"
proof -
  define xs where "xs = sfi_direct i @ sfi_indirect i # (if sfi_indirect i = 0 then [] else idbuf_of (S (sfi_indirect i)))"
  define pos where "pos fb = (if fb < SFS_NDIRECT then fb else Suc fb)" for fb
  have len: "length (sfi_direct i) = SFS_NDIRECT" using ok by (rule inode_ok_facts)
  have at: "pos fb < length xs \<and> xs ! pos fb = fmap S i fb" if "fmap S i fb \<noteq> 0" for fb
    using that len by (auto simp: fmap_def pos_def xs_def nth_append nth_Cons' split: if_splits)
  have "distinct (filter (\<lambda>b. b \<noteq> 0) xs)" using ok by (simp add: inode_ok_def fblocks_def xs_def)
  from distinct_filter_nth [OF this, of "pos x" "pos y"] at [of x] at [of y] assms(2,3)
  have "pos x = pos y" by simp
  then show ?thesis by (simp add: pos_def split: if_splits)
qed

lemma write_data:
  assumes ok: "inode_ok S nb U i" and b: "fmap S i fb = b" "b \<noteq> 0" and S': "S' = S(b := D)"
  shows "fmap S' i = fmap S i" "fblocks S' i = fblocks S i" "fdata S' i = (fdata S i)(fb := D)"
proof -
  have ind: "S' (sfi_indirect i) = S (sfi_indirect i)" if "sfi_indirect i \<noteq> 0"
    using fmap_not_indirect [OF ok that, of fb] b by (auto simp: S')
  show map: "fmap S' i = fmap S i" using ind by (auto simp: fmap_def)
  show "fblocks S' i = fblocks S i" using ind by (simp add: fblocks_def)
  have S'c: "S' c = (if c = b then D else S c)" for c by (simp add: S')
  show "fdata S' i = (fdata S i)(fb := D)"
  proof
    fix x show "fdata S' i x = ((fdata S i)(fb := D)) x"
    proof (cases "x = fb")
      case True
      then show ?thesis using b by (simp add: fdata_def map S'c)
    next
      case False
      then have "fmap S i x \<noteq> b" using fmap_inj [OF ok, of x fb] b by metis
      with False show ?thesis by (simp add: fdata_def map S'c)
    qed
  qed
qed

text \<open>A step that changes the contents of the file at \<open>p\<close> to \<open>F\<close>, its size staying.\<close>

definition file_upd :: "('d \<Rightarrow> nat \<Rightarrow> byte list) \<Rightarrow> nat \<Rightarrow> 'd sfs \<Rightarrow> (nat \<Rightarrow> byte list) \<Rightarrow> 'd sfs \<Rightarrow> bool" where
  "file_upd sectors p s F t \<longleftrightarrow> file_rel sectors p s t \<and> fdata (sectors (dev_of t)) (inode_at p t) = F \<and>
     sfi_size (inode_at p t) = sfi_size (inode_at p s) \<and> io_user (s_io t) = io_user (s_io s)"

lemma file_same_upd:
  "file_same sectors p s t \<longleftrightarrow> uio_of t = uio_of s \<and>
     file_upd sectors p s (fdata (sectors (dev_of s)) (inode_at p s)) t"
  by (auto simp: file_same_def file_upd_def)

lemma file_upd_trans:
  "file_upd sectors p s F t \<Longrightarrow> file_upd sectors p t G u \<Longrightarrow> file_upd sectors p s G u"
  using file_rel_trans [of sectors p s t u] by (simp add: file_upd_def)

lemma file_upd_write:
  assumes fok: "file_ok (sectors (dev_of s)) p s" and b: "fmap (sectors (dev_of s)) (inode_at p s) fb = b" "b \<noteq> 0"
    and t: "t = s\<lparr>s_io := x\<rparr>" "sectors (io_dev x) = (sectors (dev_of s))(b := D)"
      "io_user x = io_user (s_io s)" "io_vmspace x = io_vmspace (s_io s)"
  shows "file_upd sectors p s ((fdata (sectors (dev_of s)) (inode_at p s))(fb := D)) t"
proof -
  obtain sv where sv: "s_heap s p = Some sv" and i: "inode_ok (sectors (dev_of s)) (nblocks_of s) (used_of s) (sv_i sv)"
    using fok by (rule file_okD)
  have b': "fmap (sectors (dev_of s)) (sv_i sv) fb = b" using b sv by simp
  note w = write_data [OF i b' b(2) t(2)]
  have "b \<in> set (fblocks (sectors (dev_of s)) (sv_i sv))"
    using fmap_in_fblocks [of "sv_i sv" "sectors (dev_of s)" fb] inode_ok_facts(1) [OF i] b b' by simp
  with w i sv t show ?thesis
    by (auto simp: file_upd_def file_rel_def sfs_frame_def sv_frame_def file_ok_def inode_ok_def grows_def)
qed

subsection \<open>Block mapping\<close>

text \<open>
  C9. \<^verbatim>\<open>sfs_bmap\<close> finds the disk block of a file block, through the inode or the indirect block. Asked only to
  look, it changes nothing and returns 0 for a hole. Asked to allocate, it returns a block of the file or fails
  with \<^verbatim>\<open>ENOSPC\<close>; what the file reads as is the same in every block, the blocks it has are distinct and marked
  in the free map, blocks of others are not touched, and no block is lost, not even when it
  fails half way.
\<close>

theorem sfs_bmap_correct:
  assumes "block_device d_io d_blocks sectors ready" and "sfs_ok d_blocks ready s"
    and "file_ok (sectors (dev_of s)) p s" and "fb < SFS_NDIRECT + SFS_DBPERIDB"
  shows "case sfs_bmap d_io p fb doalloc s of
      Done b t \<Rightarrow> sfs_ok d_blocks ready t \<and> file_same sectors p s t \<and>
        b = fmap (sectors (dev_of t)) (inode_at p t) fb \<and> (doalloc \<longrightarrow> b \<noteq> 0) \<and>
        (\<not> doalloc \<longrightarrow> sectors (dev_of t) = sectors (dev_of s) \<and> s_heap t = s_heap s \<and> s_freemap t = s_freemap s)
    | Fail e t \<Rightarrow> e = ENOSPC \<and> doalloc \<and> sfs_ok d_blocks ready t \<and> file_same sectors p s t
    | Panic m \<Rightarrow> False"
  using block_device.bmap [OF assms, of doalloc] by (cases "sfs_bmap d_io p fb doalloc s") (simp_all add: bmap_post_def)

text \<open>A small file system: four blocks, one file with one data block and a hole, block 3 free.\<close>

definition sfs_sample :: "uio_rw \<Rightarrow> int \<Rightarrow> nat \<Rightarrow> byte list \<Rightarrow> disk lhd_softc sfs" where
  "sfs_sample rw pos n bs =
     \<lparr>s_super = (super_of [])\<lparr>sp_nblocks := 4\<rparr>, s_superdirty = False, s_vnodes = \<lparr>arr_num = 1, arr_max = 2, arr_v = Some [Some 1, None]\<rparr>,
      s_freemap = \<lparr>bm_nbits = 4, bm_v = [0xf7]\<rparr>, s_freemapdirty = False,
      s_heap = [1 \<mapsto> \<lparr>sv_i = \<lparr>sfi_size = 600, sfi_type = SFS_TYPE_FILE, sfi_linkcount = 1, sfi_direct = 2 # replicate 14 0,
                       sfi_indirect = 0, sfi_waste = replicate 110 0\<rparr>, sv_ino = 1, sv_dirty = False,
                    vn_refcount = 1, vn_opencount = 1, vn_ops = Sfs_fileops\<rparr>],
      s_brk = 2,
      s_io = lhd_sample\<lparr>io_uio := mk_kuio (bs @ replicate (n - length bs) 0) n pos rw\<rparr>\<rparr>"

lemma sfs_sample_map: "bm_set \<lparr>bm_nbits = 4, bm_v = [0xf7]\<rparr> = {0, 1, 2}" "bm_ok \<lparr>bm_nbits = 4, bm_v = [0xf7]\<rparr>"
proof -
  have b: "bit (0xf7 :: byte) i \<longleftrightarrow> i \<in> {0, 1, 2, 4, 5, 6, 7}" if "i < 8" for i
    using that by (auto simp: less_Suc_eq numeral_eq_Suc)
  show "bm_set \<lparr>bm_nbits = 4, bm_v = [0xf7]\<rparr> = {0, 1, 2}" using b by (auto simp: bm_set_def bm_bit_def)
  show "bm_ok \<lparr>bm_nbits = 4, bm_v = [0xf7]\<rparr>" using b by (auto simp: bm_ok_def divroundup_def bm_bit_def)
qed

lemma sfs_sample_ok:
  assumes "0 \<le> pos" "pos + int n < 2 ^ 31" "n < 2 ^ 31" "length bs \<le> n"
  shows "sfs_ok lh_blocks (lhd_ready dk_nsect) (sfs_sample rw pos n bs)"
    and "file_ok secs 1 (sfs_sample rw pos n bs)"
    and "kuio_ok (uio_of (sfs_sample rw pos n bs))"
    and "\<And>fb. fmap secs (inode_at 1 (sfs_sample rw pos n bs)) fb = (if fb = 0 then 2 else 0)"
proof -
  show "sfs_ok lh_blocks (lhd_ready dk_nsect) (sfs_sample rw pos n bs)"
    by (simp add: sfs_ok_def sfs_sample_def sfs_sample_map lhd_sample_def lhd_ready_def)
  show "file_ok secs 1 (sfs_sample rw pos n bs)"
    by (simp add: file_ok_def sfs_sample_def inode_ok_def inode_wf_def fblocks_def sfs_sample_map)
  show "kuio_ok (uio_of (sfs_sample rw pos n bs))"
    using assms by (simp add: sfs_sample_def kuio_ok_def mk_kuio_def)
  show "fmap secs (inode_at 1 (sfs_sample rw pos n bs)) fb = (if fb = 0 then 2 else 0)" for fb
    by (cases fb) (simp_all add: sfs_sample_def fmap_def)
qed

lemma sfs_sample_fields [simp]:
  "uio_rw (uio_of (sfs_sample rw pos n bs)) = rw" "uio_offset (uio_of (sfs_sample rw pos n bs)) = pos"
  "uio_resid (uio_of (sfs_sample rw pos n bs)) = n" "kpast (iov_un (uio_of (sfs_sample rw pos n bs))) = []"
  "sfi_size (inode_at (Suc 0) (sfs_sample rw pos n bs)) = 600"
  "disk_sectors (lh_card (dev_of (sfs_sample rw pos n bs))) k = replicate 512 (of_nat k)"
  by (simp_all add: sfs_sample_def mk_kuio_def lhd_sample_def disk_sectors_def fit_sector_id)

theorem sfs_bmap_correct_witness:
  "let s = sfs_sample UIO_READ 0 0 [] in
   case sfs_bmap (lhd_io disk_card) 1 0 False s of
     Done b t \<Rightarrow> b = 2 \<and> s_freemap t = s_freemap s
   | Fail e t \<Rightarrow> False
   | Panic m \<Rightarrow> False"
proof -
  let ?s = "sfs_sample UIO_READ 0 0 []"
  have hyp: "sfs_ok lh_blocks (lhd_ready dk_nsect) ?s" "file_ok (disk_sectors (lh_card (dev_of ?s))) 1 ?s"
    using sfs_sample_ok(1,2) by simp_all
  have "fmap secs (inode_at 1 ?s) 0 = 2" for secs using sfs_sample_ok(4) [of 0 0 "[]"] by simp
  then show ?thesis
    using sfs_bmap_correct [where p = 1 and fb = 0 and doalloc = False, OF dc.bd.block_device_axioms hyp]
    by (cases "sfs_bmap (lhd_io disk_card) 1 0 False ?s") simp_all
qed

end
