(* ===== verification/SfsFileIO.thy ===== *)
theory SfsFileIO
  imports SfsFile
begin

text \<open>
  Reading and writing files of SFS. The contents of a file are read off the disk as a function
  from byte positions to bytes; \<^verbatim>\<open>sfs_io\<close> is shown to read exactly those bytes and to change
  exactly those it is asked to write, for transfers through a kernel buffer. The routines work
  in pieces (a leading part of a block, whole blocks, a trailing part); each piece is a
  \<open>read_step\<close> or a \<open>write_step\<close>, and steps compose.
\<close>

definition fcontent :: "(nat \<Rightarrow> byte list) \<Rightarrow> sfs_inode \<Rightarrow> nat \<Rightarrow> byte" where
  "fcontent secs i j = fdata secs i (j div SFS_BLOCKSIZE) ! (j mod SFS_BLOCKSIZE)"

abbreviation (input) SFS_MAXFILE :: nat where "SFS_MAXFILE \<equiv> 143 * 512"

text \<open>The state is the same but for what a read of the device may change inside it.\<close>

definition sfs_quiet :: "('d \<Rightarrow> nat \<Rightarrow> byte list) \<Rightarrow> 'd sfs \<Rightarrow> 'd sfs \<Rightarrow> bool" where
  "sfs_quiet sectors s t \<longleftrightarrow> sectors (dev_of t) = sectors (dev_of s) \<and> s_heap t = s_heap s \<and>
     s_freemap t = s_freemap s \<and> s_freemapdirty t = s_freemapdirty s \<and> sfs_frame s t \<and>
     io_user (s_io t) = io_user (s_io s)"

definition read_step :: "('d \<Rightarrow> nat \<Rightarrow> byte list) \<Rightarrow> nat \<Rightarrow> nat \<Rightarrow> 'd sfs \<Rightarrow> 'd sfs \<Rightarrow> bool" where
  "read_step sectors p m s t \<longleftrightarrow> sfs_quiet sectors s t \<and> m \<le> uio_resid (uio_of s) \<and>
     uio_of t = kuio_advance m (map (fcontent (sectors (dev_of s)) (inode_at p s))
       [nat (uio_offset (uio_of s))..<nat (uio_offset (uio_of s)) + m]) (uio_of s)"

definition write_step :: "('d \<Rightarrow> nat \<Rightarrow> byte list) \<Rightarrow> nat \<Rightarrow> nat \<Rightarrow> 'd sfs \<Rightarrow> 'd sfs \<Rightarrow> bool" where
  "write_step sectors p m s t \<longleftrightarrow>
     (let u = uio_of s; bs = take m (krest (iov_un u)) in
      file_rel sectors p s t \<and> sfi_size (inode_at p t) = sfi_size (inode_at p s) \<and>
      io_user (s_io t) = io_user (s_io s) \<and> m \<le> uio_resid u \<and> uio_of t = kuio_advance m bs u \<and>
      fcontent (sectors (dev_of t)) (inode_at p t) =
        mem_put (nat (uio_offset u)) bs (fcontent (sectors (dev_of s)) (inode_at p s)))"

text \<open>
  The effect of a write of the first \<open>m\<close> bytes offered: they are in the file at the offset, every other
  byte is as before, the file reaches at least to where the write ended, and only blocks of the file and blocks
  that were free are touched.
\<close>

definition write_result :: "('d \<Rightarrow> nat \<Rightarrow> byte list) \<Rightarrow> nat \<Rightarrow> nat \<Rightarrow> 'd sfs \<Rightarrow> 'd sfs \<Rightarrow> bool" where
  "write_result sectors p m s t \<longleftrightarrow>
     (let u = uio_of s; pos = nat (uio_offset u); bs = take m (krest (iov_un u)) in
      file_rel sectors p s t \<and> io_user (s_io t) = io_user (s_io s) \<and> uio_of t = kuio_advance m bs u \<and>
      sfi_size (inode_at p t) = max (sfi_size (inode_at p s)) (pos + m) \<and>
      fcontent (sectors (dev_of t)) (inode_at p t) =
        mem_put pos bs (fcontent (sectors (dev_of s)) (inode_at p s)))"

lemma kuio_ok_rest: "kuio_ok u \<Longrightarrow> length (krest (iov_un u)) = iov_len u \<and> uio_resid u \<le> iov_len u \<and> 0 \<le> uio_offset u"
  using kuio_ok_Kbase [of u] by (simp add: kuio_ok_def)

lemma sfs_quiet_refl: "sfs_quiet sectors s s"
  by (simp add: sfs_quiet_def sfs_frame_def)

lemma sfs_quiet_trans: "sfs_quiet sectors s t \<Longrightarrow> sfs_quiet sectors t u \<Longrightarrow> sfs_quiet sectors s u"
  by (simp add: sfs_quiet_def sfs_frame_def)

lemma read_step_0: "kuio_ok (uio_of s) \<Longrightarrow> read_step sectors p 0 s s"
  by (simp add: read_step_def sfs_quiet_refl kuio_advance_0)

lemma read_step_trans:
  assumes ok: "kuio_ok (uio_of s)" and st: "read_step sectors p m s t" and tu: "read_step sectors p n t u"
  shows "read_step sectors p (m + n) s u"
proof -
  let ?o = "nat (uio_offset (uio_of s))"
  have "nat (uio_offset (uio_of t)) = ?o + m" using st kuio_ok_rest [OF ok] by (simp add: read_step_def nat_add_distrib)
  moreover have "[?o..<?o + (m + n)] = [?o..<?o + m] @ [?o + m..<?o + m + n]"
    by (metis add.assoc le_add1 upt_add_eq_append)
  ultimately show ?thesis
    using st tu sfs_quiet_trans [of sectors s t u]
    by (auto simp: read_step_def sfs_quiet_def kuio_advance_add)
qed

lemma write_step_0:
  assumes "kuio_ok (uio_of s)" and "file_ok (sectors (dev_of s)) p s"
  shows "write_step sectors p 0 s s"
  using assms file_rel_refl [of sectors s p] by (simp add: write_step_def kuio_advance_0 mem_put_Nil)

lemma write_step_trans:
  assumes ok: "kuio_ok (uio_of s)" and st: "write_step sectors p m s t" and tu: "write_step sectors p n t u"
  shows "write_step sectors p (m + n) s u"
proof -
  let ?r = "krest (iov_un (uio_of s))"
  have uio: "uio_of t = kuio_advance m (take m ?r) (uio_of s)" and m: "m \<le> uio_resid (uio_of s)"
    using st by (auto simp: write_step_def Let_def)
  have len: "length (take m ?r) = m" using kuio_ok_rest [OF ok] m by simp
  have off: "nat (uio_offset (uio_of t)) = nat (uio_offset (uio_of s)) + length (take m ?r)"
    using uio kuio_ok_rest [OF ok] len by (simp add: nat_add_distrib)
  have rest: "take m ?r @ take n (krest (iov_un (uio_of t))) = take (m + n) ?r"
    by (simp add: uio take_add)
  have "fcontent (sectors (dev_of u)) (inode_at p u) = mem_put (nat (uio_offset (uio_of s))) (take (m + n) ?r)
      (fcontent (sectors (dev_of s)) (inode_at p s))"
    using st tu unfolding write_step_def Let_def off rest [symmetric] mem_put_append [symmetric] by simp
  then show ?thesis
    using st tu file_rel_trans [of sectors p s t u] rest uio
    by (auto simp: write_step_def Let_def kuio_advance_add)
qed

text \<open>The size of an inode says nothing about its blocks.\<close>

lemma fcontent_size: "sfi_direct j = sfi_direct i \<Longrightarrow> sfi_indirect j = sfi_indirect i \<Longrightarrow> fcontent secs j = fcontent secs i"
  by (simp add: fcontent_def fdata_def fmap_def fun_eq_iff)

lemma file_rel_size:
  assumes "file_rel sectors p s t" and "s_heap t p = Some sv"
    and "sv_frame sv sv'" "sfi_direct (sv_i sv') = sfi_direct (sv_i sv)" "sfi_indirect (sv_i sv') = sfi_indirect (sv_i sv)"
      "sfi_waste (sv_i sv') = sfi_waste (sv_i sv)" "sfi_size (sv_i sv') < 2 ^ 32"
  shows "file_rel sectors p s (t\<lparr>s_heap := (s_heap t)(p \<mapsto> sv')\<rparr>)"
proof -
  have "fblocks secs (sv_i sv') = fblocks secs (sv_i sv)" for secs using assms(4,5) by (simp add: fblocks_def)
  moreover have "inode_wf (sv_i sv')" if "inode_wf (sv_i sv)"
    using that assms(3-7) by (simp add: inode_wf_def sv_frame_def)
  ultimately show ?thesis
    using assms(1,2) sv_frame_trans [of "the (s_heap s p)" sv sv', OF _ assms(3)]
    by (auto simp: file_rel_def sfs_frame_def file_ok_def inode_ok_def)
qed

subsection \<open>Positions and blocks\<close>

lemma fcontent_piece:
  assumes "length (fdata secs i fb) = SFS_BLOCKSIZE" and "skip + len \<le> SFS_BLOCKSIZE"
  shows "take len (drop skip (fdata secs i fb)) =
    map (fcontent secs i) [fb * SFS_BLOCKSIZE + skip..<fb * SFS_BLOCKSIZE + skip + len]"
proof (rule nth_equalityI)
  fix j assume "j < length (take len (drop skip (fdata secs i fb)))"
  then have j: "j < len" using assms by simp
  then have "(fb * SFS_BLOCKSIZE + skip + j) div SFS_BLOCKSIZE = fb"
    "(fb * SFS_BLOCKSIZE + skip + j) mod SFS_BLOCKSIZE = skip + j"
    using assms(2) by (simp_all add: add.assoc)
  then show "take len (drop skip (fdata secs i fb)) ! j =
      map (fcontent secs i) [fb * SFS_BLOCKSIZE + skip..<fb * SFS_BLOCKSIZE + skip + len] ! j"
    using j assms by (simp add: fcontent_def)
qed (use assms in simp)

lemma fcontent_put:
  assumes "length (fdata secs i fb) = SFS_BLOCKSIZE" and "skip + length bs \<le> SFS_BLOCKSIZE"
    and "fdata secs' i' = (fdata secs i)(fb := take skip (fdata secs i fb) @ bs @ drop (skip + length bs) (fdata secs i fb))"
  shows "fcontent secs' i' = mem_put (fb * SFS_BLOCKSIZE + skip) bs (fcontent secs i)"
proof
  fix j
  let ?D = "fdata secs i fb"
  show "fcontent secs' i' j = mem_put (fb * SFS_BLOCKSIZE + skip) bs (fcontent secs i) j"
  proof (cases "j div SFS_BLOCKSIZE = fb")
    case False
    have "\<not> (fb * SFS_BLOCKSIZE + skip \<le> j \<and> j < fb * SFS_BLOCKSIZE + skip + length bs)"
    proof (rule notI)
      assume "fb * SFS_BLOCKSIZE + skip \<le> j \<and> j < fb * SFS_BLOCKSIZE + skip + length bs"
      then have "j div SFS_BLOCKSIZE = fb" using assms(2) by (intro div_nat_eqI) auto
      with False show False by simp
    qed
    with False show ?thesis by (auto simp: fcontent_def assms(3) mem_put_def)
  next
    case True
    define r where "r = j mod SFS_BLOCKSIZE"
    have j: "j = fb * SFS_BLOCKSIZE + r" "r < SFS_BLOCKSIZE"
      using True div_mult_mod_eq [of j SFS_BLOCKSIZE] by (simp_all add: r_def)
    have "(take skip ?D @ bs @ drop (skip + length bs) ?D) ! r =
        (if r < skip then ?D ! r else if r < skip + length bs then bs ! (r - skip) else ?D ! r)"
      using assms(1,2) j(2) by (auto simp: nth_append)
    with True j show ?thesis by (auto simp: fcontent_def assms(3) mem_put_def r_def [symmetric])
  qed
qed

lemma uio_block:
  assumes "kuio_ok u"
  shows "uio_fileblock u = nat (uio_offset u) div SFS_BLOCKSIZE"
    and "nat (uio_offset u mod int SFS_BLOCKSIZE) = nat (uio_offset u) mod SFS_BLOCKSIZE"
proof -
  have o: "0 \<le> uio_offset u" "uio_offset u < 2 ^ 31" using assms by (auto simp: kuio_ok_def)
  define n where "n = nat (uio_offset u)"
  have n: "uio_offset u = int n" "n < 2 ^ 31" using o by (auto simp: n_def)
  have "int n div int SFS_BLOCKSIZE mod 2 ^ 32 = int n div int SFS_BLOCKSIZE"
    using n(2) by (intro mod_pos_pos_trivial) (auto simp: zdiv_int)
  then have "uio_fileblock u = n div SFS_BLOCKSIZE"
    by (simp add: uio_fileblock_def n(1) nat_div_distrib)
  moreover have "nat (uio_offset u mod int SFS_BLOCKSIZE) = n mod SFS_BLOCKSIZE"
    by (simp add: n(1) nat_mod_distrib)
  ultimately show "uio_fileblock u = nat (uio_offset u) div SFS_BLOCKSIZE"
    "nat (uio_offset u mod int SFS_BLOCKSIZE) = nat (uio_offset u) mod SFS_BLOCKSIZE"
    by (simp_all add: n_def)
qed

subsection \<open>Pieces of a transfer\<close>

text \<open>
  The outcome of a piece of a write: it is done, or the space or the file is exhausted, and then the
  write stops at a block boundary or has not begun.
\<close>

definition at_boundary :: "nat \<Rightarrow> nat \<Rightarrow> bool" where
  "at_boundary pos m \<longleftrightarrow> m = 0 \<or> (pos + m) mod SFS_BLOCKSIZE = 0"

definition write_piece :: "('d \<Rightarrow> nat) \<Rightarrow> ('d \<Rightarrow> nat \<Rightarrow> byte list) \<Rightarrow> ('d \<Rightarrow> bool) \<Rightarrow> nat \<Rightarrow> nat \<Rightarrow> 'd sfs
    \<Rightarrow> ('d sfs, unit) outcome \<Rightarrow> bool" where
  "write_piece d_blocks sectors ready p n s r = (case r of
      Done _ t \<Rightarrow> sfs_ok d_blocks ready t \<and> write_step sectors p n s t
    | Fail e t \<Rightarrow> sfs_ok d_blocks ready t \<and>
        (\<exists>m < n. write_step sectors p m s t \<and> at_boundary (nat (uio_offset (uio_of s))) m) \<and>
        (e = ENOSPC \<or> e = EINVAL \<and> SFS_MAXFILE < nat (uio_offset (uio_of s)) + n)
    | Panic m \<Rightarrow> False)"

definition read_piece :: "('d \<Rightarrow> nat) \<Rightarrow> ('d \<Rightarrow> nat \<Rightarrow> byte list) \<Rightarrow> ('d \<Rightarrow> bool) \<Rightarrow> nat \<Rightarrow> nat \<Rightarrow> 'd sfs
    \<Rightarrow> ('d sfs, unit) outcome \<Rightarrow> bool" where
  "read_piece d_blocks sectors ready p n s r =
     (\<exists>t. r = Done () t \<and> sfs_ok d_blocks ready t \<and> read_step sectors p n s t)"

context block_device begin

lemma fdata_length:
  assumes "sfs_ok d_blocks ready s" and "file_ok (sectors (dev_of s)) p s"
  shows "length (fdata (sectors (dev_of s)) (inode_at p s) fb) = SFS_BLOCKSIZE"
proof -
  have "fmap (sectors (dev_of s)) (inode_at p s) fb < d_blocks (dev_of s)"
    if "fmap (sectors (dev_of s)) (inode_at p s) fb \<noteq> 0"
    using assms that inode_ok_facts(4) [of "sectors (dev_of s)" _ _ "inode_at p s" fb]
    by (fastforce simp: file_ok_def sfs_ok_def)
  then show ?thesis using assms(1) sector_length by (simp add: fdata_def sfs_ok_def)
qed

lemma sfs_ok_quiet: "sfs_ok d_blocks ready s \<Longrightarrow> ready (dev_of t) \<Longrightarrow> d_blocks (dev_of t) = d_blocks (dev_of s) \<Longrightarrow>
    s_freemap t = s_freemap s \<Longrightarrow> s_super t = s_super s \<Longrightarrow> sfs_ok d_blocks ready t"
  by (simp add: sfs_ok_def)

text \<open>Loading the block a file block maps to, or zeros for a hole.\<close>

lemma load_block:
  assumes ok: "sfs_ok d_blocks ready s" and fok: "file_ok (sectors (dev_of s)) p s"
    and b: "b = fmap (sectors (dev_of s)) (inode_at p s) fb" "b \<noteq> 0"
  shows "\<exists>d. on_io (sfs_rblock d_io b) s = Done (fdata (sectors (dev_of s)) (inode_at p s) fb) (s\<lparr>s_io := (s_io s)\<lparr>io_dev := d\<rparr>\<rparr>) \<and>
    ready d \<and> d_blocks d = d_blocks (dev_of s) \<and> sectors d = sectors (dev_of s)"
proof -
  have "b < d_blocks (dev_of s)"
    using ok fok b inode_ok_facts(4) [of "sectors (dev_of s)" _ _ "inode_at p s" fb]
    by (fastforce simp: file_ok_def sfs_ok_def)
  with rblock [of "s_io s" b] ok show ?thesis
    using b by (auto simp: sfs_ok_def kprog fdata_def)
qed

lemma partial_read:
  assumes ok: "sfs_ok d_blocks ready s" and fok: "file_ok (sectors (dev_of s)) p s"
    and u: "u = uio_of s" "kuio_ok u" "uio_rw u = UIO_READ"
    and piece: "skip = nat (uio_offset u) mod SFS_BLOCKSIZE" "skip + len \<le> SFS_BLOCKSIZE" "len \<le> uio_resid u"
    and fb: "nat (uio_offset u) div SFS_BLOCKSIZE < SFS_NDIRECT + SFS_DBPERIDB"
  shows "\<exists>t. sfs_partialio d_io p skip len s = Done () t \<and> sfs_ok d_blocks ready t \<and> read_step sectors p len s t"
proof -
  define fb where "fb = uio_fileblock u"
  let ?D = "fdata (sectors (dev_of s)) (inode_at p s) fb"
  have fbs: "fb < SFS_NDIRECT + SFS_DBPERIDB" "nat (uio_offset u) = fb * SFS_BLOCKSIZE + skip"
    using fb by (simp_all add: fb_def uio_block(1) [OF u(2)] piece(1))
  have len: "length ?D = SFS_BLOCKSIZE" using ok fok by (rule fdata_length)
  have post: "bmap_post d_blocks sectors ready p fb False s (sfs_bmap d_io p fb False s)"
    using ok fok fbs(1) by (rule bmap)
  obtain b t1 where t1: "sfs_bmap d_io p fb False s = Done b t1"
    using post by (cases "sfs_bmap d_io p fb False s") (simp_all add: bmap_post_def)
  have t1': "sfs_ok d_blocks ready t1" "file_same sectors p s t1" "b = fmap (sectors (dev_of t1)) (inode_at p t1) fb"
    "sectors (dev_of t1) = sectors (dev_of s)" "s_heap t1 = s_heap s" "s_freemap t1 = s_freemap s"
    "s_freemapdirty t1 = s_freemapdirty s"
    using post unfolding t1 by (simp_all add: bmap_post_def)
  have fok1: "file_ok (sectors (dev_of t1)) p t1" using t1'(2) by (simp add: file_same_def file_rel_def)
  obtain d where d: "(if b = 0 then kthen (kassert (uio_rw u = UIO_READ)) (kret (replicate SFS_BLOCKSIZE 0))
             else on_io (sfs_rblock d_io b)) t1 = Done ?D (t1\<lparr>s_io := (s_io t1)\<lparr>io_dev := d\<rparr>\<rparr>)"
      "ready d" "d_blocks d = d_blocks (dev_of t1)" "sectors d = sectors (dev_of t1)"
  proof (cases "b = 0")
    case True
    then have "?D = replicate SFS_BLOCKSIZE 0" using t1' by (simp add: fdata_def)
    with True u t1'(1) that [of "dev_of t1"] show ?thesis by (simp add: kprog sfs_ok_def)
  next
    case False
    with load_block [OF t1'(1) fok1 t1'(3)] t1'(4,5) that show ?thesis by auto
  qed
  let ?io = "(s_io t1)\<lparr>io_dev := d\<rparr>"
  have uio1: "uio_of t1 = u" using t1'(2) u by (simp add: file_same_def)
  have mv: "uiomove (drop skip ?D) len ?io =
      Done (drop skip ?D) (?io\<lparr>io_uio := kuio_advance len (take len (drop skip ?D)) u\<rparr>)"
    using uiomove_kernel [of ?io len "drop skip ?D"] uio1 u(2,3) piece(2,3) len by (simp add: Let_def)
  let ?t = "t1\<lparr>s_io := ?io\<lparr>io_uio := kuio_advance len (take len (drop skip ?D)) u\<rparr>\<rparr>"
  have "sfs_partialio d_io p skip len s = Done () ?t"
    unfolding sfs_partialio_def Let_def
    using piece(2) t1 u(3) d(1) mv by (simp add: kprog u(1) [symmetric] fb_def [symmetric])
  moreover have "sfs_ok d_blocks ready ?t" using t1'(1) d by (simp add: sfs_ok_def)
  moreover have "read_step sectors p len s ?t"
    using fcontent_piece [OF len piece(2)] fbs(2) t1' d piece(3)
    by (simp add: read_step_def sfs_quiet_def file_same_def file_rel_def sfs_frame_def u(1) [symmetric])
  ultimately show ?thesis by blast
qed

text \<open>Writing a piece of the block \<open>b\<close> that \<^verbatim>\<open>sfs_bmap\<close> has named, given what it holds.\<close>

lemma store_piece:
  assumes ok: "sfs_ok d_blocks ready s" and fok: "file_ok (sectors (dev_of s)) p s" and u: "u = uio_of s" "kuio_ok u"
    and b: "b = fmap (sectors (dev_of s)) (inode_at p s) fb" "b \<noteq> 0"
    and piece: "nat (uio_offset u) = fb * SFS_BLOCKSIZE + skip" "skip + n \<le> SFS_BLOCKSIZE" "n \<le> uio_resid u"
    and D: "D = fdata (sectors (dev_of s)) (inode_at p s) fb" and bs: "bs = take n (krest (iov_un u))"
    and d: "ready d" "d_blocks d = d_blocks (dev_of s)" "sectors d = (sectors (dev_of s))(b := take skip D @ bs @ drop (skip + n) D)"
    and t: "t = s\<lparr>s_io := (s_io s)\<lparr>io_uio := kuio_advance n bs u, io_dev := d\<rparr>\<rparr>"
  shows "sfs_ok d_blocks ready t \<and> write_step sectors p n s t"
proof -
  have len: "length D = SFS_BLOCKSIZE" unfolding D using ok fok by (rule fdata_length)
  have n: "length bs = n" using kuio_ok_rest [OF u(2)] piece(3) bs by simp
  have upd: "file_upd sectors p s ((fdata (sectors (dev_of s)) (inode_at p s))(fb := take skip D @ bs @ drop (skip + n) D)) t"
    by (rule file_upd_write [where sectors = sectors, OF fok b(1) [symmetric] b(2) t]) (simp_all add: d)
  have "fcontent (sectors (dev_of t)) (inode_at p t) =
      mem_put (fb * SFS_BLOCKSIZE + skip) bs (fcontent (sectors (dev_of s)) (inode_at p s))"
  proof (rule fcontent_put)
    show "length (fdata (sectors (dev_of s)) (inode_at p s) fb) = SFS_BLOCKSIZE" using len D by simp
    show "skip + length bs \<le> SFS_BLOCKSIZE" using n piece(2) by simp
    show "fdata (sectors (dev_of t)) (inode_at p t) = (fdata (sectors (dev_of s)) (inode_at p s))
        (fb := take skip (fdata (sectors (dev_of s)) (inode_at p s) fb) @ bs @
               drop (skip + length bs) (fdata (sectors (dev_of s)) (inode_at p s) fb))"
      using upd n D by (simp add: file_upd_def)
  qed
  with upd have "write_step sectors p n s t"
    unfolding write_step_def Let_def u(1) [symmetric] bs [symmetric] piece(1)
    using piece(3) by (simp add: file_upd_def t)
  moreover have "sfs_ok d_blocks ready t" using ok d by (simp add: sfs_ok_def t)
  ultimately show ?thesis by blast
qed

lemma write_piece_after:
  assumes ok: "kuio_ok (uio_of s)" and same: "file_same sectors p s s1" and step: "write_step sectors p n s1 t"
  shows "write_step sectors p n s t"
proof -
  have c: "fcontent (sectors (dev_of s1)) (inode_at p s1) = fcontent (sectors (dev_of s)) (inode_at p s)"
    using same by (auto simp: file_same_def fcontent_def)
  show ?thesis
    using same step file_rel_trans [of sectors p s s1 t] unfolding write_step_def Let_def c by (simp add: file_same_def)
qed

lemma partial_write:
  assumes ok: "sfs_ok d_blocks ready s" and fok: "file_ok (sectors (dev_of s)) p s"
    and u: "u = uio_of s" "kuio_ok u" "uio_rw u = UIO_WRITE"
    and piece: "skip = nat (uio_offset u) mod SFS_BLOCKSIZE" "skip + n \<le> SFS_BLOCKSIZE" "n \<le> uio_resid u" "0 < n"
  shows "write_piece d_blocks sectors ready p n s (sfs_partialio d_io p skip n s)"
proof -
  define fb where "fb = uio_fileblock u"
  have off: "nat (uio_offset u) = fb * SFS_BLOCKSIZE + skip"
    by (simp add: fb_def uio_block(1) [OF u(2)] piece(1))
  have zero: "write_step sectors p 0 s s" using write_step_0 [of s sectors p] u fok by simp
  show ?thesis
  proof (cases "fb < SFS_NDIRECT + SFS_DBPERIDB")
    case False
    then have "sfs_partialio d_io p skip n s = Fail EINVAL s"
      using bmap_too_big [of fb p True s] piece(2) u
      by (simp add: sfs_partialio_def Let_def kprog fb_def [symmetric] u(1) [symmetric])
    then show ?thesis using zero ok off False piece(4) u(1) by (auto simp: write_piece_def at_boundary_def)
  next
    case True
    have post: "bmap_post d_blocks sectors ready p fb True s (sfs_bmap d_io p fb True s)"
      using ok fok True by (rule bmap)
    show ?thesis
    proof (cases "sfs_bmap d_io p fb True s")
      case (Fail e t)
      then have "sfs_partialio d_io p skip n s = Fail e t"
        using piece(2) u by (simp add: sfs_partialio_def Let_def kprog fb_def [symmetric] u(1) [symmetric])
      moreover have "e = ENOSPC" "sfs_ok d_blocks ready t" "file_same sectors p s t"
        using post Fail by (auto simp: bmap_post_def)
      moreover have "write_step sectors p 0 s t"
        using write_piece_after [of s p t 0 t] write_step_0 [of t sectors p] calculation u
        by (simp add: file_same_def file_rel_def)
      ultimately show ?thesis using piece(4) by (auto simp: write_piece_def at_boundary_def)
    next
      case (Panic m)
      with post show ?thesis by (simp add: bmap_post_def)
    next
      case (Done b s1)
      then have s1: "sfs_ok d_blocks ready s1" "file_same sectors p s s1" "b = fmap (sectors (dev_of s1)) (inode_at p s1) fb" "b \<noteq> 0"
        using post by (auto simp: bmap_post_def)
      have fok1: "file_ok (sectors (dev_of s1)) p s1" and uio1: "uio_of s1 = u"
        using s1(2) u by (auto simp: file_same_def file_rel_def)
      let ?D = "fdata (sectors (dev_of s1)) (inode_at p s1) fb" and ?bs = "take n (krest (iov_un u))"
      let ?new = "take skip ?D @ ?bs @ drop (skip + n) ?D"
      obtain d where d: "on_io (sfs_rblock d_io b) s1 = Done ?D (s1\<lparr>s_io := (s_io s1)\<lparr>io_dev := d\<rparr>\<rparr>)"
        "ready d" "d_blocks d = d_blocks (dev_of s1)" "sectors d = sectors (dev_of s1)"
        using load_block [OF s1(1) fok1 s1(3,4)] by blast
      have len: "length ?D = SFS_BLOCKSIZE" using s1(1) fok1 by (rule fdata_length)
      have bs: "length ?bs = n" using kuio_ok_rest [OF u(2)] piece(3) by simp
      let ?io = "(s_io s1)\<lparr>io_dev := d, io_uio := kuio_advance n ?bs u\<rparr>"
      have mv: "uiomove (drop skip ?D) n ((s_io s1)\<lparr>io_dev := d\<rparr>) = Done (?bs @ drop (skip + n) ?D) ?io"
        using uiomove_kernel [of "(s_io s1)\<lparr>io_dev := d\<rparr>" n "drop skip ?D"] uio1 u(2,3) piece(2,3) len
        by (simp add: Let_def add.commute)
      have "b < d_blocks d"
        using s1 d(3) inode_ok_facts(4) [of "sectors (dev_of s1)" _ _ "inode_at p s1" fb] fok1
        by (fastforce simp: file_ok_def sfs_ok_def)
      then obtain d' where d': "sfs_wblock d_io ?new b ?io = Done () (?io\<lparr>io_dev := d'\<rparr>)" "ready d'"
        "d_blocks d' = d_blocks d" "sectors d' = (sectors d)(b := ?new)"
        using wblock [of ?io b ?new] d len bs piece(2) by auto
      let ?t = "s1\<lparr>s_io := (s_io s1)\<lparr>io_uio := kuio_advance n ?bs u, io_dev := d'\<rparr>\<rparr>"
      have "sfs_partialio d_io p skip n s = Done () ?t"
        unfolding sfs_partialio_def Let_def using piece(2) Done u(3) s1(4) d(1) mv d'(1)
        by (simp add: kprog u(1) [symmetric] fb_def [symmetric])
      moreover have "sfs_ok d_blocks ready ?t \<and> write_step sectors p n s1 ?t"
        using d d' by (intro store_piece [OF s1(1) fok1 uio1 [symmetric] u(2) s1(3,4) off piece(2,3) refl refl]) auto
      ultimately show ?thesis
        using write_piece_after [of s p s1 n ?t] s1(2) u by (simp add: write_piece_def)
    qed
  qed
qed

text \<open>
  \<^verbatim>\<open>sfs_blockio\<close> on a mapped block: the descriptor is pointed at the disk for the request, and the
  caller's offset and residue are recovered from what the device did to them.
\<close>

lemma blockio_mapped:
  assumes ok: "sfs_ok d_blocks ready s1" and b: "b < d_blocks (dev_of s1)"
    and u: "uio_of s1 = u" "kuio_ok u" "SFS_BLOCKSIZE \<le> uio_resid u" "uio_rw u = rw"
    and bs: "bs = (if rw = UIO_READ then sectors (dev_of s1) b else take SFS_BLOCKSIZE (krest (iov_un u)))"
  shows "\<exists>d. sfs_blockio_disk d_io b s1 =
      Done () (s1\<lparr>s_io := (s_io s1)\<lparr>io_uio := kuio_advance SFS_BLOCKSIZE bs u, io_dev := d\<rparr>\<rparr>) \<and>
    ready d \<and> d_blocks d = d_blocks (dev_of s1) \<and>
    sectors d = (if rw = UIO_READ then sectors (dev_of s1) else (sectors (dev_of s1))(b := bs))"
proof -
  have rdy: "ready (dev_of s1)" using ok by (simp add: sfs_ok_def)
  have bb: "b * SFS_BLOCKSIZE + SFS_BLOCKSIZE < 2 ^ 31" using blocks_bound [OF rdy] b by simp
  have disk: "wrap32 (int b * 512) = int b * 512" using bb by (intro wrap32_id) auto
  let ?v = "u\<lparr>uio_offset := int b * 512, uio_resid := SFS_BLOCKSIZE\<rparr>"
  let ?x = "(s_io s1)\<lparr>io_uio := ?v\<rparr>"
  have req: "block_request b (io_uio ?x)"
    using u bb by (auto simp: block_request_def kuio_ok_def split: iov_base.splits)
  obtain d where d: "d_io ?x = Done () (?x\<lparr>io_uio := kuio_advance SFS_BLOCKSIZE bs ?v, io_dev := d\<rparr>)"
    "ready d" "d_blocks d = d_blocks (dev_of s1)"
    "sectors d = (if rw = UIO_READ then sectors (dev_of s1) else (sectors (dev_of s1))(b := bs))"
    using read_law [of ?x b] write_law [of ?x b] rdy b req u(4) bs by (cases rw) (auto simp: Let_def)
  have off: "wrap32 (512 + uio_offset u) = uio_offset u + 512" and res: "(uio_resid u + 2 ^ 32 - SFS_BLOCKSIZE) mod 2 ^ 32 = uio_resid u - SFS_BLOCKSIZE"
  proof -
    have "0 \<le> uio_offset u" "uio_offset u + int (uio_resid u) < 2 ^ 31" "uio_resid u < 2 ^ 31"
      using u(2) by (auto simp: kuio_ok_def)
    then show "wrap32 (512 + uio_offset u) = uio_offset u + 512"
      using u(3) by (subst wrap32_id) auto
    show "(uio_resid u + 2 ^ 32 - SFS_BLOCKSIZE) mod 2 ^ 32 = uio_resid u - SFS_BLOCKSIZE"
      using usub32_eq [OF u(3)] \<open>uio_resid u < 2 ^ 31\<close> by (simp add: usub32_def)
  qed
  have adv: "(kuio_advance SFS_BLOCKSIZE bs ?v)\<lparr>uio_offset := uio_offset u + 512, uio_resid := uio_resid u - SFS_BLOCKSIZE\<rparr> =
      kuio_advance SFS_BLOCKSIZE bs u"
    by (simp add: kuio_advance_def)
  show ?thesis
    using sfs_rwblock_Done [of d_io ?x] d u(1,3) off res adv
    by (intro exI [of _ d]) (simp add: sfs_blockio_disk_def Let_def kprog disk)
qed

lemma block_read:
  assumes ok: "sfs_ok d_blocks ready s" and fok: "file_ok (sectors (dev_of s)) p s"
    and u: "u = uio_of s" "kuio_ok u" "uio_rw u = UIO_READ"
    and piece: "nat (uio_offset u) mod SFS_BLOCKSIZE = 0" "SFS_BLOCKSIZE \<le> uio_resid u"
    and fb: "nat (uio_offset u) div SFS_BLOCKSIZE < SFS_NDIRECT + SFS_DBPERIDB"
  shows "\<exists>t. sfs_blockio d_io p s = Done () t \<and> sfs_ok d_blocks ready t \<and> read_step sectors p SFS_BLOCKSIZE s t"
proof -
  define fb where "fb = uio_fileblock u"
  let ?D = "fdata (sectors (dev_of s)) (inode_at p s) fb"
  have fbs: "fb < SFS_NDIRECT + SFS_DBPERIDB" "nat (uio_offset u) = fb * SFS_BLOCKSIZE + 0"
    using fb piece(1) by (simp_all add: fb_def uio_block(1) [OF u(2)] div_mult_mod_eq mod_0_imp_dvd)
  have len: "length ?D = SFS_BLOCKSIZE" using ok fok by (rule fdata_length)
  have post: "bmap_post d_blocks sectors ready p fb False s (sfs_bmap d_io p fb False s)"
    using ok fok fbs(1) by (rule bmap)
  obtain b t1 where t1: "sfs_bmap d_io p fb False s = Done b t1"
    using post by (cases "sfs_bmap d_io p fb False s") (simp_all add: bmap_post_def)
  have t1': "sfs_ok d_blocks ready t1" "file_same sectors p s t1" "b = fmap (sectors (dev_of t1)) (inode_at p t1) fb"
    "sectors (dev_of t1) = sectors (dev_of s)" "s_heap t1 = s_heap s" "s_freemap t1 = s_freemap s"
    "s_freemapdirty t1 = s_freemapdirty s"
    using post unfolding t1 by (simp_all add: bmap_post_def)
  have fok1: "file_ok (sectors (dev_of t1)) p t1" and uio1: "uio_of t1 = u"
    using t1'(2) u by (auto simp: file_same_def file_rel_def)
  have "\<exists>d. sfs_blockio d_io p s = Done () (t1\<lparr>s_io := (s_io t1)\<lparr>io_uio := kuio_advance SFS_BLOCKSIZE ?D u, io_dev := d\<rparr>\<rparr>) \<and>
      ready d \<and> d_blocks d = d_blocks (dev_of t1) \<and> sectors d = sectors (dev_of t1)"
  proof (cases "b = 0")
    case True
    then have "?D = replicate SFS_BLOCKSIZE 0" using t1' by (simp add: fdata_def)
    moreover have "uiomovezeros SFS_BLOCKSIZE (s_io t1) = Done () ((s_io t1)\<lparr>io_uio := kuio_advance SFS_BLOCKSIZE (replicate SFS_BLOCKSIZE 0) u\<rparr>)"
      using uiomovezeros_kernel [of "s_io t1" SFS_BLOCKSIZE] uio1 u(2,3) piece(2) by simp
    ultimately show ?thesis
      using True t1 u(3) t1'(1) by (intro exI [of _ "dev_of t1"])
        (simp add: sfs_blockio_def Let_def kprog u(1) [symmetric] fb_def [symmetric] sfs_ok_def)
  next
    case False
    have "b < d_blocks (dev_of t1)"
      using t1' False inode_ok_facts(4) [of "sectors (dev_of t1)" _ _ "inode_at p t1" fb] fok1
      by (fastforce simp: file_ok_def sfs_ok_def)
    from blockio_mapped [OF t1'(1) this uio1 u(2) piece(2) u(3) refl] show ?thesis
      using False t1 t1' u(3)
      by (simp add: sfs_blockio_def Let_def kprog u(1) [symmetric] fb_def [symmetric] fdata_def)
  qed
  then obtain d where run: "sfs_blockio d_io p s = Done () (t1\<lparr>s_io := (s_io t1)\<lparr>io_uio := kuio_advance SFS_BLOCKSIZE ?D u, io_dev := d\<rparr>\<rparr>)"
    and d: "ready d" "d_blocks d = d_blocks (dev_of t1)" "sectors d = sectors (dev_of t1)" by blast
  let ?t = "t1\<lparr>s_io := (s_io t1)\<lparr>io_uio := kuio_advance SFS_BLOCKSIZE ?D u, io_dev := d\<rparr>\<rparr>"
  have "sfs_ok d_blocks ready ?t" using t1'(1) d by (simp add: sfs_ok_def)
  moreover have "read_step sectors p SFS_BLOCKSIZE s ?t"
    using fcontent_piece [OF len, of 0 SFS_BLOCKSIZE] fbs(2) t1' d piece(2) len
    by (simp add: read_step_def sfs_quiet_def file_same_def file_rel_def sfs_frame_def u(1) [symmetric])
  ultimately show ?thesis using run by blast
qed

lemma block_write:
  assumes ok: "sfs_ok d_blocks ready s" and fok: "file_ok (sectors (dev_of s)) p s"
    and u: "u = uio_of s" "kuio_ok u" "uio_rw u = UIO_WRITE"
    and piece: "nat (uio_offset u) mod SFS_BLOCKSIZE = 0" "SFS_BLOCKSIZE \<le> uio_resid u"
  shows "write_piece d_blocks sectors ready p SFS_BLOCKSIZE s (sfs_blockio d_io p s)"
proof -
  define fb where "fb = uio_fileblock u"
  have off: "nat (uio_offset u) = fb * SFS_BLOCKSIZE + 0"
    using piece(1) by (simp add: fb_def uio_block(1) [OF u(2)] div_mult_mod_eq mod_0_imp_dvd)
  have zero: "write_step sectors p 0 s s" using write_step_0 [of s sectors p] u fok by simp
  show ?thesis
  proof (cases "fb < SFS_NDIRECT + SFS_DBPERIDB")
    case False
    then have "sfs_blockio d_io p s = Fail EINVAL s"
      using bmap_too_big [of fb p True s] u
      by (simp add: sfs_blockio_def Let_def kprog fb_def [symmetric] u(1) [symmetric])
    then show ?thesis using zero ok off False u(1) by (auto simp: at_boundary_def write_piece_def intro!: exI [of _ 0])
  next
    case True
    have post: "bmap_post d_blocks sectors ready p fb True s (sfs_bmap d_io p fb True s)"
      using ok fok True by (rule bmap)
    show ?thesis
    proof (cases "sfs_bmap d_io p fb True s")
      case (Fail e t)
      then have "sfs_blockio d_io p s = Fail e t"
        using u by (simp add: sfs_blockio_def Let_def kprog fb_def [symmetric] u(1) [symmetric])
      moreover have "e = ENOSPC" "sfs_ok d_blocks ready t" "file_same sectors p s t"
        using post Fail by (auto simp: bmap_post_def)
      moreover have "write_step sectors p 0 s t"
        using write_piece_after [of s p t 0 t] write_step_0 [of t sectors p] calculation u
        by (simp add: file_same_def file_rel_def)
      ultimately show ?thesis by (auto simp: at_boundary_def write_piece_def intro!: exI [of _ 0])
    next
      case (Panic m)
      with post show ?thesis by (simp add: bmap_post_def)
    next
      case (Done b s1)
      then have s1: "sfs_ok d_blocks ready s1" "file_same sectors p s s1" "b = fmap (sectors (dev_of s1)) (inode_at p s1) fb" "b \<noteq> 0"
        using post by (auto simp: bmap_post_def)
      have fok1: "file_ok (sectors (dev_of s1)) p s1" and uio1: "uio_of s1 = u"
        using s1(2) u by (auto simp: file_same_def file_rel_def)
      let ?D = "fdata (sectors (dev_of s1)) (inode_at p s1) fb" and ?bs = "take SFS_BLOCKSIZE (krest (iov_un u))"
      have "b < d_blocks (dev_of s1)"
        using s1 inode_ok_facts(4) [of "sectors (dev_of s1)" _ _ "inode_at p s1" fb] fok1
        by (fastforce simp: file_ok_def sfs_ok_def)
      then obtain d where d: "sfs_blockio_disk d_io b s1 =
          Done () (s1\<lparr>s_io := (s_io s1)\<lparr>io_uio := kuio_advance SFS_BLOCKSIZE ?bs u, io_dev := d\<rparr>\<rparr>)"
        "ready d" "d_blocks d = d_blocks (dev_of s1)" "sectors d = (sectors (dev_of s1))(b := ?bs)"
        using blockio_mapped [OF s1(1) _ uio1 u(2) piece(2) u(3) refl, of b] by auto
      let ?t = "s1\<lparr>s_io := (s_io s1)\<lparr>io_uio := kuio_advance SFS_BLOCKSIZE ?bs u, io_dev := d\<rparr>\<rparr>"
      have "length ?D = SFS_BLOCKSIZE" using s1(1) fok1 by (rule fdata_length)
      then have "sfs_ok d_blocks ready ?t \<and> write_step sectors p SFS_BLOCKSIZE s1 ?t"
        using d piece(2)
        by (intro store_piece [OF s1(1) fok1 uio1 [symmetric] u(2) s1(3,4) off, where D = ?D and bs = ?bs]) auto
      moreover have "sfs_blockio d_io p s = Done () ?t"
        using Done u(3) s1(4) d(1) by (simp add: sfs_blockio_def Let_def kprog u(1) [symmetric] fb_def [symmetric])
      ultimately show ?thesis
        using write_piece_after [of s p s1 SFS_BLOCKSIZE ?t] s1(2) u by (simp add: at_boundary_def write_piece_def)
    qed
  qed
qed

text \<open>Facts every step keeps for the next one.\<close>

lemma read_step_keeps:
  assumes "read_step sectors p m s t" and "file_ok (sectors (dev_of s)) p s" and "kuio_ok (uio_of s)"
  shows "file_ok (sectors (dev_of t)) p t" "kuio_ok (uio_of t)" "uio_rw (uio_of t) = uio_rw (uio_of s)"
    "nat (uio_offset (uio_of t)) = nat (uio_offset (uio_of s)) + m"
    "uio_resid (uio_of t) = uio_resid (uio_of s) - m" "s_heap t = s_heap s"
  using assms kuio_ok_rest [OF assms(3)]
  by (auto simp: read_step_def sfs_quiet_def file_ok_def sfs_frame_def kuio_ok_advance nat_add_distrib)

lemma write_step_keeps:
  assumes "write_step sectors p m s t" and "kuio_ok (uio_of s)"
  shows "file_ok (sectors (dev_of t)) p t" "kuio_ok (uio_of t)" "uio_rw (uio_of t) = uio_rw (uio_of s)"
    "nat (uio_offset (uio_of t)) = nat (uio_offset (uio_of s)) + m"
    "uio_resid (uio_of t) = uio_resid (uio_of s) - m"
  using assms kuio_ok_rest [OF assms(2)]
  by (auto simp: write_step_def Let_def file_rel_def kuio_ok_advance nat_add_distrib)

lemma blocks_read:
  "sfs_ok d_blocks ready s \<Longrightarrow> file_ok (sectors (dev_of s)) p s \<Longrightarrow> kuio_ok (uio_of s) \<Longrightarrow> uio_rw (uio_of s) = UIO_READ \<Longrightarrow>
   nat (uio_offset (uio_of s)) mod SFS_BLOCKSIZE = 0 \<Longrightarrow> n * SFS_BLOCKSIZE \<le> uio_resid (uio_of s) \<Longrightarrow>
   nat (uio_offset (uio_of s)) + n * SFS_BLOCKSIZE \<le> SFS_MAXFILE \<Longrightarrow>
   \<exists>t. sfs_blocksio d_io p n s = Done () t \<and> sfs_ok d_blocks ready t \<and> read_step sectors p (n * SFS_BLOCKSIZE) s t"
proof (induction n arbitrary: s)
  case 0
  then show ?case using read_step_0 [of s sectors p] by (simp add: kprog)
next
  case (Suc n)
  have "nat (uio_offset (uio_of s)) div SFS_BLOCKSIZE < SFS_NDIRECT + SFS_DBPERIDB"
    using Suc.prems(7) by (simp add: less_mult_imp_div_less)
  then obtain t where t: "sfs_blockio d_io p s = Done () t" "sfs_ok d_blocks ready t" "read_step sectors p SFS_BLOCKSIZE s t"
    using block_read [of s p, OF _ _ refl] Suc.prems by auto
  note k = read_step_keeps [OF t(3) Suc.prems(2,3)]
  obtain r where r: "sfs_blocksio d_io p n t = Done () r" "sfs_ok d_blocks ready r" "read_step sectors p (n * SFS_BLOCKSIZE) t r"
  proof -
    have "n * SFS_BLOCKSIZE \<le> uio_resid (uio_of t)" using Suc.prems(6) k(5) by simp
    then show ?thesis using that Suc.IH [of t] t(2) k Suc.prems by auto
  qed
  then show ?case
    using t(1) read_step_trans [OF Suc.prems(3) t(3) r(3)] by (auto simp: kprog)
qed

text \<open>One piece after the other.\<close>

lemma write_piece_then:
  assumes u: "kuio_ok (uio_of s)" and first: "write_piece d_blocks sectors ready p n s (f s)"
    and second: "\<And>t. sfs_ok d_blocks ready t \<Longrightarrow> write_step sectors p n s t \<Longrightarrow> write_piece d_blocks sectors ready p k t (g t)"
    and bnd: "k = 0 \<or> at_boundary (nat (uio_offset (uio_of s))) n"
  shows "write_piece d_blocks sectors ready p (n + k) s (kthen f g s)"
proof (cases "f s")
  case (Done x t)
  then have t: "sfs_ok d_blocks ready t" "write_step sectors p n s t" using first by (auto simp: write_piece_def)
  note w = second [OF t] and off = write_step_keeps(4) [OF t(2) u]
  show ?thesis
  proof (cases "g t")
    case (Done y r)
    then show ?thesis
      using w \<open>f s = Done x t\<close> write_step_trans [OF u t(2), of k r] by (simp add: write_piece_def kprog)
  next
    case (Fail e r)
    then obtain m where m: "m < k" "write_step sectors p m t r" "at_boundary (nat (uio_offset (uio_of t))) m"
      using w by (auto simp: write_piece_def)
    have "at_boundary (nat (uio_offset (uio_of s))) (n + m)"
      using m(1,3) bnd off by (auto simp: at_boundary_def add.assoc)
    with write_step_trans [OF u t(2) m(2)] m(1) Fail w \<open>f s = Done x t\<close> off show ?thesis
      by (auto simp: write_piece_def kprog intro!: exI [of _ "n + m"])
  next
    case (Panic q)
    with w show ?thesis by (simp add: write_piece_def)
  qed
next
  case (Fail e t)
  then obtain m where "m < n" "write_step sectors p m s t" "at_boundary (nat (uio_offset (uio_of s))) m"
    using first by (auto simp: write_piece_def)
  with Fail first show ?thesis by (auto simp: write_piece_def kprog intro!: exI [of _ m])
next
  case (Panic q)
  with first show ?thesis by (simp add: write_piece_def)
qed

lemma write_piece_nothing:
  "sfs_ok d_blocks ready s \<Longrightarrow> file_ok (sectors (dev_of s)) p s \<Longrightarrow> kuio_ok (uio_of s) \<Longrightarrow>
   write_piece d_blocks sectors ready p 0 s (kret () s)"
  using write_step_0 [of s sectors p] by (simp add: write_piece_def kprog)

lemma blocks_write:
  "sfs_ok d_blocks ready s \<Longrightarrow> file_ok (sectors (dev_of s)) p s \<Longrightarrow> kuio_ok (uio_of s) \<Longrightarrow> uio_rw (uio_of s) = UIO_WRITE \<Longrightarrow>
   nat (uio_offset (uio_of s)) mod SFS_BLOCKSIZE = 0 \<Longrightarrow> n * SFS_BLOCKSIZE \<le> uio_resid (uio_of s) \<Longrightarrow>
   write_piece d_blocks sectors ready p (n * SFS_BLOCKSIZE) s (sfs_blocksio d_io p n s)"
proof (induction n arbitrary: s)
  case 0
  then show ?case using write_piece_nothing [of s p] by simp
next
  case (Suc n)
  have "write_piece d_blocks sectors ready p (SFS_BLOCKSIZE + n * SFS_BLOCKSIZE) s
      (kthen (sfs_blockio d_io p) (sfs_blocksio d_io p n) s)"
  proof (rule write_piece_then [OF Suc.prems(3)])
    show "write_piece d_blocks sectors ready p SFS_BLOCKSIZE s (sfs_blockio d_io p s)"
      using Suc.prems by (intro block_write [OF _ _ refl]) auto
    fix t assume t: "sfs_ok d_blocks ready t" "write_step sectors p SFS_BLOCKSIZE s t"
    note k = write_step_keeps [OF t(2) Suc.prems(3)]
    have "n * SFS_BLOCKSIZE \<le> uio_resid (uio_of t)" using Suc.prems(6) k(5) by simp
    then show "write_piece d_blocks sectors ready p (n * SFS_BLOCKSIZE) t (sfs_blocksio d_io p n t)"
      using Suc.IH [of t] t(1) k Suc.prems(4,5) by auto
  next
    show "n * SFS_BLOCKSIZE = 0 \<or> at_boundary (nat (uio_offset (uio_of s))) SFS_BLOCKSIZE"
      using Suc.prems(5) by (simp add: at_boundary_def)
  qed
  then show ?case by simp
qed

text \<open>The phases of \<^verbatim>\<open>sfs_io\<close>, last to first.\<close>

lemma last_write:
  assumes ok: "sfs_ok d_blocks ready s" and fok: "file_ok (sectors (dev_of s)) p s" and u: "kuio_ok (uio_of s)" "uio_rw (uio_of s) = UIO_WRITE"
    and n: "uio_resid (uio_of s) = n" "n < SFS_BLOCKSIZE" and al: "nat (uio_offset (uio_of s)) mod SFS_BLOCKSIZE = 0"
  shows "write_piece d_blocks sectors ready p n s (sfs_io_last d_io p s)"
  using partial_write [OF ok fok refl u, of 0 n] n al write_piece_nothing [OF ok fok u(1)]
  by (cases "n = 0") (simp_all add: sfs_io_last_def kprog)

lemma tail_write:
  assumes ok: "sfs_ok d_blocks ready s" and fok: "file_ok (sectors (dev_of s)) p s" and u: "kuio_ok (uio_of s)" "uio_rw (uio_of s) = UIO_WRITE"
    and n: "uio_resid (uio_of s) = n" and al: "n = 0 \<or> nat (uio_offset (uio_of s)) mod SFS_BLOCKSIZE = 0"
  shows "write_piece d_blocks sectors ready p n s (sfs_io_tail d_io p s)"
proof (cases "n = 0")
  case True
  then show ?thesis using write_piece_nothing [OF ok fok u(1)] n by (simp add: sfs_io_tail_def kprog)
next
  case False
  with al have al: "nat (uio_offset (uio_of s)) mod SFS_BLOCKSIZE = 0" by simp
  have "write_piece d_blocks sectors ready p (n div SFS_BLOCKSIZE * SFS_BLOCKSIZE + n mod SFS_BLOCKSIZE) s
      (kthen (sfs_blocksio d_io p (n div SFS_BLOCKSIZE)) (sfs_io_last d_io p) s)"
  proof (rule write_piece_then [OF u(1)])
    show "write_piece d_blocks sectors ready p (n div SFS_BLOCKSIZE * SFS_BLOCKSIZE) s (sfs_blocksio d_io p (n div SFS_BLOCKSIZE) s)"
      using ok fok u al n by (intro blocks_write) auto
    fix r assume r: "sfs_ok d_blocks ready r" "write_step sectors p (n div SFS_BLOCKSIZE * SFS_BLOCKSIZE) s r"
    note k = write_step_keeps [OF r(2) u(1)]
    show "write_piece d_blocks sectors ready p (n mod SFS_BLOCKSIZE) r (sfs_io_last d_io p r)"
      using k u(2) al n by (intro last_write [OF r(1) k(1,2)]) (auto simp: minus_div_mult_eq_mod)
  next
    show "n mod SFS_BLOCKSIZE = 0 \<or> at_boundary (nat (uio_offset (uio_of s))) (n div SFS_BLOCKSIZE * SFS_BLOCKSIZE)"
      using al by (simp add: at_boundary_def)
  qed
  moreover have "uio_offset (uio_of s) mod int SFS_BLOCKSIZE = 0"
    using al uio_block(2) [OF u(1)] by (simp add: nat_eq_iff2)
  ultimately show ?thesis using False n by (simp add: sfs_io_tail_def kprog)
qed

text \<open>The leading partial block ends on a block boundary, unless it is all there is.\<close>

lemma head_aligns:
  fixes off n :: nat
  defines "skip \<equiv> off mod SFS_BLOCKSIZE"
  defines "first \<equiv> (if skip \<noteq> 0 then min (SFS_BLOCKSIZE - skip) n else 0)"
  shows "first \<le> n" and "n - first = 0 \<or> (off + first) mod SFS_BLOCKSIZE = 0"
proof -
  show "first \<le> n" by (simp add: first_def)
  have "(off + (SFS_BLOCKSIZE - skip)) mod SFS_BLOCKSIZE = 0"
  proof -
    have "q * SFS_BLOCKSIZE + r + (SFS_BLOCKSIZE - r) = (q + 1) * SFS_BLOCKSIZE" if "r < SFS_BLOCKSIZE" for q r :: nat
      using that by simp
    from this [of skip "off div SFS_BLOCKSIZE"]
    have "off + (SFS_BLOCKSIZE - skip) = (off div SFS_BLOCKSIZE + 1) * SFS_BLOCKSIZE" by (simp add: skip_def)
    then show ?thesis by (simp only: mod_mult_self2_is_0)
  qed
  then show "n - first = 0 \<or> (off + first) mod SFS_BLOCKSIZE = 0"
    by (auto simp: first_def skip_def min_def)
qed

lemma body_write:
  assumes ok: "sfs_ok d_blocks ready s" and fok: "file_ok (sectors (dev_of s)) p s"
    and u: "kuio_ok (uio_of s)" "uio_rw (uio_of s) = UIO_WRITE" "0 < uio_resid (uio_of s)"
  shows "write_piece d_blocks sectors ready p (uio_resid (uio_of s)) s (sfs_io_body d_io p s)"
proof -
  let ?o = "nat (uio_offset (uio_of s))" and ?n = "uio_resid (uio_of s)"
  define skip where "skip = ?o mod SFS_BLOCKSIZE"
  define first where "first = (if skip \<noteq> 0 then min (SFS_BLOCKSIZE - skip) ?n else 0)"
  note al = head_aligns [where off = ?o and n = ?n, folded skip_def, folded first_def]
  have skip: "skip < SFS_BLOCKSIZE" by (simp add: skip_def)
  let ?head = "if skip \<noteq> 0 then sfs_partialio d_io p skip (min (SFS_BLOCKSIZE - skip) ?n) else kret ()"
  have body: "sfs_io_body d_io p s = kthen ?head (sfs_io_tail d_io p) s"
    unfolding sfs_io_body_def Let_def skip_def uio_block(2) [OF u(1), symmetric]
    by (simp only: kbind_run get_uio_run outcome.case)
  have "write_piece d_blocks sectors ready p (first + (?n - first)) s (kthen ?head (sfs_io_tail d_io p) s)"
  proof (rule write_piece_then [OF u(1)])
    show "write_piece d_blocks sectors ready p first s (?head s)"
      using partial_write [OF ok fok refl u(1,2), of skip first] u(3) skip write_piece_nothing [OF ok fok u(1)]
      by (cases "skip = 0") (simp_all add: first_def skip_def)
    fix t assume t: "sfs_ok d_blocks ready t" "write_step sectors p first s t"
    note k = write_step_keeps [OF t(2) u(1)]
    show "write_piece d_blocks sectors ready p (?n - first) t (sfs_io_tail d_io p t)"
      using k u(2) al(2) by (intro tail_write [OF t(1) k(1,2)]) auto
  next
    show "?n - first = 0 \<or> at_boundary ?o first" using al(2) by (auto simp: at_boundary_def)
  qed
  then show ?thesis using al(1) by (simp add: body)
qed

text \<open>The same for reads, which always succeed inside the file.\<close>

lemma read_piece_then:
  assumes u: "kuio_ok (uio_of s)" and first: "read_piece d_blocks sectors ready p n s (f s)"
    and second: "\<And>t. sfs_ok d_blocks ready t \<Longrightarrow> read_step sectors p n s t \<Longrightarrow> read_piece d_blocks sectors ready p k t (g t)"
  shows "read_piece d_blocks sectors ready p (n + k) s (kthen f g s)"
proof -
  obtain t where t: "f s = Done () t" "sfs_ok d_blocks ready t" "read_step sectors p n s t"
    using first by (auto simp: read_piece_def)
  obtain r where r: "g t = Done () r" "sfs_ok d_blocks ready r" "read_step sectors p k t r"
    using second [OF t(2,3)] by (auto simp: read_piece_def)
  show ?thesis using t r read_step_trans [OF u t(3) r(3)] by (simp add: read_piece_def kprog)
qed

lemma read_piece_nothing:
  "sfs_ok d_blocks ready s \<Longrightarrow> kuio_ok (uio_of s) \<Longrightarrow> read_piece d_blocks sectors ready p 0 s (kret () s)"
  using read_step_0 [of s sectors p] by (simp add: read_piece_def kprog)

lemma last_read:
  assumes ok: "sfs_ok d_blocks ready s" and fok: "file_ok (sectors (dev_of s)) p s" and u: "kuio_ok (uio_of s)" "uio_rw (uio_of s) = UIO_READ"
    and n: "uio_resid (uio_of s) = n" "n < SFS_BLOCKSIZE" and al: "nat (uio_offset (uio_of s)) mod SFS_BLOCKSIZE = 0"
    and fits: "nat (uio_offset (uio_of s)) + n \<le> SFS_MAXFILE"
  shows "read_piece d_blocks sectors ready p n s (sfs_io_last d_io p s)"
proof (cases "n = 0")
  case True
  then show ?thesis using read_piece_nothing [OF ok u(1)] n by (simp add: sfs_io_last_def kprog)
next
  case False
  then have "nat (uio_offset (uio_of s)) div SFS_BLOCKSIZE < SFS_NDIRECT + SFS_DBPERIDB"
    using fits by (simp add: less_mult_imp_div_less)
  with partial_read [OF ok fok refl u, of 0 n] False n al show ?thesis
    by (simp add: sfs_io_last_def read_piece_def kprog)
qed

lemma tail_read:
  assumes ok: "sfs_ok d_blocks ready s" and fok: "file_ok (sectors (dev_of s)) p s" and u: "kuio_ok (uio_of s)" "uio_rw (uio_of s) = UIO_READ"
    and n: "uio_resid (uio_of s) = n" and al: "n = 0 \<or> nat (uio_offset (uio_of s)) mod SFS_BLOCKSIZE = 0"
    and fits: "nat (uio_offset (uio_of s)) + n \<le> SFS_MAXFILE"
  shows "read_piece d_blocks sectors ready p n s (sfs_io_tail d_io p s)"
proof (cases "n = 0")
  case True
  then show ?thesis using read_piece_nothing [OF ok u(1)] n by (simp add: sfs_io_tail_def kprog)
next
  case False
  with al have al: "nat (uio_offset (uio_of s)) mod SFS_BLOCKSIZE = 0" by simp
  have nn: "n div SFS_BLOCKSIZE * SFS_BLOCKSIZE \<le> n" by (rule div_times_less_eq_dividend)
  have "read_piece d_blocks sectors ready p (n div SFS_BLOCKSIZE * SFS_BLOCKSIZE + n mod SFS_BLOCKSIZE) s
      (kthen (sfs_blocksio d_io p (n div SFS_BLOCKSIZE)) (sfs_io_last d_io p) s)"
  proof (rule read_piece_then [OF u(1)])
    show "read_piece d_blocks sectors ready p (n div SFS_BLOCKSIZE * SFS_BLOCKSIZE) s (sfs_blocksio d_io p (n div SFS_BLOCKSIZE) s)"
      unfolding read_piece_def using ok fok u al n fits nn by (intro blocks_read) linarith+
    fix r assume r: "sfs_ok d_blocks ready r" "read_step sectors p (n div SFS_BLOCKSIZE * SFS_BLOCKSIZE) s r"
    note k = read_step_keeps [OF r(2) fok u(1)]
    show "read_piece d_blocks sectors ready p (n mod SFS_BLOCKSIZE) r (sfs_io_last d_io p r)"
      using k u(2) al n fits by (intro last_read [OF r(1) k(1,2)]) (auto simp: minus_div_mult_eq_mod)
  qed
  moreover have "uio_offset (uio_of s) mod int SFS_BLOCKSIZE = 0"
    using al uio_block(2) [OF u(1)] by (simp add: nat_eq_iff2)
  ultimately show ?thesis using False n by (simp add: sfs_io_tail_def kprog)
qed

lemma body_read:
  assumes ok: "sfs_ok d_blocks ready s" and fok: "file_ok (sectors (dev_of s)) p s"
    and u: "kuio_ok (uio_of s)" "uio_rw (uio_of s) = UIO_READ"
    and fits: "nat (uio_offset (uio_of s)) + uio_resid (uio_of s) \<le> SFS_MAXFILE" "nat (uio_offset (uio_of s)) < SFS_MAXFILE"
  shows "read_piece d_blocks sectors ready p (uio_resid (uio_of s)) s (sfs_io_body d_io p s)"
proof -
  let ?o = "nat (uio_offset (uio_of s))" and ?n = "uio_resid (uio_of s)"
  define skip where "skip = ?o mod SFS_BLOCKSIZE"
  define first where "first = (if skip \<noteq> 0 then min (SFS_BLOCKSIZE - skip) ?n else 0)"
  note al = head_aligns [where off = ?o and n = ?n, folded skip_def, folded first_def]
  have skip: "skip < SFS_BLOCKSIZE" by (simp add: skip_def)
  have fb: "?o div SFS_BLOCKSIZE < SFS_NDIRECT + SFS_DBPERIDB"
    using fits by (simp add: less_mult_imp_div_less)
  let ?head = "if skip \<noteq> 0 then sfs_partialio d_io p skip (min (SFS_BLOCKSIZE - skip) ?n) else kret ()"
  have body: "sfs_io_body d_io p s = kthen ?head (sfs_io_tail d_io p) s"
    unfolding sfs_io_body_def Let_def skip_def uio_block(2) [OF u(1), symmetric]
    by (simp only: kbind_run get_uio_run outcome.case)
  have "read_piece d_blocks sectors ready p (first + (?n - first)) s (kthen ?head (sfs_io_tail d_io p) s)"
  proof (rule read_piece_then [OF u(1)])
    show "read_piece d_blocks sectors ready p first s (?head s)"
    proof (cases "skip = 0")
      case True
      then show ?thesis using read_piece_nothing [OF ok u(1)] by (simp add: first_def)
    next
      case False
      then have "first = min (SFS_BLOCKSIZE - skip) ?n" by (simp add: first_def)
      moreover have "skip + first \<le> SFS_BLOCKSIZE" using skip calculation by linarith
      ultimately show ?thesis
        using partial_read [OF ok fok refl u(1,2) skip_def _ al(1) fb] False by (simp add: read_piece_def)
    qed
    fix t assume t: "sfs_ok d_blocks ready t" "read_step sectors p first s t"
    note k = read_step_keeps [OF t(2) fok u(1)]
    show "read_piece d_blocks sectors ready p (?n - first) t (sfs_io_tail d_io p t)"
    proof (rule tail_read [OF t(1) k(1,2)])
      show "uio_rw (uio_of t) = UIO_READ" "uio_resid (uio_of t) = ?n - first" using k(3,5) u(2) by simp_all
      show "?n - first = 0 \<or> nat (uio_offset (uio_of t)) mod SFS_BLOCKSIZE = 0" using al(2) k(4) by simp
      show "nat (uio_offset (uio_of t)) + (?n - first) \<le> SFS_MAXFILE" using fits(1) al(1) k(4) by linarith
    qed
  qed
  then show ?thesis using al(1) by (simp add: body)
qed

text \<open>\<^verbatim>\<open>sfs_io\<close> trims a read to the end of the file and puts the rest back afterwards.\<close>

lemma io_read:
  assumes ok: "sfs_ok d_blocks ready s" and fok: "file_ok (sectors (dev_of s)) p s"
    and u: "kuio_ok (uio_of s)" "uio_rw (uio_of s) = UIO_READ" and sz: "sfi_size (inode_at p s) \<le> SFS_MAXFILE"
    and n: "n = min (uio_resid (uio_of s)) (sfi_size (inode_at p s) - nat (uio_offset (uio_of s)))"
  shows "read_piece d_blocks sectors ready p n s (sfs_io d_io p s)"
proof -
  let ?u = "uio_of s" and ?size = "sfi_size (inode_at p s)"
  have b: "0 \<le> uio_offset ?u" "uio_offset ?u + int (uio_resid ?u) < 2 ^ 31" using u(1) by (simp_all add: kuio_ok_def)
  have w: "wrap32 (int ?size) = int ?size" "wrap32 (uio_offset ?u + int (uio_resid ?u)) = uio_offset ?u + int (uio_resid ?u)"
    using b sz by (simp_all add: wrap32_id)
  obtain sv where sv: "s_heap s p = Some sv" using fok by (auto simp: file_ok_def)
  show ?thesis
  proof (cases "int ?size \<le> uio_offset ?u")
    case True
    then have "n = 0" by (simp add: n)
    moreover have "sfs_io d_io p s = Done () s" using True u(2) sv w by (simp add: sfs_io_def kprog)
    ultimately show ?thesis using ok read_step_0 [OF u(1)] by (simp add: read_piece_def)
  next
    case False
    define e where "e = (if uio_offset ?u + int (uio_resid ?u) > int ?size then nat (uio_offset ?u + int (uio_resid ?u) - int ?size) else 0)"
    let ?s1 = "s\<lparr>s_io := (s_io s)\<lparr>io_uio := ?u\<lparr>uio_resid := uio_resid ?u - e\<rparr>\<rparr>\<rparr>"
    have e: "uio_resid ?u - e = n" "e = 0 \<or> e < uio_resid ?u" using False b(1) by (auto simp: e_def n min_def)
    have "read_piece d_blocks sectors ready p (uio_resid (uio_of ?s1)) ?s1 (sfs_io_body d_io p ?s1)"
    proof (rule body_read)
      show "sfs_ok d_blocks ready ?s1" "file_ok (sectors (dev_of ?s1)) p ?s1" using ok fok by (simp_all add: sfs_ok_def file_ok_def)
      show "kuio_ok (uio_of ?s1)" using u(1) by (cases "iov_un ?u") (auto simp: kuio_ok_def)
      show "uio_rw (uio_of ?s1) = UIO_READ" using u(2) by simp
      have "n \<le> ?size - nat (uio_offset ?u)" by (simp add: n)
      then show "nat (uio_offset (uio_of ?s1)) + uio_resid (uio_of ?s1) \<le> SFS_MAXFILE" using e(1) sz False by simp
      show "nat (uio_offset (uio_of ?s1)) < SFS_MAXFILE" using sz False by simp
    qed
    then obtain t where t: "sfs_io_body d_io p ?s1 = Done () t" "sfs_ok d_blocks ready t" "read_step sectors p n ?s1 t"
      using e(1) by (auto simp: read_piece_def)
    let ?t = "t\<lparr>s_io := (s_io t)\<lparr>io_uio := (uio_of t)\<lparr>uio_resid := (uio_resid (uio_of t) + e) mod 2 ^ 32\<rparr>\<rparr>\<rparr>"
    have run: "sfs_io d_io p s = Done () ?t"
    proof -
      have sz: "?size = sfi_size (sv_i sv)" using sv by simp
      have "sfs_io d_io p s = kbind (kcatch (sfs_io_body d_io p)) (sfs_io_out p e) ?s1"
        using False sv u(2) w e(2) unfolding e_def sz by (auto simp: sfs_io_def kprog Let_def cong: outcome.case_cong)
      moreover have "uio_rw (uio_of t) = UIO_READ" "s_heap t p = Some sv"
        using t(3) u(2) sv by (simp_all add: read_step_def sfs_quiet_def)
      ultimately show ?thesis using t(1) by (simp add: sfs_io_out_def kprog)
    qed
    have "read_step sectors p n s ?t"
    proof -
      have "e < 2 ^ 32" using e(2) b by auto
      moreover have "uio_resid (uio_of t) = 0" using t(3) e(1) by (simp add: read_step_def)
      moreover have "e = uio_resid ?u - n" using e(2) e(1) [symmetric] by auto
      ultimately have "(uio_resid (uio_of t) + e) mod 2 ^ 32 = uio_resid ?u - n" by (simp only: add_0 mod_less)
      moreover have "n \<le> uio_resid ?u" by (simp add: n)
      ultimately show ?thesis using t(3)
        by (simp add: read_step_def sfs_quiet_def sfs_frame_def kuio_advance_def)
    qed
    moreover have "sfs_ok d_blocks ready ?t" using t(2) by (simp add: sfs_ok_def)
    ultimately show ?thesis using run by (simp add: read_piece_def)
  qed
qed

text \<open>A write that has run past the end of the file, in whole or in part, moves the end.\<close>

lemma write_out:
  assumes t: "sfs_ok d_blocks ready t" "write_step sectors p m s t"
    and u: "kuio_ok (uio_of s)" "uio_rw (uio_of s) = UIO_WRITE" and sz: "sfi_size (inode_at p s) < 2 ^ 31"
  shows "\<exists>t'. sfs_io_out p 0 r t = (case r of Inl e \<Rightarrow> Fail e t' | Inr _ \<Rightarrow> Done () t') \<and>
    sfs_ok d_blocks ready t' \<and> write_result sectors p m s t'"
proof -
  let ?u = "uio_of s" and ?pos = "nat (uio_offset (uio_of s))"
  note w = t(2) [unfolded write_step_def Let_def]
  have ut: "uio_of t = kuio_advance m (take m (krest (iov_un ?u))) ?u" and m: "m \<le> uio_resid ?u" using w by simp_all
  have b: "0 \<le> uio_offset ?u" "uio_offset ?u + int m < 2 ^ 31" "uio_resid ?u < 2 ^ 31"
    using u(1) m by (simp_all add: kuio_ok_def)
  obtain sv where sv: "s_heap t p = Some sv" using w by (auto simp: file_rel_def file_ok_def)
  have szt: "sfi_size (sv_i sv) = sfi_size (inode_at p s)" using w sv by simp
  define sv' where "sv' = (if int (sfi_size (sv_i sv)) < uio_offset ?u + int m
    then sv\<lparr>sv_i := (sv_i sv)\<lparr>sfi_size := ?pos + m\<rparr>, sv_dirty := True\<rparr> else sv)"
  let ?t = "t\<lparr>s_heap := (s_heap t)(p \<mapsto> sv')\<rparr>"
  have "uio_resid (uio_of t) mod 2 ^ 32 = uio_resid (uio_of t)" using b(3) ut by simp
  moreover have "uio_rw (uio_of t) = UIO_WRITE" "uio_offset (uio_of t) = uio_offset ?u + int m" using ut u(2) by simp_all
  moreover have "nat ((uio_offset ?u + int m) mod 2 ^ 32) = ?pos + m" using b by (simp add: nat_add_distrib)
  moreover have "wrap32 (int (sfi_size (sv_i sv))) = int (sfi_size (sv_i sv))" using sz szt by (simp add: wrap32_id)
  moreover have "t\<lparr>s_heap := (s_heap t)(p \<mapsto> sv)\<rparr> = t" using sv by (simp add: fun_upd_idem)
  ultimately have "sfs_io_out p 0 r t = (case r of Inl e \<Rightarrow> Fail e ?t | Inr _ \<Rightarrow> Done () ?t)"
    using sv by (cases r) (simp_all add: sfs_io_out_def kprog sv'_def del: power_numeral)
  moreover have "sfs_ok d_blocks ready ?t" using t(1) by (simp add: sfs_ok_def)
  moreover have "write_result sectors p m s ?t"
  proof -
    have "sfi_size (sv_i sv') = max (sfi_size (inode_at p s)) (?pos + m)" using b szt by (auto simp: sv'_def max_def)
    moreover have "?pos + m < 2 ^ 32" using b by simp
    moreover have "file_rel sectors p s ?t"
      using w sv calculation(2) by (intro file_rel_size [of sectors p s t sv]) (use sz szt in \<open>auto simp: sv'_def sv_frame_def\<close>)
    moreover have "fcontent secs (sv_i sv') = fcontent secs (sv_i sv)" for secs
      by (rule fcontent_size) (simp_all add: sv'_def)
    ultimately show ?thesis using w sv by (simp add: write_result_def Let_def)
  qed
  ultimately show ?thesis by blast
qed

lemma io_write:
  assumes ok: "sfs_ok d_blocks ready s" and fok: "file_ok (sectors (dev_of s)) p s"
    and u: "kuio_ok (uio_of s)" "uio_rw (uio_of s) = UIO_WRITE" "0 < uio_resid (uio_of s)"
    and sz: "sfi_size (inode_at p s) < 2 ^ 31"
  shows "case sfs_io d_io p s of
      Done _ t \<Rightarrow> sfs_ok d_blocks ready t \<and> write_result sectors p (uio_resid (uio_of s)) s t
    | Fail e t \<Rightarrow> sfs_ok d_blocks ready t \<and> 
        (\<exists>m < uio_resid (uio_of s). write_result sectors p m s t \<and> at_boundary (nat (uio_offset (uio_of s))) m) \<and>
        (e = ENOSPC \<or> e = EINVAL \<and> SFS_MAXFILE < nat (uio_offset (uio_of s)) + uio_resid (uio_of s))
    | Panic _ \<Rightarrow> False"
proof -
  let ?u = "uio_of s" and ?size = "sfi_size (inode_at p s)"
  have b: "0 \<le> uio_offset ?u" "uio_offset ?u + int (uio_resid ?u) < 2 ^ 31" using u(1) by (simp_all add: kuio_ok_def)
  have w: "wrap32 (int ?size) = int ?size" using sz by (simp add: wrap32_id)
  obtain sv where sv: "s_heap s p = Some sv" using fok by (auto simp: file_ok_def)
  have "s\<lparr>s_io := (s_io s)\<lparr>io_uio := ?u\<lparr>uio_resid := uio_resid ?u - 0\<rparr>\<rparr>\<rparr> = s" by simp
  then have run: "sfs_io d_io p s = kbind (kcatch (sfs_io_body d_io p)) (sfs_io_out p 0) s"
    using u(2) sv by (simp add: sfs_io_def kprog)
  have fin: "\<exists>t'. sfs_io_out p 0 r t = (case r of Inl e \<Rightarrow> Fail e t' | Inr _ \<Rightarrow> Done () t') \<and> sfs_ok d_blocks ready t' \<and> write_result sectors p m s t'"
    if t: "sfs_ok d_blocks ready t" "write_step sectors p m s t" for r t m
    using write_out [OF t u(1,2) sz] by simp
  show ?thesis
  proof (cases "sfs_io_body d_io p s")
    case (Done x t)
    with body_write [OF ok fok u] have "sfs_ok d_blocks ready t" "write_step sectors p (uio_resid ?u) s t"
      by (simp_all add: write_piece_def)
    with fin [of t "uio_resid ?u" "Inr x"] Done run show ?thesis by (auto simp: kprog)
  next
    case (Fail e t)
    with body_write [OF ok fok u] obtain m where "sfs_ok d_blocks ready t" "write_step sectors p m s t" "m < uio_resid ?u"
      "at_boundary (nat (uio_offset ?u)) m"
      "e = ENOSPC \<or> e = EINVAL \<and> SFS_MAXFILE < nat (uio_offset ?u) + uio_resid ?u"
      by (auto simp: write_piece_def)
    with fin [of t m "Inl e"] Fail run show ?thesis by (auto simp: kprog)
  next
    case (Panic q)
    with body_write [OF ok fok u] show ?thesis by (simp add: write_piece_def)
  qed
qed

end

subsection \<open>Reading and writing a file\<close>



text \<open>
  C11. A write to a file through a kernel buffer either puts all the bytes in, or stops early with
  \<^verbatim>\<open>ENOSPC\<close> or, only when it runs past the largest size a file can have, with \<^verbatim>\<open>EINVAL\<close>; then it stops at a
  block boundary, or before it has begun. In both cases
  a prefix of the data is in the file at the offset, all other contents are as before, the size is the
  larger of the old one and the end of what was written, the free map marks the new blocks, no
  block outside the file is changed, and no assertion goes off.
\<close>

theorem sfs_io_write:
  assumes "block_device d_io d_blocks sectors ready" and "sfs_ok d_blocks ready s"
    and "file_ok (sectors (dev_of s)) p s" and "kuio_ok (uio_of s)" and "uio_rw (uio_of s) = UIO_WRITE"
    and "0 < uio_resid (uio_of s)" and "sfi_size (inode_at p s) < 2 ^ 31"
  shows "case sfs_io d_io p s of
      Done _ t \<Rightarrow> sfs_ok d_blocks ready t \<and> write_result sectors p (uio_resid (uio_of s)) s t
    | Fail e t \<Rightarrow> sfs_ok d_blocks ready t \<and> 
        (\<exists>m < uio_resid (uio_of s). write_result sectors p m s t \<and> at_boundary (nat (uio_offset (uio_of s))) m) \<and>
        (e = ENOSPC \<or> e = EINVAL \<and> SFS_MAXFILE < nat (uio_offset (uio_of s)) + uio_resid (uio_of s))
    | Panic _ \<Rightarrow> False"
  using assms by (rule block_device.io_write)

theorem sfs_io_write_witness:
  "let s = sfs_sample UIO_WRITE 510 4 [9, 8, 7, 6] in
   case sfs_io (lhd_io disk_card) 1 s of
     Done _ t \<Rightarrow> write_result (\<lambda>lh. disk_sectors (lh_card lh)) 1 4 s t
   | Fail e t \<Rightarrow> e = ENOSPC
   | Panic _ \<Rightarrow> False"
proof -
  let ?s = "sfs_sample UIO_WRITE 510 4 [9, 8, 7, 6]"
  have hyp: "sfs_ok lh_blocks (lhd_ready dk_nsect) ?s" "file_ok (disk_sectors (lh_card (dev_of ?s))) 1 ?s"
    "kuio_ok (uio_of ?s)" "uio_rw (uio_of ?s) = UIO_WRITE" "0 < uio_resid (uio_of ?s)" "sfi_size (inode_at 1 ?s) < 2 ^ 31"
    using sfs_sample_ok [of 510 4 "[9, 8, 7, 6]"] by simp_all
  note w = sfs_io_write [where s = ?s and p = 1, OF dc.bd.block_device_axioms hyp]
  show ?thesis
    using w by (cases "sfs_io (lhd_io disk_card) 1 ?s") simp_all
qed

end
