(* ===== verification/SfsDir.thy ===== *)
theory SfsDir
  imports SfsFileIO
begin

text \<open>
  Directories of SFS (\<^verbatim>\<open>kern/fs/sfs/sfs_vnode.c\<close>): a directory is a file that holds an array of entries, each an
  inode number and a name; inode number 0 marks a free slot. Names are passed as C strings; here they are the
  bytes before the terminator. The routines are shown to implement a finite map from names to inode numbers.
\<close>

abbreviation (input) SFS_DIRSIZE :: nat where "SFS_DIRSIZE \<equiv> 64"

text \<open>A local \<^verbatim>\<open>struct uio\<close>: it takes the place of the caller's while the routine runs, and is handed back.\<close>

definition with_ku :: "uio \<Rightarrow> ('d sfs, unit) prog \<Rightarrow> ('d sfs, uio) prog" where
  "with_ku ku m =
     kbind get_uio (\<lambda>save.
     kthen (set_uio (\<lambda>_. ku))
     (kbind (kcatch m) (\<lambda>result.
      kbind get_uio (\<lambda>ku.
      kthen (set_uio (\<lambda>_. save))
      (case result of Inl e \<Rightarrow> kfail e | Inr _ \<Rightarrow> kret ku)))))"

definition sfs_readdir :: "('d io, unit) prog \<Rightarrow> nat \<Rightarrow> nat \<Rightarrow> ('d sfs, sfs_dir) prog" where
  "sfs_readdir d_io p slot =
     (let actualpos = wrap32 (int slot * int SFS_DIRSIZE) in
      kbind (with_ku (mk_kuio (replicate SFS_DIRSIZE 0) SFS_DIRSIZE actualpos UIO_READ) (sfs_io d_io p)) (\<lambda>ku.
      if uio_resid ku > 0 then kpanic ''sfs: readdir: Short entry''
      else kret (dir_of (kpast (iov_un ku)))))"

definition sfs_writedir :: "('d io, unit) prog \<Rightarrow> nat \<Rightarrow> sfs_dir \<Rightarrow> nat \<Rightarrow> ('d sfs, unit) prog" where
  "sfs_writedir d_io p sd slot =
     (let actualpos = wrap32 (int slot * int SFS_DIRSIZE) in
      kbind (with_ku (mk_kuio (dir_bytes sd) SFS_DIRSIZE actualpos UIO_WRITE) (sfs_io d_io p)) (\<lambda>ku.
      if uio_resid ku > 0 then kpanic ''sfs: writedir: Short write'' else kret ()))"

definition sfs_dir_nentries :: "nat \<Rightarrow> ('d sfs, nat) prog" where
  "sfs_dir_nentries p =
     kbind (get_sv p) (\<lambda>sv.
     kthen (kassert (sfi_type (sv_i sv) = SFS_TYPE_DIR))
     (if sfi_size (sv_i sv) mod SFS_DIRSIZE \<noteq> 0 then kpanic ''sfs: directory: Invalid size''
      else kret (sfi_size (sv_i sv) div SFS_DIRSIZE)))"

text \<open>The name in an entry, as \<^verbatim>\<open>strcmp\<close> sees it after the last byte has been set to 0.\<close>

definition sfd_cname :: "sfs_dir \<Rightarrow> byte list" where
  "sfd_cname sd = takeWhile (\<lambda>c. c \<noteq> 0) ((sfd_name sd)[SFS_NAMELEN - 1 := 0])"

text \<open>
  The loop of \<^verbatim>\<open>sfs_dir_findname\<close> from slot \<open>i\<close> on, with \<open>n\<close> slots to go. It yields the inode number and slot of the
  name, if it has been found (0 is returned then, and \<^verbatim>\<open>ENOENT\<close> otherwise), and the last free slot.
\<close>

fun sfs_dir_scan :: "('d io, unit) prog \<Rightarrow> nat \<Rightarrow> byte list \<Rightarrow> nat \<Rightarrow> nat \<Rightarrow> (nat \<times> nat) option \<Rightarrow> nat option
    \<Rightarrow> ('d sfs, (nat \<times> nat) option \<times> nat option) prog" where
  "sfs_dir_scan d_io p name i 0 found emptyslot = kret (found, emptyslot)"
| "sfs_dir_scan d_io p name i (Suc n) found emptyslot =
     kbind (sfs_readdir d_io p i) (\<lambda>tsd.
     if sfd_ino tsd = SFS_NOINO then sfs_dir_scan d_io p name (Suc i) n found (Some i)
     else if sfd_cname tsd = name then
       kthen (kassert (found = None)) (sfs_dir_scan d_io p name (Suc i) n (Some (sfd_ino tsd, i)) emptyslot)
     else sfs_dir_scan d_io p name (Suc i) n found emptyslot)"

definition sfs_dir_findname :: "('d io, unit) prog \<Rightarrow> nat \<Rightarrow> byte list
    \<Rightarrow> ('d sfs, (nat \<times> nat) option \<times> nat option) prog" where
  "sfs_dir_findname d_io p name =
     kbind (sfs_dir_nentries p) (\<lambda>nentries. sfs_dir_scan d_io p name 0 nentries None None)"

text \<open>\<open>sfs_dir_link\<close> hands back the slot.\<close>

definition sfs_dir_link :: "('d io, unit) prog \<Rightarrow> nat \<Rightarrow> byte list \<Rightarrow> nat \<Rightarrow> ('d sfs, nat) prog" where
  "sfs_dir_link d_io p name ino =
     kbind (sfs_dir_findname d_io p name) (\<lambda>(found, emptyslot).
     if found \<noteq> None then kfail EEXIST
     else if length name + 1 > SFS_NAMELEN then kfail ENAMETOOLONG
     else kbind (case emptyslot of Some i \<Rightarrow> kret i | None \<Rightarrow> sfs_dir_nentries p) (\<lambda>slot.
          kthen (sfs_writedir d_io p \<lparr>sfd_ino = ino, sfd_name = name @ replicate (SFS_NAMELEN - length name) 0\<rparr> slot)
          (kret slot)))"

definition sfs_dir_unlink :: "('d io, unit) prog \<Rightarrow> nat \<Rightarrow> nat \<Rightarrow> ('d sfs, unit) prog" where
  "sfs_dir_unlink d_io p slot = sfs_writedir d_io p \<lparr>sfd_ino = SFS_NOINO, sfd_name = replicate SFS_NAMELEN 0\<rparr> slot"

subsection \<open>What a directory is\<close>

text \<open>The entry in a slot, read off the contents of the file, and the slots of a directory.\<close>

definition dir_entry :: "(nat \<Rightarrow> byte) \<Rightarrow> nat \<Rightarrow> sfs_dir" where
  "dir_entry c k = dir_of (map c [k * SFS_DIRSIZE..<k * SFS_DIRSIZE + SFS_DIRSIZE])"

definition dir_match :: "(nat \<Rightarrow> byte) \<Rightarrow> byte list \<Rightarrow> nat \<Rightarrow> bool" where
  "dir_match c name k \<longleftrightarrow> sfd_ino (dir_entry c k) \<noteq> SFS_NOINO \<and> sfd_cname (dir_entry c k) = name"

text \<open>
  The map the first \<open>n\<close> slots stand for, with the slot a name is found in, and the last free slot.
\<close>

definition dir_lookup :: "(nat \<Rightarrow> byte) \<Rightarrow> nat \<Rightarrow> byte list \<Rightarrow> (nat \<times> nat) option" where
  "dir_lookup c n name = map_option (\<lambda>k. (sfd_ino (dir_entry c k), k)) (find (dir_match c name) [0..<n])"

definition dir_free :: "(nat \<Rightarrow> byte) \<Rightarrow> nat \<Rightarrow> nat option" where
  "dir_free c n = find (\<lambda>k. sfd_ino (dir_entry c k) = SFS_NOINO) (rev [0..<n])"

text \<open>No name occurs twice.\<close>

definition dir_names_ok :: "(nat \<Rightarrow> byte) \<Rightarrow> nat \<Rightarrow> bool" where
  "dir_names_ok c n \<longleftrightarrow> (\<forall>i < n. \<forall>j < n. \<forall>name. dir_match c name i \<longrightarrow> dir_match c name j \<longrightarrow> i = j)"

lemma dir_names_okD: "dir_names_ok c n \<Longrightarrow> i < n \<Longrightarrow> j < n \<Longrightarrow> dir_match c name i \<Longrightarrow> dir_match c name j \<Longrightarrow> i = j"
  unfolding dir_names_ok_def by blast

abbreviation (input) content_of :: "('d \<Rightarrow> nat \<Rightarrow> byte list) \<Rightarrow> nat \<Rightarrow> 'd sfs \<Rightarrow> nat \<Rightarrow> byte" where
  "content_of sectors p s \<equiv> fcontent (sectors (dev_of s)) (inode_at p s)"

abbreviation (input) nslots :: "nat \<Rightarrow> 'd sfs \<Rightarrow> nat" where
  "nslots p s \<equiv> sfi_size (inode_at p s) div SFS_DIRSIZE"

definition dir_ok :: "('d \<Rightarrow> nat \<Rightarrow> byte list) \<Rightarrow> nat \<Rightarrow> 'd sfs \<Rightarrow> bool" where
  "dir_ok sectors p s \<longleftrightarrow> file_ok (sectors (dev_of s)) p s \<and> sfi_type (inode_at p s) = SFS_TYPE_DIR \<and>
     sfi_size (inode_at p s) mod SFS_DIRSIZE = 0 \<and> sfi_size (inode_at p s) \<le> SFS_MAXFILE \<and>
     dir_names_ok (content_of sectors p s) (nslots p s)"

definition dir_map :: "('d \<Rightarrow> nat \<Rightarrow> byte list) \<Rightarrow> nat \<Rightarrow> 'd sfs \<Rightarrow> byte list \<Rightarrow> nat option" where
  "dir_map sectors p s name = map_option fst (dir_lookup (content_of sectors p s) (nslots p s) name)"

lemma find_snoc: "find P (xs @ [x]) = (case find P xs of None \<Rightarrow> if P x then Some x else None | Some y \<Rightarrow> Some y)"
  by (induction xs) auto

lemma dir_lookup_0: "dir_lookup c 0 name = None" "dir_free c 0 = None"
  by (simp_all add: dir_lookup_def dir_free_def)

lemma dir_lookup_Suc:
  "dir_lookup c (Suc n) name = (case dir_lookup c n name of
     None \<Rightarrow> if dir_match c name n then Some (sfd_ino (dir_entry c n), n) else None | Some x \<Rightarrow> Some x)"
  by (auto simp: dir_lookup_def find_snoc split: option.split)

lemma dir_free_Suc: "dir_free c (Suc n) = (if sfd_ino (dir_entry c n) = SFS_NOINO then Some n else dir_free c n)"
  by (simp add: dir_free_def)

lemma dir_lookup_Some:
  assumes "dir_names_ok c n"
  shows "dir_lookup c n name = Some (ino, k) \<longleftrightarrow> k < n \<and> dir_match c name k \<and> ino = sfd_ino (dir_entry c k)"
proof
  assume "dir_lookup c n name = Some (ino, k)"
  then show "k < n \<and> dir_match c name k \<and> ino = sfd_ino (dir_entry c k)"
    by (auto simp: dir_lookup_def find_Some_iff)
next
  assume k: "k < n \<and> dir_match c name k \<and> ino = sfd_ino (dir_entry c k)"
  then obtain j where j: "find (dir_match c name) [0..<n] = Some j"
    by (cases "find (dir_match c name) [0..<n]") (auto simp: find_None_iff)
  then have "j < n" "dir_match c name j" by (auto simp: find_Some_iff)
  with k assms have "j = k" unfolding dir_names_ok_def by blast
  with j k show "dir_lookup c n name = Some (ino, k)" by (simp add: dir_lookup_def)
qed

lemma dir_lookup_None: "dir_lookup c n name = None \<longleftrightarrow> (\<forall>k < n. \<not> dir_match c name k)"
  by (auto simp: dir_lookup_def find_None_iff)

lemma dir_free_Some: "dir_free c n = Some k \<Longrightarrow> k < n \<and> sfd_ino (dir_entry c k) = SFS_NOINO"
  by (auto simp: dir_free_def find_Some_iff rev_nth)

lemma dir_names_ok_less: "dir_names_ok c n \<Longrightarrow> m \<le> n \<Longrightarrow> dir_names_ok c m"
  unfolding dir_names_ok_def by (meson less_le_trans)

subsection \<open>Reading and writing entries\<close>

lemma with_ku_Done:
  assumes "m (s\<lparr>s_io := (s_io s)\<lparr>io_uio := ku\<rparr>\<rparr>) = Done () t"
  shows "with_ku ku m s = Done (uio_of t) (t\<lparr>s_io := (s_io t)\<lparr>io_uio := uio_of s\<rparr>\<rparr>)"
  using assms by (simp add: with_ku_def kprog)

lemma with_ku_Fail:
  assumes "m (s\<lparr>s_io := (s_io s)\<lparr>io_uio := ku\<rparr>\<rparr>) = Fail e t"
  shows "with_ku ku m s = Fail e (t\<lparr>s_io := (s_io t)\<lparr>io_uio := uio_of s\<rparr>\<rparr>)"
  using assms by (simp add: with_ku_def kprog)

context block_device begin

lemma readdir_run:
  assumes ok: "sfs_ok d_blocks ready s" and dok: "dir_ok sectors p s" and slot: "slot < nslots p s"
  shows "\<exists>t. sfs_readdir d_io p slot s = Done (dir_entry (content_of sectors p s) slot) t \<and> sfs_ok d_blocks ready t \<and>
    sfs_quiet sectors s t \<and> uio_of t = uio_of s"
proof -
  let ?pos = "slot * SFS_DIRSIZE"
  let ?ku = "mk_kuio (replicate SFS_DIRSIZE 0) SFS_DIRSIZE (int ?pos) UIO_READ"
  let ?s = "s\<lparr>s_io := (s_io s)\<lparr>io_uio := ?ku\<rparr>\<rparr>"
  have fok: "file_ok (sectors (dev_of s)) p s" and sz: "sfi_size (inode_at p s) \<le> SFS_MAXFILE" using dok by (simp_all add: dir_ok_def)
  have end_: "?pos + SFS_DIRSIZE \<le> sfi_size (inode_at p s)"
  proof -
    have "Suc slot * SFS_DIRSIZE \<le> nslots p s * SFS_DIRSIZE" using slot by simp
    also have "\<dots> \<le> sfi_size (inode_at p s)" by simp
    finally show ?thesis by simp
  qed
  have w: "wrap32 (int slot * 64) = int slot * 64" "nat (int slot * 64) = slot * 64"
    using end_ sz by (auto simp: wrap32_id nat_mult_distrib)
  have "read_piece d_blocks sectors ready p SFS_DIRSIZE ?s (sfs_io d_io p ?s)"
  proof (rule io_read)
    show "sfs_ok d_blocks ready ?s" "file_ok (sectors (dev_of ?s)) p ?s" using ok fok by (simp_all add: sfs_ok_def file_ok_def)
    show "kuio_ok (uio_of ?s)" using end_ sz by (simp add: kuio_ok_def mk_kuio_def)
  qed (use sz end_ in \<open>simp_all add: mk_kuio_def\<close>)
  then obtain t where t: "sfs_io d_io p ?s = Done () t" "sfs_ok d_blocks ready t" "read_step sectors p SFS_DIRSIZE ?s t"
    by (auto simp: read_piece_def)
  let ?t = "t\<lparr>s_io := (s_io t)\<lparr>io_uio := uio_of s\<rparr>\<rparr>"
  have "sfs_readdir d_io p slot s = Done (dir_entry (content_of sectors p s) slot) ?t"
    using with_ku_Done [where m = "sfs_io d_io p" and s = s and ku = ?ku, OF t(1)] t(3)
    by (simp add: sfs_readdir_def w Let_def kbind_run read_step_def mk_kuio_def dir_entry_def kprog)
  moreover have "sfs_quiet sectors s ?t" "sfs_ok d_blocks ready ?t"
    using t(2,3) by (simp_all add: read_step_def sfs_quiet_def sfs_frame_def sfs_ok_def)
  ultimately show ?thesis by auto
qed

lemma quiet_dir:
  assumes "sfs_quiet sectors s t"
  shows "content_of sectors p t = content_of sectors p s" "inode_at p t = inode_at p s" "dir_ok sectors p t \<longleftrightarrow> dir_ok sectors p s"
  using assms by (auto simp: sfs_quiet_def dir_ok_def file_ok_def sfs_frame_def)

lemma scan_run:
  assumes ok: "sfs_ok d_blocks ready s" and dok: "dir_ok sectors p s" and n: "i + n = nslots p s"
  shows "\<exists>t. sfs_dir_scan d_io p name i n (dir_lookup (content_of sectors p s) i name) (dir_free (content_of sectors p s) i) s =
      Done (dir_lookup (content_of sectors p s) (nslots p s) name, dir_free (content_of sectors p s) (nslots p s)) t \<and>
    sfs_ok d_blocks ready t \<and> sfs_quiet sectors s t \<and> uio_of t = uio_of s"
  using assms
proof (induction n arbitrary: i s)
  case 0
  then show ?case by (simp add: kprog sfs_quiet_refl)
next
  case (Suc n)
  let ?c = "content_of sectors p s" and ?N = "nslots p s"
  obtain t where t: "sfs_readdir d_io p i s = Done (dir_entry ?c i) t" "sfs_ok d_blocks ready t"
      "sfs_quiet sectors s t" "uio_of t = uio_of s"
    using readdir_run [OF Suc.prems(1,2), of i] Suc.prems(3) by auto
  note q = quiet_dir [OF t(3), of p]
  obtain r where r: "sfs_dir_scan d_io p name (Suc i) n (dir_lookup ?c (Suc i) name) (dir_free ?c (Suc i)) t =
      Done (dir_lookup ?c ?N name, dir_free ?c ?N) r" "sfs_ok d_blocks ready r" "sfs_quiet sectors t r" "uio_of r = uio_of t"
  proof -
    have "dir_ok sectors p t" "Suc i + n = nslots p t" using q Suc.prems(2,3) by simp_all
    moreover have sec: "sectors (dev_of t) = sectors (dev_of s)" using t(3) by (simp add: sfs_quiet_def)
    ultimately show ?thesis using Suc.IH [OF t(2), of "Suc i"] that unfolding sec q(2) by blast
  qed
  have fresh: "dir_lookup ?c i name = None" if "dir_match ?c name i"
    unfolding dir_lookup_None
  proof (intro allI impI)
    fix k assume k: "k < i"
    then have "k < ?N" "i < ?N" using Suc.prems(3) by linarith+
    moreover have "dir_names_ok ?c ?N" using Suc.prems(2) by (simp add: dir_ok_def)
    ultimately show "\<not> dir_match ?c name k"
      using that k dir_names_okD [of ?c ?N k i name] by blast
  qed
  have "sfs_dir_scan d_io p name i (Suc n) (dir_lookup ?c i name) (dir_free ?c i) s =
      Done (dir_lookup ?c ?N name, dir_free ?c ?N) r"
  proof (cases "sfd_ino (dir_entry ?c i) = SFS_NOINO")
    case True
    then have "dir_lookup ?c (Suc i) name = dir_lookup ?c i name" "dir_free ?c (Suc i) = Some i"
      by (simp_all add: dir_lookup_Suc dir_free_Suc dir_match_def split: option.split)
    with True t(1) r(1) show ?thesis by (simp add: kbind_run)
  next
    case used: False
    show ?thesis
    proof (cases "sfd_cname (dir_entry ?c i) = name")
      case True
      with used have m: "dir_match ?c name i" by (simp add: dir_match_def)
      then have "dir_lookup ?c (Suc i) name = Some (sfd_ino (dir_entry ?c i), i)" "dir_free ?c (Suc i) = dir_free ?c i"
        using used fresh by (simp_all add: dir_lookup_Suc dir_free_Suc)
      with True used t(1) r(1) fresh [OF m] show ?thesis by (simp add: kbind_run kprog)
    next
      case False
      with used have "dir_lookup ?c (Suc i) name = dir_lookup ?c i name" "dir_free ?c (Suc i) = dir_free ?c i"
        by (simp_all add: dir_lookup_Suc dir_free_Suc dir_match_def split: option.split)
      with False used t(1) r(1) show ?thesis by (simp add: kbind_run)
    qed
  qed
  with t r sfs_quiet_trans [OF t(3) r(3)] show ?case by auto
qed

lemma findname_run:
  assumes ok: "sfs_ok d_blocks ready s" and dok: "dir_ok sectors p s"
  shows "\<exists>t. sfs_dir_findname d_io p name s =
      Done (dir_lookup (content_of sectors p s) (nslots p s) name, dir_free (content_of sectors p s) (nslots p s)) t \<and>
    sfs_ok d_blocks ready t \<and> sfs_quiet sectors s t \<and> uio_of t = uio_of s"
proof -
  obtain sv where sv: "s_heap s p = Some sv" using dok by (auto simp: dir_ok_def file_ok_def)
  with scan_run [OF ok dok, of 0 "nslots p s" name] dok show ?thesis
    by (simp add: sfs_dir_findname_def sfs_dir_nentries_def kprog dir_lookup_0 dir_ok_def)
qed

text \<open>An entry lies inside one block, so it is written as a whole or not at all.\<close>

lemma writedir_run:
  assumes ok: "sfs_ok d_blocks ready s" and dok: "dir_ok sectors p s" and slot: "slot \<le> nslots p s" and sd: "dir_wf sd"
  shows "case sfs_writedir d_io p sd slot s of
      Done _ t \<Rightarrow> sfs_ok d_blocks ready t \<and> file_rel sectors p s t \<and> uio_of t = uio_of s \<and> io_user (s_io t) = io_user (s_io s) \<and>
        sfi_size (inode_at p t) = max (sfi_size (inode_at p s)) (slot * SFS_DIRSIZE + SFS_DIRSIZE) \<and>
        content_of sectors p t = mem_put (slot * SFS_DIRSIZE) (dir_bytes sd) (content_of sectors p s)
    | Fail e t \<Rightarrow> sfs_ok d_blocks ready t \<and> file_rel sectors p s t \<and> uio_of t = uio_of s \<and> io_user (s_io t) = io_user (s_io s) \<and>
        sfi_size (inode_at p t) = sfi_size (inode_at p s) \<and> content_of sectors p t = content_of sectors p s \<and>
        (e = ENOSPC \<or> e = EINVAL \<and> SFS_MAXFILE < slot * SFS_DIRSIZE + SFS_DIRSIZE)
    | Panic _ \<Rightarrow> False"
proof -
  let ?pos = "slot * SFS_DIRSIZE"
  let ?ku = "mk_kuio (dir_bytes sd) SFS_DIRSIZE (int slot * 64) UIO_WRITE"
  let ?s = "s\<lparr>s_io := (s_io s)\<lparr>io_uio := ?ku\<rparr>\<rparr>"
  have fok: "file_ok (sectors (dev_of s)) p s" and sz: "sfi_size (inode_at p s) \<le> SFS_MAXFILE"
    and al: "sfi_size (inode_at p s) mod SFS_DIRSIZE = 0" using dok by (simp_all add: dir_ok_def)
  have pos: "?pos \<le> sfi_size (inode_at p s)"
  proof -
    have "?pos \<le> nslots p s * SFS_DIRSIZE" using slot by simp
    also have "\<dots> \<le> sfi_size (inode_at p s)" by simp
    finally show ?thesis .
  qed
  have w: "wrap32 (int slot * 64) = int slot * 64" "nat (int slot * 64) = ?pos"
    using pos sz by (auto simp: wrap32_id nat_mult_distrib)
  have len: "length (dir_bytes sd) = SFS_DIRSIZE" using sd by (rule bytes_length)
  have u: "kuio_ok (uio_of ?s)" "uio_rw (uio_of ?s) = UIO_WRITE" "0 < uio_resid (uio_of ?s)"
    using pos sz len by (simp_all add: kuio_ok_def mk_kuio_def)
  have pre: "sfs_ok d_blocks ready ?s" "file_ok (sectors (dev_of ?s)) p ?s" "sfi_size (inode_at p ?s) < 2 ^ 31"
    using ok fok sz by (simp_all add: sfs_ok_def file_ok_def)
  note run = io_write [OF pre(1,2) u pre(3)]
  have same: "file_rel sectors p s (t\<lparr>s_io := (s_io t)\<lparr>io_uio := v\<rparr>\<rparr>) \<longleftrightarrow> file_rel sectors p ?s t" for t v
    by (simp add: file_rel_def sfs_frame_def file_ok_def)
  show ?thesis
  proof (cases "sfs_io d_io p ?s")
    case (Done x t)
    with run have t: "sfs_ok d_blocks ready t" "write_result sectors p SFS_DIRSIZE ?s t" by (simp_all add: mk_kuio_def)
    let ?t = "t\<lparr>s_io := (s_io t)\<lparr>io_uio := uio_of s\<rparr>\<rparr>"
    have "sfs_writedir d_io p sd slot s = Done () ?t"
      using with_ku_Done [where m = "sfs_io d_io p" and s = s and ku = ?ku and t = t] Done t(2)
      by (simp add: sfs_writedir_def w Let_def kprog write_result_def mk_kuio_def)
    moreover have "sfs_ok d_blocks ready ?t" using t(1) by (simp add: sfs_ok_def)
    ultimately show ?thesis
      using t(2) len w(2) same [where t = t and v = "uio_of s"] by (simp add: write_result_def Let_def mk_kuio_def)
  next
    case (Fail e t)
    with run obtain m where t: "sfs_ok d_blocks ready t" "m < SFS_DIRSIZE" "write_result sectors p m ?s t"
        "at_boundary ?pos m" "e = ENOSPC \<or> e = EINVAL \<and> SFS_MAXFILE < ?pos + SFS_DIRSIZE"
      using w(2) by (auto simp: mk_kuio_def)
    have "m = 0"
    proof -
      have "(slot * 64 + m) mod 512 \<noteq> 0" if "0 < m"
      proof -
        have "(slot * 64 + m) mod 64 = m" using t(2) by simp
        moreover have "(slot * 64 + m) mod 64 = (slot * 64 + m) mod 512 mod 64" by (simp add: mod_mod_cancel)
        ultimately show ?thesis using that by auto
      qed
      with t(4) show ?thesis unfolding at_boundary_def by (metis gr0I)
    qed
    let ?t = "t\<lparr>s_io := (s_io t)\<lparr>io_uio := uio_of s\<rparr>\<rparr>"
    have "sfs_writedir d_io p sd slot s = Fail e ?t"
      using with_ku_Fail [where m = "sfs_io d_io p" and s = s and ku = ?ku and e = e and t = t] Fail
      by (simp add: sfs_writedir_def w Let_def kprog)
    moreover have "sfs_ok d_blocks ready ?t" using t(1) by (simp add: sfs_ok_def)
    ultimately show ?thesis
      using t(3,5) \<open>m = 0\<close> w(2) pos same [where t = t and v = "uio_of s"] by (simp add: write_result_def Let_def mk_kuio_def mem_put_Nil max_absorb1)
  next
    case (Panic q)
    with run show ?thesis by simp
  qed
qed

end

text \<open>How the map changes when an entry is written.\<close>

lemma dir_entry_put:
  assumes "dir_wf sd"
  shows "dir_entry (mem_put (k * SFS_DIRSIZE) (dir_bytes sd) c) j = (if j = k then sd else dir_entry c j)"
proof -
  have len: "length (dir_bytes sd) = SFS_DIRSIZE" using assms by (rule bytes_length)
  have "map (mem_put (k * SFS_DIRSIZE) (dir_bytes sd) c) [j * SFS_DIRSIZE..<j * SFS_DIRSIZE + SFS_DIRSIZE] =
      (if j = k then dir_bytes sd else map c [j * SFS_DIRSIZE..<j * SFS_DIRSIZE + SFS_DIRSIZE])"
  proof (cases "j = k")
    case True
    then show ?thesis by (simp add: list_eq_iff_nth_eq len mem_put_def)
  next
    case False
    then have "Suc j * SFS_DIRSIZE \<le> k * SFS_DIRSIZE \<or> Suc k * SFS_DIRSIZE \<le> j * SFS_DIRSIZE"
      by (metis Suc_leI linorder_neqE_nat mult_le_mono1)
    with False show ?thesis using len by (auto simp: mem_put_def)
  qed
  with dir_of_bytes [OF assms] show ?thesis by (simp add: dir_entry_def)
qed

lemma dir_match_put:
  "dir_wf sd \<Longrightarrow> dir_match (mem_put (k * SFS_DIRSIZE) (dir_bytes sd) c) name j \<longleftrightarrow>
     (if j = k then sfd_ino sd \<noteq> SFS_NOINO \<and> sfd_cname sd = name else dir_match c name j)"
  by (simp add: dir_match_def dir_entry_put)

text \<open>Entering a new name, in a free slot or at the end; and taking one out.\<close>

lemma dir_put_link:
  assumes wf: "dir_wf sd" "sfd_ino sd \<noteq> SFS_NOINO" and names: "dir_names_ok c n"
    and slot: "k < n \<and> sfd_ino (dir_entry c k) = SFS_NOINO \<and> m = n \<or> k = n \<and> m = Suc n"
    and fresh: "dir_lookup c n (sfd_cname sd) = None" and c': "c' = mem_put (k * SFS_DIRSIZE) (dir_bytes sd) c"
  shows "dir_names_ok c' m"
    and "map_option fst (dir_lookup c' m name) = (if name = sfd_cname sd then Some (sfd_ino sd) else map_option fst (dir_lookup c n name))"
proof -
  have mt: "dir_match c' nm j \<longleftrightarrow> (if j = k then sfd_cname sd = nm else dir_match c nm j)" for nm j
    using dir_match_put [OF wf(1)] wf(2) by (simp add: c')
  have old: "j < n" if "j < m" "j \<noteq> k" for j using that slot by auto
  have free: "\<not> dir_match c nm k \<or> k = n" for nm using slot by (auto simp: dir_match_def)
  have km: "k < m" using slot by auto
  have nofresh: "\<not> dir_match c (sfd_cname sd) j" if "j < n" for j using fresh that by (simp add: dir_lookup_None)
  show names': "dir_names_ok c' m"
    unfolding dir_names_ok_def
  proof (intro allI impI)
    fix i j nm assume ij: "i < m" "j < m" "dir_match c' nm i" "dir_match c' nm j"
    then show "i = j"
      using mt [of nm i] mt [of nm j] old [of i] old [of j] nofresh [of i] nofresh [of j] dir_names_okD [OF names, of i j nm]
      by (auto split: if_splits)
  qed
  show "map_option fst (dir_lookup c' m name) = (if name = sfd_cname sd then Some (sfd_ino sd) else map_option fst (dir_lookup c n name))"
  proof (cases "name = sfd_cname sd")
    case True
    have "dir_lookup c' m name = Some (sfd_ino sd, k)"
      using km mt [of name k] True dir_entry_put [OF wf(1), of k c k] by (simp add: dir_lookup_Some [OF names'] flip: c')
    with True show ?thesis by simp
  next
    case False
    have "dir_lookup c' m name = dir_lookup c n name"
    proof (cases "dir_lookup c n name")
      case None
      then have "\<forall>j < m. \<not> dir_match c' name j" using mt [of name] False old by (auto simp: dir_lookup_None)
      then have "dir_lookup c' m name = None" by (simp only: dir_lookup_None)
      with None show ?thesis by simp
    next
      case (Some x)
      obtain ino j where x: "x = (ino, j)" by force
      with Some have j: "j < n" "dir_match c name j" "ino = sfd_ino (dir_entry c j)" by (simp_all add: dir_lookup_Some [OF names])
      moreover have "j \<noteq> k" using j slot free [of name] by auto
      moreover have "j < m" using j slot by auto
      ultimately have "dir_lookup c' m name = Some (ino, j)"
        using mt [of name j] dir_entry_put [OF wf(1), of k c j] by (simp add: dir_lookup_Some [OF names'] flip: c')
      with Some x show ?thesis by simp
    qed
    with False show ?thesis by simp
  qed
qed

lemma dir_put_unlink:
  assumes names: "dir_names_ok c n" and k: "k < n" "dir_match c nm k"
    and c': "c' = mem_put (k * SFS_DIRSIZE) (dir_bytes \<lparr>sfd_ino = SFS_NOINO, sfd_name = replicate SFS_NAMELEN 0\<rparr>) c"
  shows "dir_names_ok c' n"
    and "map_option fst (dir_lookup c' n name) = (if name = nm then None else map_option fst (dir_lookup c n name))"
proof -
  let ?sd = "\<lparr>sfd_ino = SFS_NOINO, sfd_name = replicate SFS_NAMELEN 0\<rparr>"
  have wf: "dir_wf ?sd" by (simp add: dir_wf_def)
  have mt: "dir_match c' a j \<longleftrightarrow> j \<noteq> k \<and> dir_match c a j" for a j using dir_match_put [OF wf] by (simp add: c')
  show names': "dir_names_ok c' n" using names unfolding dir_names_ok_def mt by blast
  show "map_option fst (dir_lookup c' n name) = (if name = nm then None else map_option fst (dir_lookup c n name))"
  proof (cases "dir_lookup c' n name")
    case None
    then have "dir_lookup c n name = None" if "name \<noteq> nm"
      using that k(2) mt [of name] by (auto simp: dir_lookup_None dir_match_def [of c nm] dir_match_def [of c name k])
    with None show ?thesis by simp
  next
    case (Some x)
    obtain ino j where x: "x = (ino, j)" by force
    with Some have j: "j < n" "j \<noteq> k" "dir_match c name j" "ino = sfd_ino (dir_entry c' j)"
      by (simp_all add: dir_lookup_Some [OF names'] mt)
    then have "dir_lookup c n name = Some (ino, j)"
      using dir_entry_put [OF wf, of k c j] by (simp add: dir_lookup_Some [OF names] c')
    moreover have "name \<noteq> nm" using j(1-3) k dir_names_okD [OF names, of j k nm] by auto
    ultimately show ?thesis using Some x by simp
  qed
qed

text \<open>Past the largest size a file can have there are only holes, so no entry in use can be there.\<close>

lemma de_zeros: "de (replicate n 0) = 0"
  by (induction n) (simp_all add: de_snoc flip: replicate_append_same)

lemma dir_entry_limit:
  assumes "sfd_ino (dir_entry (fcontent secs i) k) \<noteq> SFS_NOINO"
  shows "k * SFS_DIRSIZE + SFS_DIRSIZE \<le> SFS_MAXFILE"
proof (rule ccontr)
  assume "\<not> ?thesis"
  then have "1144 \<le> k" by linarith
  then have k: "SFS_MAXFILE \<le> k * SFS_DIRSIZE" by simp
  have "fcontent secs i j = 0" if "SFS_MAXFILE \<le> j" for j
  proof -
    have "143 \<le> j div SFS_BLOCKSIZE" using that by linarith
    then show ?thesis by (simp add: fcontent_def fdata_def fmap_def)
  qed
  with k have "map (fcontent secs i) [k * SFS_DIRSIZE..<k * SFS_DIRSIZE + SFS_DIRSIZE] = replicate SFS_DIRSIZE 0"
    by (intro nth_equalityI) auto
  then show False using assms by (simp add: dir_entry_def dir_of_def de_zeros)
qed

lemma sfd_cname_pad: "0 \<notin> set name \<Longrightarrow> length name < SFS_NAMELEN \<Longrightarrow>
  sfd_cname \<lparr>sfd_ino = ino, sfd_name = name @ replicate (SFS_NAMELEN - length name) 0\<rparr> = name"
  by (cases "SFS_NAMELEN - length name") (auto simp: sfd_cname_def list_update_append takeWhile_append split: nat.split)

text \<open>
  An operation on the directory at \<open>p\<close>: it stays a directory, and it touches only blocks of the directory and
  blocks that were free.
\<close>

definition dir_step :: "('d \<Rightarrow> nat) \<Rightarrow> ('d \<Rightarrow> nat \<Rightarrow> byte list) \<Rightarrow> ('d \<Rightarrow> bool) \<Rightarrow> nat \<Rightarrow> 'd sfs \<Rightarrow> 'd sfs \<Rightarrow> bool" where
  "dir_step d_blocks sectors ready p s t \<longleftrightarrow> sfs_ok d_blocks ready t \<and> dir_ok sectors p t \<and> file_rel sectors p s t \<and>
     uio_of t = uio_of s \<and> io_user (s_io t) = io_user (s_io s)"

context block_device begin

lemma dir_okI:
  assumes "dir_ok sectors p s" "file_rel sectors p s t" "sfi_size (inode_at p t) mod SFS_DIRSIZE = 0"
    "sfi_size (inode_at p t) \<le> SFS_MAXFILE" "dir_names_ok (content_of sectors p t) (nslots p t)"
  shows "dir_ok sectors p t"
  using assms by (simp add: dir_ok_def file_rel_def sv_frame_def)

lemma quiet_rel: "sfs_quiet sectors s t \<Longrightarrow> file_ok (sectors (dev_of s)) p s \<Longrightarrow> file_rel sectors p s t"
  by (auto simp: sfs_quiet_def file_rel_def file_ok_def sfs_frame_def sv_frame_def grows_def inode_ok_def)

lemma link_run:
  assumes ok: "sfs_ok d_blocks ready s" and dok: "dir_ok sectors p s" and name: "0 \<notin> set name" and ino: "0 < ino" "ino < 2 ^ 32"
  shows "case sfs_dir_link d_io p name ino s of
      Done slot t \<Rightarrow> dir_map sectors p s name = None \<and> length name < SFS_NAMELEN \<and> dir_step d_blocks sectors ready p s t \<and>
        dir_map sectors p t = (dir_map sectors p s)(name \<mapsto> ino) \<and>
        dir_lookup (content_of sectors p t) (nslots p t) name = Some (ino, slot)
    | Fail e t \<Rightarrow> dir_step d_blocks sectors ready p s t \<and> dir_map sectors p t = dir_map sectors p s \<and>
        (if dir_map sectors p s name \<noteq> None then e = EEXIST
         else if SFS_NAMELEN \<le> length name then e = ENAMETOOLONG
         else e = ENOSPC \<or> e = EINVAL \<and> sfi_size (inode_at p s) = SFS_MAXFILE)
    | Panic _ \<Rightarrow> False"
proof -
  let ?c = "content_of sectors p s" and ?N = "nslots p s"
  let ?sd = "\<lparr>sfd_ino = ino, sfd_name = name @ replicate (SFS_NAMELEN - length name) 0\<rparr>"
  obtain t where t: "sfs_dir_findname d_io p name s = Done (dir_lookup ?c ?N name, dir_free ?c ?N) t"
      "sfs_ok d_blocks ready t" "sfs_quiet sectors s t" "uio_of t = uio_of s"
    using findname_run [OF ok dok] by blast
  note q = quiet_dir [OF t(3), of p]
  have names: "dir_names_ok ?c ?N" and al: "sfi_size (inode_at p s) mod SFS_DIRSIZE = 0" "sfi_size (inode_at p s) \<le> SFS_MAXFILE"
    using dok by (simp_all add: dir_ok_def)
  have dt: "dir_ok sectors p t" "file_rel sectors p s t" using q(3) dok quiet_rel [OF t(3)] by (simp_all add: dir_ok_def)
  have "dir_map sectors p t = dir_map sectors p s" using t(3) by (intro ext) (simp add: dir_map_def sfs_quiet_def)
  then have same: "dir_step d_blocks sectors ready p s t \<and> dir_map sectors p t = dir_map sectors p s"
    using t dt by (simp add: dir_step_def sfs_quiet_def)
  show ?thesis
  proof (cases "dir_map sectors p s name = None \<and> length name < SFS_NAMELEN")
    case False
    then show ?thesis using t(1) same by (auto simp: sfs_dir_link_def kprog dir_map_def)
  next
    case True
    then have none: "dir_lookup ?c ?N name = None" and len: "length name < SFS_NAMELEN" by (auto simp: dir_map_def)
    define k where "k = (case dir_free ?c ?N of Some i \<Rightarrow> i | None \<Rightarrow> ?N)"
    define m where "m = (case dir_free ?c ?N of Some i \<Rightarrow> ?N | None \<Rightarrow> Suc ?N)"
    have slot: "k < ?N \<and> sfd_ino (dir_entry ?c k) = SFS_NOINO \<and> m = ?N \<or> k = ?N \<and> m = Suc ?N"
      using dir_free_Some [of ?c ?N] by (auto simp: k_def m_def split: option.split)
    have run: "sfs_dir_link d_io p name ino s = kthen (sfs_writedir d_io p ?sd k) (kret k) t"
    proof -
      obtain sv where "s_heap t p = Some sv" using dt(1) by (auto simp: dir_ok_def file_ok_def)
      then have "sfs_dir_nentries p t = Done ?N t" using dt(1) q(2) by (auto simp: sfs_dir_nentries_def kprog dir_ok_def)
      then have "(case dir_free ?c ?N of Some i \<Rightarrow> kret i | None \<Rightarrow> sfs_dir_nentries p) t = Done k t"
        by (simp add: k_def kprog split: option.split)
      with t(1) none len show ?thesis by (simp add: sfs_dir_link_def kbind_run)
    qed
    have wf: "dir_wf ?sd" using ino len by (simp add: dir_wf_def)
    have size: "sfi_size (inode_at p s) = ?N * SFS_DIRSIZE" using al by auto
    have kN: "k \<le> nslots p t" using slot q(2) by auto
    note w = writedir_run [OF t(2) dt(1) kN wf, unfolded q(1)]
    show ?thesis
    proof (cases "sfs_writedir d_io p ?sd k t")
      case (Done x r)
      with w have r: "sfs_ok d_blocks ready r" "file_rel sectors p t r" "uio_of r = uio_of t" "io_user (s_io r) = io_user (s_io t)"
        "sfi_size (inode_at p r) = max (sfi_size (inode_at p t)) (k * SFS_DIRSIZE + SFS_DIRSIZE)"
        "content_of sectors p r = mem_put (k * SFS_DIRSIZE) (dir_bytes ?sd) ?c" by (simp_all add: q)
      have cn: "sfd_cname ?sd = name" using sfd_cname_pad [OF name len] .
      have put: "dir_names_ok (content_of sectors p r) m"
        "\<And>nm. map_option fst (dir_lookup (content_of sectors p r) m nm) = (if nm = name then Some ino else map_option fst (dir_lookup ?c ?N nm))"
        using dir_put_link [OF wf _ names slot _ r(6)] cn none ino by simp_all
      have ek: "dir_entry (content_of sectors p r) k = ?sd" using dir_entry_put [OF wf, of k ?c k] by (simp add: r(6))
      have sz: "sfi_size (inode_at p r) = m * SFS_DIRSIZE" using slot r(5) size q(2) by (auto simp: max_def)
      then have ns: "nslots p r = m" by simp
      have "k * SFS_DIRSIZE + SFS_DIRSIZE \<le> SFS_MAXFILE" 
        using dir_entry_limit [where secs = "sectors (dev_of r)" and i = "inode_at p r" and k = k] ek ino(1) by simp
      then have "m * SFS_DIRSIZE \<le> SFS_MAXFILE" using r(5) al sz q(2) by simp
      then have "dir_ok sectors p r" using put(1) by (intro dir_okI [OF dt(1) r(2)]) (simp_all add: sz)
      moreover have "dir_lookup (content_of sectors p r) m name = Some (ino, k)"
        unfolding dir_lookup_Some [OF put(1)] using ek slot ino cn by (auto simp: dir_match_def)
      moreover have "dir_map sectors p r = (dir_map sectors p s)(name \<mapsto> ino)"
        using put(2) by (simp add: dir_map_def ns fun_eq_iff)
      ultimately show ?thesis
        using run Done True r same file_rel_trans [OF dt(2) r(2)] ns by (simp add: kprog dir_step_def)
    next
      case (Fail e r)
      with w have r: "sfs_ok d_blocks ready r" "file_rel sectors p t r" "uio_of r = uio_of t" "io_user (s_io r) = io_user (s_io t)"
        "sfi_size (inode_at p r) = sfi_size (inode_at p s)" "content_of sectors p r = ?c"
        "e = ENOSPC \<or> e = EINVAL \<and> SFS_MAXFILE < k * SFS_DIRSIZE + SFS_DIRSIZE" by (simp_all add: q)
      have "sfi_size (inode_at p s) = SFS_MAXFILE" if "SFS_MAXFILE < k * SFS_DIRSIZE + SFS_DIRSIZE"
      proof -
        have "1144 \<le> k" "k \<le> ?N" using that slot by auto
        then have "1144 * SFS_DIRSIZE \<le> ?N * SFS_DIRSIZE" by linarith
        with size al(2) show ?thesis by simp
      qed
      moreover have "dir_ok sectors p r" using al names r by (intro dir_okI [OF dt(1) r(2)]) simp_all
      moreover have "dir_map sectors p r = dir_map sectors p s" by (rule ext) (simp add: dir_map_def r(5,6))
      ultimately show ?thesis
        using run Fail True r same file_rel_trans [OF dt(2) r(2)] by (auto simp: kprog dir_step_def)
    next
      case (Panic a)
      with w show ?thesis by simp
    qed
  qed
qed


lemma unlink_run:
  assumes ok: "sfs_ok d_blocks ready s" and dok: "dir_ok sectors p s"
    and slot: "dir_lookup (content_of sectors p s) (nslots p s) name = Some (ino, slot)"
  shows "case sfs_dir_unlink d_io p slot s of
      Done _ t \<Rightarrow> dir_step d_blocks sectors ready p s t \<and> dir_map sectors p t = (dir_map sectors p s)(name := None) \<and>
        sfi_size (inode_at p t) = sfi_size (inode_at p s)
    | Fail e t \<Rightarrow> dir_step d_blocks sectors ready p s t \<and> dir_map sectors p t = dir_map sectors p s \<and> e = ENOSPC
    | Panic _ \<Rightarrow> False"
proof -
  let ?c = "content_of sectors p s" and ?N = "nslots p s"
  let ?sd = "\<lparr>sfd_ino = SFS_NOINO, sfd_name = replicate SFS_NAMELEN 0\<rparr>"
  have names: "dir_names_ok ?c ?N" and al: "sfi_size (inode_at p s) mod SFS_DIRSIZE = 0" "sfi_size (inode_at p s) \<le> SFS_MAXFILE"
    using dok by (simp_all add: dir_ok_def)
  have k: "slot < ?N" "dir_match ?c name slot" using slot by (simp_all add: dir_lookup_Some [OF names])
  have fits: "slot * SFS_DIRSIZE + SFS_DIRSIZE \<le> sfi_size (inode_at p s)" using k(1) by linarith
  have wf: "dir_wf ?sd" by (simp add: dir_wf_def)
  note w = writedir_run [OF ok dok _ wf, of slot, folded sfs_dir_unlink_def]
  show ?thesis
  proof (cases "sfs_dir_unlink d_io p slot s")
    case (Done x r)
    with w k have r: "sfs_ok d_blocks ready r" "file_rel sectors p s r" "uio_of r = uio_of s" "io_user (s_io r) = io_user (s_io s)"
        "sfi_size (inode_at p r) = sfi_size (inode_at p s)"
        "content_of sectors p r = mem_put (slot * SFS_DIRSIZE) (dir_bytes ?sd) ?c" using fits by (simp_all add: max_absorb1)
    note put = dir_put_unlink [OF names k r(6)]
    have "dir_ok sectors p r" using r al put(1) by (intro dir_okI [OF dok r(2)]) simp_all
    moreover have "dir_map sectors p r = (dir_map sectors p s)(name := None)" using put(2) r(5) by (simp add: dir_map_def fun_eq_iff)
    ultimately show ?thesis using r Done by (simp add: dir_step_def)
  next
    case (Fail e r)
    with w k have r: "sfs_ok d_blocks ready r" "file_rel sectors p s r" "uio_of r = uio_of s" "io_user (s_io r) = io_user (s_io s)"
        "sfi_size (inode_at p r) = sfi_size (inode_at p s)" "content_of sectors p r = ?c" "e = ENOSPC"
      using fits al(2) by auto
    have "dir_ok sectors p r" using r al names by (intro dir_okI [OF dok r(2)]) simp_all
    moreover have "dir_map sectors p r = dir_map sectors p s" by (rule ext) (simp add: dir_map_def r(5,6))
    ultimately show ?thesis using r Fail by (simp add: dir_step_def)
  next
    case (Panic a)
    with w k show ?thesis by simp
  qed
qed

end

subsection \<open>The directory is a map\<close>

text \<open>
  C12. Entering a name in a directory adds exactly that name to the map from names to inode numbers that the
  directory stands for, and every other name keeps its meaning; the slot handed back is where the name is found.
  It fails, and leaves the map alone, with \<^verbatim>\<open>EEXIST\<close> exactly when the name is there,
  with \<^verbatim>\<open>ENAMETOOLONG\<close> exactly when it is new and does not fit an entry, and else only for lack of space on
  the disk or in the file. In every case the result is a well-formed directory, no name is there twice,
  and no block of another file is touched.
\<close>

theorem sfs_dir_link_correct:
  assumes "block_device d_io d_blocks sectors ready" and "sfs_ok d_blocks ready s" and "dir_ok sectors p s"
    and "0 \<notin> set name" and "0 < ino" and "ino < 2 ^ 32"
  shows "case sfs_dir_link d_io p name ino s of
      Done slot t \<Rightarrow> dir_map sectors p s name = None \<and> length name < SFS_NAMELEN \<and> dir_step d_blocks sectors ready p s t \<and>
        dir_map sectors p t = (dir_map sectors p s)(name \<mapsto> ino) \<and>
        dir_lookup (content_of sectors p t) (nslots p t) name = Some (ino, slot)
    | Fail e t \<Rightarrow> dir_step d_blocks sectors ready p s t \<and> dir_map sectors p t = dir_map sectors p s \<and>
        (if dir_map sectors p s name \<noteq> None then e = EEXIST
         else if SFS_NAMELEN \<le> length name then e = ENAMETOOLONG
         else e = ENOSPC \<or> e = EINVAL \<and> sfi_size (inode_at p s) = SFS_MAXFILE)
    | Panic _ \<Rightarrow> False"
  using assms by (rule block_device.link_run)

text \<open>A directory with one entry: block 2 of the sample disk, all bytes 2.\<close>

definition dir_sample :: "disk lhd_softc sfs" where
  "dir_sample = (let s = sfs_sample UIO_READ 0 0 []; sv = the (s_heap s 1) in
     s\<lparr>s_heap := [1 \<mapsto> sv\<lparr>sv_i := (sv_i sv)\<lparr>sfi_size := 64, sfi_type := SFS_TYPE_DIR\<rparr>, vn_ops := Sfs_dirops\<rparr>]\<rparr>)"

lemma dir_sample_ok:
  "sfs_ok lh_blocks (lhd_ready dk_nsect) dir_sample" "dir_ok (\<lambda>lh. disk_sectors (lh_card lh)) 1 dir_sample"
proof -
  show "sfs_ok lh_blocks (lhd_ready dk_nsect) dir_sample"
    using sfs_sample_ok(1) [of 0 0 "[]" UIO_READ] by (simp add: dir_sample_def Let_def)
  have "file_ok secs 1 dir_sample" for secs
    by (simp add: dir_sample_def file_ok_def sfs_sample_def inode_ok_def inode_wf_def fblocks_def sfs_sample_map)
  then show "dir_ok (\<lambda>lh. disk_sectors (lh_card lh)) 1 dir_sample"
    by (simp add: dir_ok_def) (simp add: dir_sample_def Let_def dir_names_ok_def sfs_sample_def)
qed

lemma dir_sample_lookup:
  "dir_lookup (content_of (\<lambda>lh. disk_sectors (lh_card lh)) 1 dir_sample) (nslots 1 dir_sample) (replicate 59 2) = Some (0x02020202, 0)"
proof -
  let ?c = "content_of (\<lambda>lh. disk_sectors (lh_card lh)) 1 dir_sample"
  have "?c j = 2" if "j < 64" for j
    using that by (simp add: dir_sample_def Let_def fcontent_def fdata_def sfs_sample_ok(4) del: One_nat_def)
      (simp add: sfs_sample_def fmap_def)
  then have "map ?c [0..<64] = replicate 64 2" by (intro nth_equalityI) auto
  moreover have "sfd_ino (dir_of (replicate 64 2)) = 0x02020202"
  proof -
    have "take 4 (replicate 64 (2 :: byte)) = [2, 2, 2, 2]" by (simp add: numeral_eq_Suc)
    then show ?thesis by (simp add: dir_of_def de_def)
  qed
  moreover have "sfd_cname (dir_of (replicate 64 2)) = replicate 59 2"
  proof -
    have "(replicate 60 (2 :: byte))[59 := 0] = replicate 59 2 @ [0]"
      by (simp add: list_eq_iff_nth_eq nth_append nth_list_update)
    then show ?thesis by (simp add: dir_of_def sfd_cname_def takeWhile_append)
  qed
  ultimately have "dir_match ?c (replicate 59 2) 0" "sfd_ino (dir_entry ?c 0) = 0x02020202"
    by (simp_all add: dir_match_def dir_entry_def)
  moreover have "nslots 1 dir_sample = 1" by (simp add: dir_sample_def Let_def)
  ultimately show ?thesis by (simp add: dir_lookup_Suc dir_lookup_0)
qed

theorem sfs_dir_link_correct_witness:
  "case sfs_dir_link (lhd_io disk_card) 1 [97] 5 dir_sample of
     Done slot t \<Rightarrow> dir_map (\<lambda>lh. disk_sectors (lh_card lh)) 1 t [97] = Some 5
   | Fail e t \<Rightarrow> e = EEXIST \<or> e = ENOSPC
   | Panic _ \<Rightarrow> False"
proof -
  have "sfi_size (inode_at 1 dir_sample) = 64" by (simp add: dir_sample_def Let_def)
  then show ?thesis
    using sfs_dir_link_correct [where s = dir_sample and p = 1 and name = "[97]" and ino = 5, OF dc.bd.block_device_axioms dir_sample_ok]
    by (cases "sfs_dir_link (lhd_io disk_card) 1 [97] 5 dir_sample") (auto split: if_splits)
qed

text \<open>
  C13. Taking a name out of a directory, given the slot a search has found it in, removes exactly that name
  from the map; if the write fails the map is as before. The directory stays well formed.
\<close>

theorem sfs_dir_unlink_correct:
  assumes "block_device d_io d_blocks sectors ready" and "sfs_ok d_blocks ready s" and "dir_ok sectors p s"
    and "dir_lookup (content_of sectors p s) (nslots p s) name = Some (ino, slot)"
  shows "(\<exists>emptyslot t. sfs_dir_findname d_io p name s = Done (Some (ino, slot), emptyslot) t \<and> sfs_quiet sectors s t) \<and>
    (case sfs_dir_unlink d_io p slot s of
      Done _ t \<Rightarrow> dir_step d_blocks sectors ready p s t \<and> dir_map sectors p t = (dir_map sectors p s)(name := None) \<and>
        sfi_size (inode_at p t) = sfi_size (inode_at p s)
    | Fail e t \<Rightarrow> dir_step d_blocks sectors ready p s t \<and> dir_map sectors p t = dir_map sectors p s \<and> e = ENOSPC
    | Panic _ \<Rightarrow> False)"
  using block_device.findname_run [OF assms(1-3), of name] block_device.unlink_run [OF assms] assms(4) by auto

theorem sfs_dir_unlink_correct_witness:
  "case sfs_dir_unlink (lhd_io disk_card) 1 0 dir_sample of
     Done _ t \<Rightarrow> dir_map (\<lambda>lh. disk_sectors (lh_card lh)) 1 t (replicate 59 2) = None
   | Fail e t \<Rightarrow> e = ENOSPC
   | Panic _ \<Rightarrow> False"
  using sfs_dir_unlink_correct [where s = dir_sample and p = 1, OF dc.bd.block_device_axioms dir_sample_ok dir_sample_lookup]
  by (cases "sfs_dir_unlink (lhd_io disk_card) 1 0 dir_sample") simp_all

end
