(* ===== verification/SfsVnode.thy ===== *)
theory SfsVnode
  imports SfsDir
begin

text \<open>
  Vnodes: reference counting (\<^verbatim>\<open>kern/fs/vfs/vnode.c\<close>) and the operations SFS provides on them (the second half
  of \<^verbatim>\<open>kern/fs/sfs/sfs_vnode.c\<close>). A vnode pointer is an address in \<open>s_heap\<close>; \<open>s_brk\<close> is the next address to be
  handed out, so a freed address is not used again and a dangling pointer is noticed. Execution is
  sequential, so \<^verbatim>\<open>vn_countlock\<close>, which is held only around single counter updates, appears only in its
  allocation. \<open>kmalloc\<close> says which requests for memory are granted.
\<close>

unbundle bit_operations_syntax

subsection \<open>Vnodes\<close>

text \<open>The common initialiser fails when the lock for the counters cannot be allocated.\<close>

definition vnode_init :: "kmalloc_fn \<Rightarrow> sfs_ops \<Rightarrow> sfs_vnode \<Rightarrow> errno + sfs_vnode" where
  "vnode_init kmalloc ops vn =
     (if kmalloc 8 \<and> kmalloc 16
      then Inr (vn\<lparr>vn_ops := ops, vn_refcount := 1, vn_opencount := 0\<rparr>) else Inl ENOMEM)"

definition vnode_kill :: "nat \<Rightarrow> ('d sfs, unit) prog" where
  "vnode_kill v =
     kbind (get_sv v) (\<lambda>vn.
     kthen (kassert (vn_refcount vn = 1))
     (kthen (kassert (vn_opencount vn = 0))
     (mod_sv v (\<lambda>vn. vn\<lparr>vn_refcount := 0, vn_opencount := 0\<rparr>))))"

definition vnode_incref :: "nat \<Rightarrow> ('d sfs, unit) prog" where
  "vnode_incref v = mod_sv v (\<lambda>vn. vn\<lparr>vn_refcount := vn_refcount vn + 1\<rparr>)"

definition vnode_incopen :: "nat \<Rightarrow> ('d sfs, unit) prog" where
  "vnode_incopen v = mod_sv v (\<lambda>vn. vn\<lparr>vn_opencount := vn_opencount vn + 1\<rparr>)"

definition vnode_check :: "nat \<Rightarrow> string \<Rightarrow> ('d sfs, unit) prog" where
  "vnode_check v opstr =
     kbind (get_sv v) (\<lambda>vn.
     if vn_refcount vn < 0 then kpanic ''vnode_check: negative refcount''
     else if vn_refcount vn = 0 \<and> opstr \<noteq> ''reclaim'' then kpanic ''vnode_check: zero refcount''
     else if vn_opencount vn < 0 then kpanic ''vnode_check: negative opencount''
     else kret ())"

text \<open>A call through the operations table: the entry for files, and the entry for directories.\<close>

definition VOP :: "nat \<Rightarrow> string \<Rightarrow> ('d sfs, 'a) prog \<Rightarrow> ('d sfs, 'a) prog \<Rightarrow> ('d sfs, 'a) prog" where
  "VOP v opstr fileop dirop =
     kthen (vnode_check v opstr)
     (kbind (get_sv v) (\<lambda>vn. case vn_ops vn of Sfs_fileops \<Rightarrow> fileop | Sfs_dirops \<Rightarrow> dirop))"

definition on_vnodes :: "(nat array, 'a) prog \<Rightarrow> ('d sfs, 'a) prog" where
  "on_vnodes = kzoom s_vnodes (\<lambda>x s. s\<lparr>s_vnodes := x\<rparr>)"

definition kfree_sv :: "nat \<Rightarrow> ('d sfs, unit) prog" where
  "kfree_sv p = kmod (\<lambda>s. s\<lparr>s_heap := (s_heap s)(p := None)\<rparr>)"

subsection \<open>Truncation\<close>

text \<open>Division of \<^verbatim>\<open>int\<close>s rounds toward zero.\<close>

definition cdiv :: "int \<Rightarrow> int \<Rightarrow> int" where
  "cdiv a b = (if a < 0 then - (- a div b) else a div b)"

text \<open>The loop over the direct blocks, from index \<open>i\<close> with \<open>n\<close> to go.\<close>

fun sfs_trunc_direct :: "nat \<Rightarrow> nat \<Rightarrow> nat \<Rightarrow> nat \<Rightarrow> ('d sfs, unit) prog" where
  "sfs_trunc_direct p blocklen i 0 = kret ()"
| "sfs_trunc_direct p blocklen i (Suc n) =
     kbind (get_sv p) (\<lambda>sv.
     kbind (knth (sfi_direct (sv_i sv)) i) (\<lambda>block.
     kthen
       (if i \<ge> blocklen \<and> block \<noteq> 0
        then kthen (sfs_bfree block)
             (mod_sv p (\<lambda>sv. sv\<lparr>sv_i := (sv_i sv)\<lparr>sfi_direct := (sfi_direct (sv_i sv))[i := 0]\<rparr>, sv_dirty := True\<rparr>))
        else kret ())
       (sfs_trunc_direct p blocklen (Suc i) n)))"

text \<open>
  The loop over the entries of the indirect block, the first of them file block \<open>k\<close>; it gives the new
  entries, \<^verbatim>\<open>hasnonzero\<close> and \<^verbatim>\<open>iddirty\<close>.
\<close>

fun sfs_trunc_idbuf :: "nat \<Rightarrow> nat \<Rightarrow> nat list \<Rightarrow> ('d sfs, nat list \<times> bool \<times> bool) prog" where
  "sfs_trunc_idbuf blocklen k [] = kret ([], False, False)"
| "sfs_trunc_idbuf blocklen k (b # bs) =
     kbind (if blocklen < k \<and> b \<noteq> 0 then kthen (sfs_bfree b) (kret (0, True)) else kret (b, False)) (\<lambda>(c, d).
     kbind (sfs_trunc_idbuf blocklen (Suc k) bs) (\<lambda>(cs, hasnonzero, iddirty).
     kret (c # cs, c \<noteq> 0 \<or> hasnonzero, d \<or> iddirty)))"

definition sfs_trunc_indirect :: "('d io, unit) prog \<Rightarrow> nat \<Rightarrow> nat \<Rightarrow> ('d sfs, unit) prog" where
  "sfs_trunc_indirect d_io p blocklen =
     kbind (get_sv p) (\<lambda>sv.
     let idblock = sfi_indirect (sv_i sv); baseblock = SFS_NDIRECT; highblock = baseblock + SFS_DBPERIDB - 1
     in if blocklen < highblock \<and> idblock \<noteq> 0
        then kbind (on_io (sfs_rblock d_io idblock)) (\<lambda>bs.
             kbind (sfs_trunc_idbuf blocklen baseblock (idbuf_of bs)) (\<lambda>(idbuf, hasnonzero, iddirty).
             if \<not> hasnonzero
             then kthen (sfs_bfree idblock)
                  (mod_sv p (\<lambda>sv. sv\<lparr>sv_i := (sv_i sv)\<lparr>sfi_indirect := 0\<rparr>, sv_dirty := True\<rparr>))
             else if iddirty then on_io (sfs_wblock d_io (be_words idbuf) idblock)
             else kret ()))
        else kret ())"

definition sfs_truncate :: "('d io, unit) prog \<Rightarrow> nat \<Rightarrow> int \<Rightarrow> ('d sfs, unit) prog" where
  "sfs_truncate d_io p len =
     (let blocklen = nat (cdiv (wrap32 (len + int SFS_BLOCKSIZE - 1)) (int SFS_BLOCKSIZE) mod 2 ^ 32)
      in kthen (sfs_trunc_direct p blocklen 0 SFS_NDIRECT)
         (kthen (sfs_trunc_indirect d_io p blocklen)
         (mod_sv p (\<lambda>sv. sv\<lparr>sv_i := (sv_i sv)\<lparr>sfi_size := nat (len mod 2 ^ 32)\<rparr>, sv_dirty := True\<rparr>))))"

subsection \<open>Letting go of a vnode\<close>

definition sfs_fsync :: "('d io, unit) prog \<Rightarrow> nat \<Rightarrow> ('d sfs, unit) prog" where
  "sfs_fsync d_io v = sfs_sync_inode d_io v"

definition VOP_FSYNC :: "('d io, unit) prog \<Rightarrow> nat \<Rightarrow> ('d sfs, unit) prog" where
  "VOP_FSYNC d_io v = VOP v ''fsync'' (sfs_fsync d_io v) (sfs_fsync d_io v)"

definition VOP_TRUNCATE :: "('d io, unit) prog \<Rightarrow> nat \<Rightarrow> int \<Rightarrow> ('d sfs, unit) prog" where
  "VOP_TRUNCATE d_io v len = VOP v ''truncate'' (sfs_truncate d_io v len) (kfail EISDIR)"

definition sfs_close :: "('d io, unit) prog \<Rightarrow> nat \<Rightarrow> ('d sfs, unit) prog" where
  "sfs_close d_io v = VOP_FSYNC d_io v"

text \<open>The search for the vnode in the table, from index \<open>i\<close> with \<open>n\<close> to go.\<close>

fun sfs_reclaim_ix :: "nat \<Rightarrow> int \<Rightarrow> nat \<Rightarrow> ('d sfs, int) prog" where
  "sfs_reclaim_ix sv i 0 = kret (-1)"
| "sfs_reclaim_ix sv i (Suc n) =
     kbind (on_vnodes (array_getguy i)) (\<lambda>sv2. if sv2 = Some sv then kret i else sfs_reclaim_ix sv (i + 1) n)"

definition sfs_reclaim_out :: "nat \<Rightarrow> ('d sfs, unit) prog" where
  "sfs_reclaim_out v =
     kbind (on_vnodes array_getnum) (\<lambda>num.
     kbind (sfs_reclaim_ix v 0 (nat num)) (\<lambda>ix.
     if ix < 0 then kpanic ''sfs: reclaim vnode not in vnode pool''
     else kthen (on_vnodes (array_remove ix))
          (kthen (vnode_kill v)
          (kfree_sv v))))"

definition sfs_reclaim :: "('d io, unit) prog \<Rightarrow> nat \<Rightarrow> ('d sfs, unit) prog" where
  "sfs_reclaim d_io v =
     kbind (get_sv v) (\<lambda>sv.
     if vn_refcount sv \<noteq> 1
     then kthen (kassert (vn_refcount sv > 1))
          (kthen (mod_sv v (\<lambda>sv. sv\<lparr>vn_refcount := vn_refcount sv - 1\<rparr>)) (kfail EBUSY))
     else
     kthen (if sfi_linkcount (sv_i sv) = 0 then VOP_TRUNCATE d_io v 0 else kret ())
     (kthen (sfs_sync_inode d_io v)
     (kbind (get_sv v) (\<lambda>sv.
     kthen (if sfi_linkcount (sv_i sv) = 0 then sfs_bfree (sv_ino sv) else kret ())
     (sfs_reclaim_out v)))))"

definition vnode_decref :: "('d io, unit) prog \<Rightarrow> nat \<Rightarrow> ('d sfs, unit) prog" where
  "vnode_decref d_io v =
     kbind (get_sv v) (\<lambda>vn.
     kthen (kassert (vn_refcount vn > 0))
     (if vn_refcount vn > 1 then mod_sv v (\<lambda>vn. vn\<lparr>vn_refcount := vn_refcount vn - 1\<rparr>)
      else kbind (kcatch (VOP v ''reclaim'' (sfs_reclaim d_io v) (sfs_reclaim d_io v))) (\<lambda>result. kret ())))"

definition vnode_decopen :: "('d io, unit) prog \<Rightarrow> nat \<Rightarrow> ('d sfs, unit) prog" where
  "vnode_decopen d_io v =
     kbind (get_sv v) (\<lambda>vn.
     kthen (kassert (vn_opencount vn > 0))
     (kthen (mod_sv v (\<lambda>vn. vn\<lparr>vn_opencount := vn_opencount vn - 1\<rparr>))
     (if vn_opencount vn - 1 > 0 then kret ()
      else kbind (kcatch (VOP v ''close'' (sfs_close d_io v) (sfs_close d_io v))) (\<lambda>result. kret ()))))"

subsection \<open>Finding a vnode\<close>

text \<open>The search in the table of resident vnodes.\<close>

fun sfs_findvnode :: "nat \<Rightarrow> nat \<Rightarrow> int \<Rightarrow> nat \<Rightarrow> ('d sfs, nat option) prog" where
  "sfs_findvnode ino forcetype i 0 = kret None"
| "sfs_findvnode ino forcetype i (Suc n) =
     kbind (on_vnodes (array_getguy i)) (\<lambda>g.
     kbind (kderef g) (\<lambda>p.
     kbind (get_sv p) (\<lambda>sv.
     kbind (sfs_bused (sv_ino sv)) (\<lambda>used.
     if \<not> used then kpanic ''sfs: Found inode in unallocated block''
     else if sv_ino sv = ino
     then kthen (kassert (forcetype = SFS_TYPE_INVAL)) (kthen (vnode_incref p) (kret (Some p)))
     else sfs_findvnode ino forcetype (i + 1) n))))"

text \<open>The second half of \<^verbatim>\<open>sfs_loadvnode\<close>: \<open>i\<close> is the inode that has been read.\<close>

definition sfs_newvnode :: "kmalloc_fn \<Rightarrow> nat \<Rightarrow> nat \<Rightarrow> sfs_inode \<Rightarrow> ('d sfs, nat) prog" where
  "sfs_newvnode kmalloc ino forcetype i =
     kthen (kassert (forcetype \<noteq> SFS_TYPE_INVAL \<longrightarrow> sfi_type i = SFS_TYPE_INVAL))
     (let i = (if forcetype \<noteq> SFS_TYPE_INVAL then i\<lparr>sfi_type := forcetype\<rparr> else i);
          sv = \<lparr>sv_i = i, sv_ino = ino, sv_dirty = (forcetype \<noteq> SFS_TYPE_INVAL), vn_refcount = 0, vn_opencount = 0, vn_ops = Sfs_fileops\<rparr>
      in kbind (if sfi_type i = SFS_TYPE_FILE then kret Sfs_fileops
                else if sfi_type i = SFS_TYPE_DIR then kret Sfs_dirops
                else kpanic ''sfs: loadvnode: Invalid inode type'') (\<lambda>ops.
         case vnode_init kmalloc ops sv of Inl e \<Rightarrow> kfail e
         | Inr sv \<Rightarrow>
           kbind (kget s_brk) (\<lambda>p.
           kthen (kmod (\<lambda>s. s\<lparr>s_brk := p + 1\<rparr>))
           (kthen (put_sv p sv)
           (kbind (kcatch (on_vnodes (array_add kmalloc p))) (\<lambda>result.
           case result of
             Inl e \<Rightarrow> kthen (vnode_kill p) (kthen (kfree_sv p) (kfail e))
           | Inr _ \<Rightarrow> kret p))))))"

definition sfs_loadvnode :: "('d io, unit) prog \<Rightarrow> kmalloc_fn \<Rightarrow> nat \<Rightarrow> nat \<Rightarrow> ('d sfs, nat) prog" where
  "sfs_loadvnode d_io kmalloc ino forcetype =
     kbind (on_vnodes array_getnum) (\<lambda>num.
     kbind (sfs_findvnode ino forcetype 0 (nat num)) (\<lambda>found.
     case found of Some p \<Rightarrow> kret p
     | None \<Rightarrow>
       if \<not> kmalloc 544 then kfail ENOMEM
       else kbind (sfs_bused ino) (\<lambda>used.
            if \<not> used then kpanic ''sfs: Tried to load inode from unallocated block''
            else kbind (on_io (sfs_rblock d_io ino)) (\<lambda>buf. sfs_newvnode kmalloc ino forcetype (inode_of buf)))))"

definition sfs_getroot :: "('d io, unit) prog \<Rightarrow> kmalloc_fn \<Rightarrow> ('d sfs, nat) prog" where
  "sfs_getroot d_io kmalloc =
     kbind (kcatch (sfs_loadvnode d_io kmalloc SFS_ROOT_LOCATION SFS_TYPE_INVAL)) (\<lambda>result.
     case result of Inl e \<Rightarrow> kpanic ''sfs: getroot: Cannot load root vnode'' | Inr p \<Rightarrow> kret p)"

text \<open>The vnode of a name in a directory, and the slot of its entry.\<close>

definition sfs_lookonce :: "('d io, unit) prog \<Rightarrow> kmalloc_fn \<Rightarrow> nat \<Rightarrow> byte list \<Rightarrow> ('d sfs, nat \<times> nat) prog" where
  "sfs_lookonce d_io kmalloc p name =
     kbind (sfs_dir_findname d_io p name) (\<lambda>(found, emptyslot).
     case found of None \<Rightarrow> kfail ENOENT
     | Some (ino, slot) \<Rightarrow>
       kbind (sfs_loadvnode d_io kmalloc ino SFS_TYPE_INVAL) (\<lambda>ret.
       kbind (get_sv ret) (\<lambda>sv.
       if sfi_linkcount (sv_i sv) = 0 then kpanic ''sfs: Link count of file found in dir is 0''
       else kret (ret, slot))))"

definition sfs_makeobj :: "('d io, unit) prog \<Rightarrow> kmalloc_fn \<Rightarrow> nat \<Rightarrow> ('d sfs, nat) prog" where
  "sfs_makeobj d_io kmalloc type =
     kbind (sfs_balloc d_io) (\<lambda>ino. sfs_loadvnode d_io kmalloc ino type)"

subsection \<open>Operations on files\<close>

abbreviation (input) O_RDONLY :: u32 where "O_RDONLY \<equiv> 0"
abbreviation (input) O_WRONLY :: u32 where "O_WRONLY \<equiv> 1"
abbreviation (input) O_RDWR :: u32 where "O_RDWR \<equiv> 2"
abbreviation (input) O_CREAT :: u32 where "O_CREAT \<equiv> 4"
abbreviation (input) O_EXCL :: u32 where "O_EXCL \<equiv> 8"
abbreviation (input) O_TRUNC :: u32 where "O_TRUNC \<equiv> 16"
abbreviation (input) O_APPEND :: u32 where "O_APPEND \<equiv> 32"
abbreviation (input) O_ACCMODE :: u32 where "O_ACCMODE \<equiv> 3"

abbreviation (input) S_IFREG :: nat where "S_IFREG \<equiv> 4096"
abbreviation (input) S_IFDIR :: nat where "S_IFDIR \<equiv> 8192"

record stat =
  st_mode :: nat
  st_nlink :: nat
  st_size :: int
  st_blocks :: nat

definition sfs_open :: "u32 \<Rightarrow> ('d sfs, unit) prog" where
  "sfs_open openflags = (if openflags AND O_APPEND \<noteq> 0 then kfail EUNIMP else kret ())"

definition sfs_opendir :: "u32 \<Rightarrow> ('d sfs, unit) prog" where
  "sfs_opendir openflags =
     (if openflags AND O_ACCMODE \<noteq> O_RDONLY then kfail EISDIR
      else if openflags AND O_APPEND \<noteq> 0 then kfail EISDIR
      else kret ())"

definition sfs_read :: "('d io, unit) prog \<Rightarrow> nat \<Rightarrow> ('d sfs, unit) prog" where
  "sfs_read d_io v = kbind get_uio (\<lambda>u. kthen (kassert (uio_rw u = UIO_READ)) (sfs_io d_io v))"

definition sfs_write :: "('d io, unit) prog \<Rightarrow> nat \<Rightarrow> ('d sfs, unit) prog" where
  "sfs_write d_io v = kbind get_uio (\<lambda>u. kthen (kassert (uio_rw u = UIO_WRITE)) (sfs_io d_io v))"

definition sfs_ioctl :: "nat \<Rightarrow> int \<Rightarrow> nat \<Rightarrow> ('d sfs, unit) prog" where
  "sfs_ioctl v op data = kfail EINVAL"

definition sfs_gettype :: "nat \<Rightarrow> ('d sfs, nat) prog" where
  "sfs_gettype v =
     kbind (get_sv v) (\<lambda>sv.
     if sfi_type (sv_i sv) = SFS_TYPE_FILE then kret S_IFREG
     else if sfi_type (sv_i sv) = SFS_TYPE_DIR then kret S_IFDIR
     else kpanic ''sfs: gettype: Invalid inode type'')"

definition sfs_stat :: "nat \<Rightarrow> ('d sfs, stat) prog" where
  "sfs_stat v =
     kbind (VOP v ''gettype'' (sfs_gettype v) (sfs_gettype v)) (\<lambda>mode.
     kbind (get_sv v) (\<lambda>sv.
     kret \<lparr>st_mode = mode, st_nlink = 0, st_size = wrap32 (int (sfi_size (sv_i sv))), st_blocks = 0\<rparr>))"

definition sfs_tryseek :: "nat \<Rightarrow> int \<Rightarrow> ('d sfs, unit) prog" where
  "sfs_tryseek v pos = (if pos < 0 then kfail EINVAL else kret ())"

definition sfs_mmap :: "nat \<Rightarrow> ('d sfs, unit) prog" where
  "sfs_mmap v = kfail EUNIMP"

text \<open>The name of the root directory is empty: nothing is moved.\<close>

definition sfs_namefile :: "nat \<Rightarrow> ('d sfs, unit) prog" where
  "sfs_namefile vv = kbind (get_sv vv) (\<lambda>sv. kassert (sv_ino sv = SFS_ROOT_LOCATION))"

subsection \<open>Operations on directories\<close>

text \<open>\<^verbatim>\<open>sfi_linkcount++\<close> and \<^verbatim>\<open>sfi_linkcount--\<close>, with the inode marked dirty.\<close>

definition link_inc :: "sfs_vnode \<Rightarrow> sfs_vnode" where
  "link_inc sv = sv\<lparr>sv_i := (sv_i sv)\<lparr>sfi_linkcount := (sfi_linkcount (sv_i sv) + 1) mod 2 ^ 16\<rparr>, sv_dirty := True\<rparr>"

definition link_dec :: "sfs_vnode \<Rightarrow> sfs_vnode" where
  "link_dec sv = sv\<lparr>sv_i := (sv_i sv)\<lparr>sfi_linkcount := (sfi_linkcount (sv_i sv) + 2 ^ 16 - 1) mod 2 ^ 16\<rparr>, sv_dirty := True\<rparr>"

definition sfs_creat :: "('d io, unit) prog \<Rightarrow> kmalloc_fn \<Rightarrow> nat \<Rightarrow> byte list \<Rightarrow> bool \<Rightarrow> ('d sfs, nat) prog" where
  "sfs_creat d_io kmalloc v name excl =
     kbind (sfs_dir_findname d_io v name) (\<lambda>(found, emptyslot).
     case found of
       Some (ino, slot) \<Rightarrow> if excl then kfail EEXIST else sfs_loadvnode d_io kmalloc ino SFS_TYPE_INVAL
     | None \<Rightarrow>
       kbind (sfs_makeobj d_io kmalloc SFS_TYPE_FILE) (\<lambda>newguy.
       kbind (get_sv newguy) (\<lambda>sv.
       kbind (kcatch (sfs_dir_link d_io v name (sv_ino sv))) (\<lambda>result.
       case result of
         Inl e \<Rightarrow> kthen (vnode_decref d_io newguy) (kfail e)
       | Inr _ \<Rightarrow> kthen (mod_sv newguy link_inc) (kret newguy)))))"

definition sfs_link :: "('d io, unit) prog \<Rightarrow> nat \<Rightarrow> byte list \<Rightarrow> nat \<Rightarrow> ('d sfs, unit) prog" where
  "sfs_link d_io dir name f =
     kbind (get_sv f) (\<lambda>sv.
     kthen (sfs_dir_link d_io dir name (sv_ino sv))
     (mod_sv f link_inc))"

definition sfs_remove :: "('d io, unit) prog \<Rightarrow> kmalloc_fn \<Rightarrow> nat \<Rightarrow> byte list \<Rightarrow> ('d sfs, unit) prog" where
  "sfs_remove d_io kmalloc dir name =
     kbind (sfs_lookonce d_io kmalloc dir name) (\<lambda>(victim, slot).
     kbind (kcatch (sfs_dir_unlink d_io dir slot)) (\<lambda>result.
     kthen (case result of Inl e \<Rightarrow> kret ()
            | Inr _ \<Rightarrow> kbind (get_sv victim) (\<lambda>sv. kthen (kassert (sfi_linkcount (sv_i sv) > 0)) (mod_sv victim link_dec)))
     (kthen (vnode_decref d_io victim)
     (case result of Inl e \<Rightarrow> kfail e | Inr _ \<Rightarrow> kret ()))))"

text \<open>From the label \<^verbatim>\<open>puke_harder\<close> on; the second decrement does not mark the inode, which is dirty already.\<close>

definition sfs_rename_undo :: "('d io, unit) prog \<Rightarrow> nat \<Rightarrow> nat \<Rightarrow> nat \<Rightarrow> ('d sfs, unit) prog" where
  "sfs_rename_undo d_io sv g1 slot2 =
     kbind (kcatch (sfs_dir_unlink d_io sv slot2)) (\<lambda>result2.
     case result2 of Inl e \<Rightarrow> kpanic ''sfs: rename: Cannot recover''
     | Inr _ \<Rightarrow> mod_sv g1 (\<lambda>g1. (link_dec g1)\<lparr>sv_dirty := sv_dirty g1\<rparr>))"

definition sfs_rename :: "('d io, unit) prog \<Rightarrow> kmalloc_fn \<Rightarrow> nat \<Rightarrow> byte list \<Rightarrow> nat \<Rightarrow> byte list \<Rightarrow> ('d sfs, unit) prog" where
  "sfs_rename d_io kmalloc d1 n1 d2 n2 =
     kthen (kassert (d1 = d2))
     (kbind (get_sv d1) (\<lambda>sv.
     kthen (kassert (sv_ino sv = SFS_ROOT_LOCATION))
     (kbind (sfs_lookonce d_io kmalloc d1 n1) (\<lambda>(g1, slot1).
     kbind (get_sv g1) (\<lambda>g.
     kthen (kassert (sfi_type (sv_i g) = SFS_TYPE_FILE))
     (kbind (kcatch
       (kbind (sfs_dir_link d_io d1 n2 (sv_ino g)) (\<lambda>slot2.
        kthen (mod_sv g1 link_inc)
        (kbind (kcatch (sfs_dir_unlink d_io d1 slot1)) (\<lambda>result.
         case result of
           Inl e \<Rightarrow> kthen (sfs_rename_undo d_io d1 g1 slot2) (kfail e)
         | Inr _ \<Rightarrow> kbind (get_sv g1) (\<lambda>g. kthen (kassert (sfi_linkcount (sv_i g) > 0)) (mod_sv g1 link_dec))))))) (\<lambda>result.
      kthen (vnode_decref d_io g1)
      (case result of Inl e \<Rightarrow> kfail e | Inr _ \<Rightarrow> kret ()))))))))"

text \<open>The last component and the vnode of its directory; the name is copied to the caller's buffer.\<close>

definition sfs_lookparent :: "nat \<Rightarrow> byte list \<Rightarrow> nat \<Rightarrow> ('d sfs, nat \<times> byte list) prog" where
  "sfs_lookparent v path buflen =
     kbind (get_sv v) (\<lambda>sv.
     if sfi_type (sv_i sv) \<noteq> SFS_TYPE_DIR then kfail ENOTDIR
     else if length path + 1 > buflen then kfail ENAMETOOLONG
     else kthen (vnode_incref v) (kret (v, path)))"

definition sfs_lookup :: "('d io, unit) prog \<Rightarrow> kmalloc_fn \<Rightarrow> nat \<Rightarrow> byte list \<Rightarrow> ('d sfs, nat) prog" where
  "sfs_lookup d_io kmalloc v path =
     kbind (get_sv v) (\<lambda>sv.
     if sfi_type (sv_i sv) \<noteq> SFS_TYPE_DIR then kfail ENOTDIR
     else kbind (sfs_lookonce d_io kmalloc v path) (\<lambda>(final, slot). kret final))"

subsection \<open>The operations tables\<close>

definition sfs_notdir :: "('d sfs, 'a) prog" where "sfs_notdir = kfail ENOTDIR"
definition sfs_isdir :: "('d sfs, 'a) prog" where "sfs_isdir = kfail EISDIR"
definition sfs_unimp :: "('d sfs, 'a) prog" where "sfs_unimp = kfail EUNIMP"

record 'd vnode_ops =
  vop_open :: "nat \<Rightarrow> u32 \<Rightarrow> ('d sfs, unit) prog"
  vop_close :: "nat \<Rightarrow> ('d sfs, unit) prog"
  vop_reclaim :: "nat \<Rightarrow> ('d sfs, unit) prog"
  vop_read :: "nat \<Rightarrow> ('d sfs, unit) prog"
  vop_readlink :: "nat \<Rightarrow> ('d sfs, unit) prog"
  vop_getdirentry :: "nat \<Rightarrow> ('d sfs, unit) prog"
  vop_write :: "nat \<Rightarrow> ('d sfs, unit) prog"
  vop_ioctl :: "nat \<Rightarrow> int \<Rightarrow> nat \<Rightarrow> ('d sfs, unit) prog"
  vop_stat :: "nat \<Rightarrow> ('d sfs, stat) prog"
  vop_gettype :: "nat \<Rightarrow> ('d sfs, nat) prog"
  vop_tryseek :: "nat \<Rightarrow> int \<Rightarrow> ('d sfs, unit) prog"
  vop_fsync :: "nat \<Rightarrow> ('d sfs, unit) prog"
  vop_mmap :: "nat \<Rightarrow> ('d sfs, unit) prog"
  vop_truncate :: "nat \<Rightarrow> int \<Rightarrow> ('d sfs, unit) prog"
  vop_namefile :: "nat \<Rightarrow> ('d sfs, unit) prog"
  vop_creat :: "nat \<Rightarrow> byte list \<Rightarrow> bool \<Rightarrow> ('d sfs, nat) prog"
  vop_symlink :: "nat \<Rightarrow> byte list \<Rightarrow> byte list \<Rightarrow> ('d sfs, unit) prog"
  vop_mkdir :: "nat \<Rightarrow> byte list \<Rightarrow> ('d sfs, unit) prog"
  vop_link :: "nat \<Rightarrow> byte list \<Rightarrow> nat \<Rightarrow> ('d sfs, unit) prog"
  vop_remove :: "nat \<Rightarrow> byte list \<Rightarrow> ('d sfs, unit) prog"
  vop_rmdir :: "nat \<Rightarrow> byte list \<Rightarrow> ('d sfs, unit) prog"
  vop_rename :: "nat \<Rightarrow> byte list \<Rightarrow> nat \<Rightarrow> byte list \<Rightarrow> ('d sfs, unit) prog"
  vop_lookup :: "nat \<Rightarrow> byte list \<Rightarrow> ('d sfs, nat) prog"
  vop_lookparent :: "nat \<Rightarrow> byte list \<Rightarrow> nat \<Rightarrow> ('d sfs, nat \<times> byte list) prog"

definition sfs_fileops :: "('d io, unit) prog \<Rightarrow> kmalloc_fn \<Rightarrow> 'd vnode_ops" where
  "sfs_fileops d_io kmalloc =
     \<lparr>vop_open = \<lambda>v. sfs_open, vop_close = sfs_close d_io, vop_reclaim = sfs_reclaim d_io,
      vop_read = sfs_read d_io, vop_readlink = \<lambda>_. sfs_notdir, vop_getdirentry = \<lambda>_. sfs_notdir,
      vop_write = sfs_write d_io, vop_ioctl = sfs_ioctl, vop_stat = sfs_stat, vop_gettype = sfs_gettype,
      vop_tryseek = sfs_tryseek, vop_fsync = sfs_fsync d_io, vop_mmap = sfs_mmap, vop_truncate = sfs_truncate d_io,
      vop_namefile = \<lambda>_. sfs_notdir, vop_creat = \<lambda>_ _ _. sfs_notdir, vop_symlink = \<lambda>_ _ _. sfs_notdir,
      vop_mkdir = \<lambda>_ _. sfs_notdir, vop_link = \<lambda>_ _ _. sfs_notdir, vop_remove = \<lambda>_ _. sfs_notdir,
      vop_rmdir = \<lambda>_ _. sfs_notdir, vop_rename = \<lambda>_ _ _ _. sfs_notdir,
      vop_lookup = \<lambda>_ _. sfs_notdir, vop_lookparent = \<lambda>_ _ _. sfs_notdir\<rparr>"

definition sfs_dirops :: "('d io, unit) prog \<Rightarrow> kmalloc_fn \<Rightarrow> 'd vnode_ops" where
  "sfs_dirops d_io kmalloc =
     \<lparr>vop_open = \<lambda>v. sfs_opendir, vop_close = sfs_close d_io, vop_reclaim = sfs_reclaim d_io,
      vop_read = \<lambda>_. sfs_isdir, vop_readlink = \<lambda>_. sfs_isdir, vop_getdirentry = \<lambda>_. sfs_unimp,
      vop_write = \<lambda>_. sfs_isdir, vop_ioctl = sfs_ioctl, vop_stat = sfs_stat, vop_gettype = sfs_gettype,
      vop_tryseek = \<lambda>_ _. sfs_unimp, vop_fsync = sfs_fsync d_io, vop_mmap = \<lambda>_. sfs_isdir,
      vop_truncate = \<lambda>_ _. sfs_isdir, vop_namefile = sfs_namefile,
      vop_creat = sfs_creat d_io kmalloc, vop_symlink = \<lambda>_ _ _. sfs_unimp, vop_mkdir = \<lambda>_ _. sfs_unimp,
      vop_link = sfs_link d_io, vop_remove = sfs_remove d_io kmalloc, vop_rmdir = \<lambda>_ _. sfs_unimp,
      vop_rename = sfs_rename d_io kmalloc, vop_lookup = sfs_lookup d_io kmalloc, vop_lookparent = sfs_lookparent\<rparr>"

end
