(* ===== verification/SfsTruncate.thy ===== *)
theory SfsTruncate
  imports SfsVnode
begin

text \<open>
  What \<^verbatim>\<open>sfs_truncate\<close> does: which blocks it keeps and which it gives back. The two loops are shown to cut off the
  block lists, the direct one at the new length in blocks and the indirect one a block later.
\<close>

definition cut :: "nat \<Rightarrow> nat list \<Rightarrow> nat list" where
  "cut k xs = take k xs @ replicate (length xs - k) 0"

lemma cut_length [simp]: "length (cut k xs) = length xs"
  by (auto simp: cut_def)

lemma cut_nth: "j < length xs \<Longrightarrow> cut k xs ! j = (if j < k then xs ! j else 0)"
  by (auto simp: cut_def nth_append)

lemma cut_filter: "filter ((<) 0) (cut k xs) = filter ((<) 0) (take k xs)"
  by (simp add: cut_def)

lemma cut_Cons: "cut 0 (x # xs) = 0 # cut 0 xs" "cut (Suc k) (x # xs) = x # cut k xs"
  by (simp_all add: cut_def)

text \<open>The blocks in \<open>X\<close> are given back; apart from the vnodes nothing else happens to the file system.\<close>

definition freed :: "nat set \<Rightarrow> 'd sfs \<Rightarrow> 'd sfs \<Rightarrow> bool" where
  "freed X s t \<longleftrightarrow> used_of t = used_of s - X \<and> bm_ok (s_freemap t) \<and> s_io t = s_io s \<and> sfs_frame s t"

lemma freed_refl: "bm_ok (s_freemap s) \<Longrightarrow> freed {} s s"
  by (simp add: freed_def sfs_frame_def)

lemma freed_trans: "freed X s t \<Longrightarrow> freed Y t u \<Longrightarrow> freed (X \<union> Y) s u"
  by (auto simp: freed_def sfs_frame_def)

lemma bfree_run:
  assumes "bm_ok (s_freemap s)" and "b \<in> used_of s"
  shows "\<exists>t. sfs_bfree b s = Done () t \<and> freed {b} s t \<and> s_heap t = s_heap s"
proof -
  from bitmap_unmark_correct [OF assms(1), of b] assms obtain fm
    where "bitmap_unmark b (s_freemap s) = Done () fm" "bm_ok fm" "bm_nbits fm = bm_nbits (s_freemap s)" "bm_set fm = used_of s - {b}"
    by (auto simp: bm_set_def)
  then show ?thesis by (simp add: sfs_bfree_def kprog freed_def sfs_frame_def)
qed

text \<open>The loop over the direct blocks.\<close>

lemma set_drop_nth: "x \<in> set (drop bl xs) \<longleftrightarrow> (\<exists>j. bl \<le> j \<and> j < length xs \<and> x = xs ! j)"
proof
  assume "x \<in> set (drop bl xs)"
  then obtain k where "k < length xs - bl" "x = xs ! (bl + k)" by (auto simp: in_set_conv_nth)
  then show "\<exists>j. bl \<le> j \<and> j < length xs \<and> x = xs ! j" by (intro exI [of _ "bl + k"]) auto
next
  assume "\<exists>j. bl \<le> j \<and> j < length xs \<and> x = xs ! j"
  then obtain j where "bl \<le> j" "j < length xs" "x = xs ! j" by blast
  then show "x \<in> set (drop bl xs)" using nth_mem [of "j - bl" "drop bl xs"] by simp
qed

lemma drop_update_zero:
  fixes d :: "nat list"
  assumes "i < length d" and "bl \<le> i" and "d ! i \<noteq> 0" and dist: "distinct (filter (\<lambda>b. b \<noteq> 0) d)"
  shows "set (drop bl (d[i := 0])) - {0} = set (drop bl d) - {0} - {d ! i}"
    and "distinct (filter (\<lambda>b. b \<noteq> 0) (d[i := 0]))"
proof -
  have once: "d ! j \<noteq> d ! i" if "j < length d" "j \<noteq> i" for j
    using distinct_filter_nth [OF dist, of j i] that assms by auto
  show "set (drop bl (d[i := 0])) - {0} = set (drop bl d) - {0} - {d ! i}"
  proof -
    have "x \<in> set (drop bl (d[i := 0])) \<and> x \<noteq> 0 \<longleftrightarrow> x \<in> set (drop bl d) \<and> x \<noteq> 0 \<and> x \<noteq> d ! i" for x
      unfolding set_drop_nth length_list_update using once assms(1) by (metis nth_list_update_eq nth_list_update_neq)
    then show ?thesis by blast
  qed
  have "filter (\<lambda>b. b \<noteq> 0) (d[i := 0]) = filter (\<lambda>b. b \<noteq> 0) (take i d) @ filter (\<lambda>b. b \<noteq> 0) (drop (Suc i) d)"
    using assms(1) by (simp add: upd_conv_take_nth_drop)
  moreover have "filter (\<lambda>b. b \<noteq> 0) d = filter (\<lambda>b. b \<noteq> 0) (take i d) @ d ! i # filter (\<lambda>b. b \<noteq> 0) (drop (Suc i) d)"
    using arg_cong [OF id_take_nth_drop [OF assms(1)], of "filter (\<lambda>b. b \<noteq> 0)"] assms(3) by simp
  ultimately show "distinct (filter (\<lambda>b. b \<noteq> 0) (d[i := 0]))" using dist by simp
qed

lemma trunc_direct_run:
  assumes "bm_ok (s_freemap s)" and "s_heap s p = Some sv" and "d = sfi_direct (sv_i sv)" and "i + n = length d"
    and "set (drop bl d) - {0} \<subseteq> used_of s" and "distinct (filter (\<lambda>b. b \<noteq> 0) d)" and "\<And>j. bl \<le> j \<Longrightarrow> j < i \<Longrightarrow> d ! j = 0"
  shows "\<exists>t dirty. sfs_trunc_direct p bl i n s = Done () t \<and> freed (set (drop bl d) - {0}) s t \<and>
    s_heap t = (s_heap s)(p \<mapsto> sv\<lparr>sv_i := (sv_i sv)\<lparr>sfi_direct := cut bl d\<rparr>, sv_dirty := dirty\<rparr>)"
  using assms
proof (induction n arbitrary: i s sv d)
  case 0
  have "cut bl d = d"
  proof (rule nth_equalityI)
    fix j assume "j < length (cut bl d)"
    then show "cut bl d ! j = d ! j" using "0.prems"(4,7) by (simp add: cut_nth)
  qed simp
  moreover have none: "set (drop bl d) - {0} = {}" using "0.prems"(4,7) by (auto simp: in_set_conv_nth)
  have "freed (set (drop bl d) - {0}) s s" unfolding none by (rule freed_refl [OF "0.prems"(1)])
  ultimately show ?case
    using "0.prems"(2,3) by (auto simp: kprog fun_upd_idem intro!: exI [of _ "sv_dirty sv"])
next
  case (Suc n)
  have i: "i < length d" using Suc.prems(4) by simp
  show ?case
  proof (cases "bl \<le> i \<and> d ! i \<noteq> 0")
    case False
    then have "\<And>j. bl \<le> j \<Longrightarrow> j < Suc i \<Longrightarrow> d ! j = 0" using Suc.prems(7) by (auto simp: less_Suc_eq)
    then have IH: "\<exists>t dirty. sfs_trunc_direct p bl (Suc i) n s = Done () t \<and> freed (set (drop bl d) - {0}) s t \<and>
        s_heap t = (s_heap s)(p \<mapsto> sv\<lparr>sv_i := (sv_i sv)\<lparr>sfi_direct := cut bl d\<rparr>, sv_dirty := dirty\<rparr>)"
      using Suc.IH [OF Suc.prems(1-3) _ Suc.prems(5,6), of "Suc i"] Suc.prems(4) by (simp add: fun_upd_def)
    have "sfs_trunc_direct p bl i (Suc n) s = sfs_trunc_direct p bl (Suc i) n s"
      using Suc.prems(2,3) i False by (auto simp: kprog)
    with IH show ?thesis by (simp add: fun_upd_def)
  next
    case True
    let ?b = "d ! i" and ?d = "d[i := 0]"
    let ?sv = "sv\<lparr>sv_i := (sv_i sv)\<lparr>sfi_direct := ?d\<rparr>, sv_dirty := True\<rparr>"
    have mem: "?b \<in> set (drop bl d)" using True i by (auto simp: set_drop_nth)
    have "?b \<in> used_of s" by (rule subsetD [OF Suc.prems(5)]) (use mem True in simp)
    then obtain s1 where s1: "sfs_bfree ?b s = Done () s1" "freed {?b} s s1" "s_heap s1 = s_heap s"
      using bfree_run [OF Suc.prems(1)] by blast
    let ?s = "s1\<lparr>s_heap := (s_heap s1)(p \<mapsto> ?sv)\<rparr>"
    note z = drop_update_zero [OF i _ _ Suc.prems(6), of bl]
    have keep: "cut bl ?d = cut bl d" using True by (simp add: cut_def)
    have pre: "bm_ok (s_freemap ?s)" "s_heap ?s p = Some ?sv" "?d = sfi_direct (sv_i ?sv)" "Suc i + n = length ?d"
      using s1(2) Suc.prems(4) by (simp_all add: freed_def)
    have sub: "set (drop bl ?d) - {0} \<subseteq> used_of ?s" using z(1) True s1(2) Suc.prems(5) by (auto simp: freed_def)
    have zero: "?d ! j = 0" if "bl \<le> j" "j < Suc i" for j
      using that Suc.prems(7) [of j] i by (cases "j = i") simp_all
    have dist: "distinct (filter (\<lambda>b. b \<noteq> 0) ?d)" using z(2) True by blast
    obtain t dirty where t: "sfs_trunc_direct p bl (Suc i) n ?s = Done () t" "freed (set (drop bl ?d) - {0}) ?s t"
        "s_heap t = (s_heap ?s)(p \<mapsto> ?sv\<lparr>sv_i := (sv_i ?sv)\<lparr>sfi_direct := cut bl d\<rparr>, sv_dirty := dirty\<rparr>)"
      using Suc.IH [OF pre sub dist zero] unfolding keep by blast
    have "freed (set (drop bl d) - {0}) s t"
    proof -
      have "freed (set (drop bl ?d) - {0}) s1 t" using t(2) by (simp add: freed_def sfs_frame_def)
      from freed_trans [OF s1(2) this] have "freed ({?b} \<union> (set (drop bl d) - {0} - {?b})) s t" using z(1) True by simp
      moreover have "{?b} \<union> (set (drop bl d) - {0} - {?b}) = set (drop bl d) - {0}" using mem True by auto
      ultimately show ?thesis by simp
    qed
    moreover have "sfs_trunc_direct p bl i (Suc n) s = Done () t"
      using s1 t(1) Suc.prems(2,3) i True by (simp add: kprog)
    moreover have "s_heap t = (s_heap s)(p \<mapsto> sv\<lparr>sv_i := (sv_i sv)\<lparr>sfi_direct := cut bl d\<rparr>, sv_dirty := dirty\<rparr>)"
      unfolding t(3) by (simp add: s1(3))
    ultimately show ?thesis by blast
  qed
qed

text \<open>The loop over the indirect block.\<close>

lemma trunc_idbuf_run:
  assumes "bm_ok (s_freemap s)" and "set (drop (Suc bl - k) bs) - {0} \<subseteq> used_of s" and "distinct (filter (\<lambda>b. b \<noteq> 0) bs)"
  shows "\<exists>t. sfs_trunc_idbuf bl k bs s =
      Done (cut (Suc bl - k) bs, \<exists>b \<in> set (cut (Suc bl - k) bs). b \<noteq> 0, set (drop (Suc bl - k) bs) - {0} \<noteq> {}) t \<and>
    freed (set (drop (Suc bl - k) bs) - {0}) s t \<and> s_heap t = s_heap s"
  using assms
proof (induction bs arbitrary: k s)
  case Nil
  then show ?case using freed_refl by (simp add: kprog cut_def)
next
  case (Cons b bs)
  have dist: "distinct (filter (\<lambda>b. b \<noteq> 0) bs)" using Cons.prems(3) by (simp split: if_splits)
  show ?case
  proof (cases "bl < k \<and> b \<noteq> 0")
    case True
    then have c: "Suc bl - k = 0" "Suc bl - Suc k = 0" by simp_all
    have "b \<in> used_of s" by (rule subsetD [OF Cons.prems(2)]) (use True c in simp)
    then obtain u where u: "sfs_bfree b s = Done () u" "freed {b} s u" "s_heap u = s_heap s"
      using bfree_run [OF Cons.prems(1)] by blast
    have nb: "b \<notin> set bs" using Cons.prems(3) True by auto
    have "bm_ok (s_freemap u)" "set bs - {0} \<subseteq> used_of u"
      using u(2) Cons.prems(2) c(1) nb by (auto simp: freed_def)
    then obtain t where t: "sfs_trunc_idbuf bl (Suc k) bs u =
        Done (cut 0 bs, \<exists>b \<in> set (cut 0 bs). b \<noteq> 0, set bs - {0} \<noteq> {}) t" "freed (set bs - {0}) u t" "s_heap t = s_heap u"
      using Cons.IH [of u "Suc k"] dist c by auto
    have "freed (set (b # bs) - {0}) s t" using freed_trans [OF u(2) t(2)] True by (simp add: insert_Diff_if)
    with t u True c show ?thesis by (auto simp: kprog cut_Cons)
  next
    case False
    have d: "set (drop (Suc bl - k) (b # bs)) - {0} = set (drop (Suc bl - Suc k) bs) - {0}"
      and c: "cut (Suc bl - k) (b # bs) = b # cut (Suc bl - Suc k) bs"
      using False by (cases "bl < k"; simp add: cut_Cons Suc_diff_le)+
    obtain t where t: "sfs_trunc_idbuf bl (Suc k) bs s =
        Done (cut (Suc bl - Suc k) bs, \<exists>b \<in> set (cut (Suc bl - Suc k) bs). b \<noteq> 0, set (drop (Suc bl - Suc k) bs) - {0} \<noteq> {}) t"
        "freed (set (drop (Suc bl - Suc k) bs) - {0}) s t" "s_heap t = s_heap s"
      using Cons.IH [of s "Suc k"] Cons.prems(1,2) dist d by auto
    show ?thesis unfolding d c using t False by (auto simp: kprog)
  qed
qed

text \<open>
  The inode and the blocks after a truncation to \<open>bl\<close> blocks: the lists are cut, and the indirect block
  may have been given up when all its entries were.
\<close>

definition trunc_inode :: "nat \<Rightarrow> nat \<Rightarrow> nat \<Rightarrow> sfs_inode \<Rightarrow> sfs_inode" where
  "trunc_inode bl len ind i = i\<lparr>sfi_direct := cut bl (sfi_direct i), sfi_indirect := ind, sfi_size := len\<rparr>"

definition trunc_free :: "(nat \<Rightarrow> byte list) \<Rightarrow> nat \<Rightarrow> nat \<Rightarrow> sfs_inode \<Rightarrow> nat set" where
  "trunc_free secs bl ind i = set (drop bl (sfi_direct i)) \<union>
     (if sfi_indirect i = 0 then {} else set (drop (Suc bl - SFS_NDIRECT) (idbuf_of (secs (sfi_indirect i)))) \<union> {sfi_indirect i} - {ind}) - {0}"

definition trunc_secs :: "nat \<Rightarrow> sfs_inode \<Rightarrow> nat \<Rightarrow> (nat \<Rightarrow> byte list) \<Rightarrow> (nat \<Rightarrow> byte list) \<Rightarrow> bool" where
  "trunc_secs bl i ind secs secs' \<longleftrightarrow> (\<forall>b. b \<noteq> sfi_indirect i \<longrightarrow> secs' b = secs b) \<and>
     (if ind = 0
      then secs' = secs \<and> (sfi_indirect i \<noteq> 0 \<longrightarrow> (\<forall>b \<in> set (cut (Suc bl - SFS_NDIRECT) (idbuf_of (secs (sfi_indirect i)))). b = 0))
      else ind = sfi_indirect i \<and> idbuf_of (secs' ind) = cut (Suc bl - SFS_NDIRECT) (idbuf_of (secs ind)))"

lemma cut_all: "length xs \<le> k \<Longrightarrow> cut k xs = xs"
  by (simp add: cut_def)

lemma cut_same: "set (drop k xs) - {0} = {} \<Longrightarrow> cut k xs = xs"
  by (rule nth_equalityI) (force simp: cut_nth set_drop_nth set_eq_iff)+

lemma sfs_ok_freed:
  assumes "sfs_ok d_blocks ready s" "freed X s t" "0 \<notin> X" "X \<subseteq> {..<nblocks_of s}"
  shows "sfs_ok d_blocks ready t"
  using assms by (auto simp: sfs_ok_def freed_def sfs_frame_def)

context block_device begin

lemma trunc_indirect_run:
  assumes ok: "sfs_ok d_blocks ready s" and sv: "s_heap s p = Some sv" and i: "i = sv_i sv" "sfi_indirect i \<noteq> 0"
    and used: "sfi_indirect i \<in> used_of s" "sfi_indirect i < nblocks_of s" 
    and bs: "bs = idbuf_of (sectors (dev_of s) (sfi_indirect i))" "c = Suc bl - SFS_NDIRECT"
    and sub: "set (drop c bs) - {0} \<subseteq> used_of s \<inter> {..<nblocks_of s}" and dist: "distinct (filter (\<lambda>b. b \<noteq> 0) (sfi_indirect i # bs))"
  shows "\<exists>t ind dirty. sfs_trunc_indirect d_io p bl s = Done () t \<and> sfs_ok d_blocks ready t \<and>
    s_heap t = (s_heap s)(p \<mapsto> sv\<lparr>sv_i := i\<lparr>sfi_indirect := ind\<rparr>, sv_dirty := dirty\<rparr>) \<and> sfs_frame s t \<and>
    used_of t = used_of s - (set (drop c bs) \<union> {sfi_indirect i} - {ind} - {0}) \<and>
    uio_of t = uio_of s \<and> io_user (s_io t) = io_user (s_io s) \<and> trunc_secs bl i ind (sectors (dev_of s)) (sectors (dev_of t))"
proof (cases "bl < 142")
  case False
  then have "length bs \<le> c" using bs by simp
  then have "trunc_secs bl i (sfi_indirect i) (sectors (dev_of s)) (sectors (dev_of s))" "drop c bs = []"
    using i(2) bs by (simp_all add: trunc_secs_def cut_all)
  moreover have "sfs_trunc_indirect d_io p bl s = Done () s"
    using False sv by (simp add: sfs_trunc_indirect_def kprog Let_def)
  moreover have "s_heap s = (s_heap s)(p \<mapsto> sv\<lparr>sv_i := i\<lparr>sfi_indirect := sfi_indirect i\<rparr>, sv_dirty := sv_dirty sv\<rparr>)"
    using sv i(1) by (simp add: fun_upd_idem)
  ultimately show ?thesis
    using ok by (intro exI [of _ s] exI [of _ "sfi_indirect i"] exI [of _ "sv_dirty sv"]) (simp add: sfs_frame_def)
next
  case True
  let ?ind = "sfi_indirect i" and ?F = "set (drop c bs) - {0}" and ?S = "sectors (dev_of s)"
  have dv: "ready (dev_of s)" "?ind < d_blocks (dev_of s)" using ok used by (simp_all add: sfs_ok_def)
  obtain d where d: "sfs_rblock d_io ?ind (s_io s) = Done (?S ?ind) ((s_io s)\<lparr>io_dev := d\<rparr>)"
      "ready d" "d_blocks d = d_blocks (dev_of s)" "sectors d = ?S"
    using rblock [OF dv] by blast
  let ?s = "s\<lparr>s_io := (s_io s)\<lparr>io_dev := d\<rparr>\<rparr>"
  have "bm_ok (s_freemap ?s)" "set (drop (Suc bl - SFS_NDIRECT) bs) - {0} \<subseteq> used_of ?s" "distinct (filter (\<lambda>b. b \<noteq> 0) bs)"
    using ok sub dist bs(2) by (auto simp: sfs_ok_def split: if_splits)
  note loop = trunc_idbuf_run [OF this]
  define nz dd where "nz \<longleftrightarrow> (\<exists>b \<in> set (cut c bs). b \<noteq> 0)" and "dd \<longleftrightarrow> ?F \<noteq> {}"
  obtain u where u: "sfs_trunc_idbuf bl SFS_NDIRECT bs ?s = Done (cut c bs, nz, dd) u" "freed ?F ?s u" "s_heap u = s_heap s"
    using loop unfolding bs(2) [symmetric] nz_def dd_def by auto
  have notin: "?ind \<notin> set bs" using dist i(2) by auto
  then have notF: "?ind \<notin> ?F" using in_set_dropD [of ?ind c bs] by auto
  have "sfs_ok d_blocks ready ?s" using ok d(2,3) by (simp add: sfs_ok_def)
  then have uok: "sfs_ok d_blocks ready u" using sub by (intro sfs_ok_freed [OF _ u(2)]) auto
  have ud: "s_io u = (s_io s)\<lparr>io_dev := d\<rparr>" "used_of u = used_of s - ?F" "sfs_frame s u" "?ind \<in> used_of u"
    using u(2) used(1) notF by (simp_all add: freed_def sfs_frame_def)
  have run: "sfs_trunc_indirect d_io p bl s =
     (if \<not> nz
      then kthen (sfs_bfree ?ind) (mod_sv p (\<lambda>sv. sv\<lparr>sv_i := (sv_i sv)\<lparr>sfi_indirect := 0\<rparr>, sv_dirty := True\<rparr>))
      else if dd then on_io (sfs_wblock d_io (be_words (cut c bs)) ?ind) else kret ()) u"
    using True sv i bs u(1) d(1) by (simp add: sfs_trunc_indirect_def kprog Let_def)
  have clen: "length (cut c bs) = SFS_DBPERIDB" "\<forall>n \<in> set (cut c bs). n < 2 ^ 32"
    using idbuf_of_less [of "?S ?ind"] sector_length [OF dv] by (auto simp: bs(1) cut_def dest: in_set_takeD)
  have keep: "s_heap s = (s_heap s)(p \<mapsto> sv\<lparr>sv_i := i\<lparr>sfi_indirect := ?ind\<rparr>, sv_dirty := sv_dirty sv\<rparr>)"
    using sv i(1) by (simp add: fun_upd_idem)
  consider (gone) "\<not> nz" | (rewritten) "nz" "dd" | (same) "nz" "\<not> dd" by blast
  then show ?thesis
  proof cases
    case gone
    obtain t where t: "sfs_bfree ?ind u = Done () t" "freed {?ind} u t" "s_heap t = s_heap u"
      using bfree_run [OF _ ud(4)] uok by (auto simp: sfs_ok_def)
    let ?t = "t\<lparr>s_heap := (s_heap t)(p \<mapsto> sv\<lparr>sv_i := i\<lparr>sfi_indirect := 0\<rparr>, sv_dirty := True\<rparr>)\<rparr>"
    have "sfs_ok d_blocks ready t" using used i(2) ud(3) by (intro sfs_ok_freed [OF uok t(2)]) (auto simp: sfs_frame_def)
    moreover have "sfs_trunc_indirect d_io p bl s = Done () ?t" using run gone t u(3) sv i(1) by (simp add: kprog)
    moreover have "used_of ?t = used_of s - (set (drop c bs) \<union> {?ind} - {0} - {0})"
      using t(2) ud(2) i(2) by (auto simp: freed_def)
    moreover have "trunc_secs bl i 0 ?S (sectors (dev_of ?t))"
      using gone t(2) ud(1) d(4) bs by (simp add: trunc_secs_def freed_def nz_def)
    ultimately show ?thesis
      using t(2,3) ud u(3) by (intro exI [of _ ?t] exI [of _ 0] exI [of _ True]) (simp add: freed_def sfs_frame_def)
  next
    case rewritten
    have "length (be_words (cut c bs)) = SFS_BLOCKSIZE" using clen(1) by (simp add: be_words_length)
    with wblock [of "s_io u" ?ind "be_words (cut c bs)"] dv(2) d(2,3) ud(1)
    obtain e where e: "sfs_wblock d_io (be_words (cut c bs)) ?ind (s_io u) = Done () ((s_io u)\<lparr>io_dev := e\<rparr>)"
        "ready e" "d_blocks e = d_blocks d" "sectors e = ?S(?ind := be_words (cut c bs))"
      using d(4) by auto
    let ?t = "u\<lparr>s_io := (s_io u)\<lparr>io_dev := e\<rparr>\<rparr>"
    have "trunc_secs bl i ?ind ?S (sectors (dev_of ?t))"
      using i(2) e(4) bs idbuf_of_be_words [OF clen] by (simp add: trunc_secs_def)
    moreover have "sfs_trunc_indirect d_io p bl s = Done () ?t" using run rewritten e(1) by (simp add: kprog)
    moreover have "used_of ?t = used_of s - (set (drop c bs) \<union> {?ind} - {?ind} - {0})" using ud(2) notF by auto
    moreover have "sfs_ok d_blocks ready ?t" using uok ud(1) e(2,3) by (simp add: sfs_ok_def)
    ultimately show ?thesis
      using ud u(3) keep by (intro exI [of _ ?t] exI [of _ ?ind] exI [of _ "sv_dirty sv"]) (simp add: sfs_frame_def)
  next
    case same
    then have "trunc_secs bl i ?ind ?S (sectors (dev_of u))"
      using i(2) ud(1) d(4) bs cut_same [of c bs] by (simp add: trunc_secs_def dd_def)
    moreover have "sfs_trunc_indirect d_io p bl s = Done () u" using run same by (simp add: kprog)
    moreover have "used_of u = used_of s - (set (drop c bs) \<union> {?ind} - {?ind} - {0})" using ud(2) notF by auto
    ultimately show ?thesis
      using ud u(3) uok keep by (intro exI [of _ u] exI [of _ ?ind] exI [of _ "sv_dirty sv"]) simp
  qed
qed

lemma truncate_run:
  assumes ok: "sfs_ok d_blocks ready s" and fok: "file_ok (sectors (dev_of s)) p s" and sv: "s_heap s p = Some sv" "i = sv_i sv"
    and len: "0 \<le> len" "len + 511 < 2 ^ 31" "bl = nat ((len + 511) div 512)"
  shows "\<exists>t ind. sfs_truncate d_io p len s = Done () t \<and> sfs_ok d_blocks ready t \<and>
    s_heap t = (s_heap s)(p \<mapsto> sv\<lparr>sv_i := trunc_inode bl (nat len) ind i, sv_dirty := True\<rparr>) \<and> sfs_frame s t \<and>
    used_of t = used_of s - trunc_free (sectors (dev_of s)) bl ind i \<and>
    uio_of t = uio_of s \<and> io_user (s_io t) = io_user (s_io s) \<and> trunc_secs bl i ind (sectors (dev_of s)) (sectors (dev_of t))"
proof -
  let ?S = "sectors (dev_of s)" and ?d = "sfi_direct i" and ?ind = "sfi_indirect i"
  let ?ib = "idbuf_of (?S ?ind)" and ?c = "Suc bl - SFS_NDIRECT"
  have iok: "inode_ok ?S (nblocks_of s) (used_of s) i" using fok sv by (simp add: file_ok_def)
  have fb: "fblocks ?S i = filter (\<lambda>b. b \<noteq> 0) (?d @ ?ind # (if ?ind = 0 then [] else ?ib))" by (simp add: fblocks_def)
  have dist: "distinct (filter (\<lambda>b. b \<noteq> 0) ?d)" "?ind \<noteq> 0 \<Longrightarrow> distinct (filter (\<lambda>b. b \<noteq> 0) (?ind # ?ib))"
    "?ind \<noteq> 0 \<Longrightarrow> set (filter (\<lambda>b. b \<noteq> 0) ?d) \<inter> set (filter (\<lambda>b. b \<noteq> 0) (?ind # ?ib)) = {}"
    using iok unfolding inode_ok_def fb by auto
  have own: "b < nblocks_of s \<and> b \<in> used_of s" if "b \<noteq> 0" "b \<in> set ?d \<or> ?ind \<noteq> 0 \<and> (b = ?ind \<or> b \<in> set ?ib)" for b
    using iok that unfolding inode_ok_def fb by auto
  let ?D = "set (drop bl ?d) - {0}"
  have D: "?D \<subseteq> used_of s \<inter> {..<nblocks_of s}" using own in_set_dropD [of _ bl ?d] by blast
  have w: "wrap32 (511 + len) = 511 + len" "nat (cdiv (511 + len) 512 mod 2 ^ 32) = bl"
    using len by (simp_all add: wrap32_id cdiv_def add.commute)
  obtain u dirty where u: "sfs_trunc_direct p bl 0 SFS_NDIRECT s = Done () u" "freed ?D s u"
      "s_heap u = (s_heap s)(p \<mapsto> sv\<lparr>sv_i := i\<lparr>sfi_direct := cut bl ?d\<rparr>, sv_dirty := dirty\<rparr>)"
    using trunc_direct_run [of s p sv ?d 0 SFS_NDIRECT bl] ok sv D dist(1) inode_ok_facts(1) [OF iok] by (auto simp: sfs_ok_def)
  have uok: "sfs_ok d_blocks ready u" using D by (intro sfs_ok_freed [OF ok u(2)]) auto
  have ud: "used_of u = used_of s - ?D" "s_io u = s_io s" "sfs_frame s u" using u(2) by (simp_all add: freed_def)
  let ?sv = "sv\<lparr>sv_i := i\<lparr>sfi_direct := cut bl ?d\<rparr>, sv_dirty := dirty\<rparr>"
  have fin: ?thesis if t: "sfs_trunc_indirect d_io p bl u = Done () t" "sfs_ok d_blocks ready t"
      "s_heap t = (s_heap u)(p \<mapsto> ?sv\<lparr>sv_i := (sv_i ?sv)\<lparr>sfi_indirect := ind\<rparr>, sv_dirty := dirty'\<rparr>)" "sfs_frame u t"
      "used_of t = used_of s - trunc_free ?S bl ind i"
      "uio_of t = uio_of u" "io_user (s_io t) = io_user (s_io u)" "trunc_secs bl i ind ?S (sectors (dev_of t))" for t ind dirty'
  proof -
    let ?t = "t\<lparr>s_heap := (s_heap t)(p \<mapsto> sv\<lparr>sv_i := trunc_inode bl (nat len) ind i, sv_dirty := True\<rparr>)\<rparr>"
    have "nat (len mod 2 ^ 32) = nat len" using len by simp
    then have "sfs_truncate d_io p len s = Done () ?t"
      using u t(1,3) w by (simp add: sfs_truncate_def Let_def kprog trunc_inode_def)
    then show ?thesis
      using t ud u(3) by (intro exI [of _ ?t] exI [of _ ind]) (simp add: sfs_frame_def)
  qed
  show ?thesis
  proof (cases "?ind = 0")
    case True
    have "sfs_trunc_indirect d_io p bl u = Done () u" using True u(3) by (simp add: sfs_trunc_indirect_def kprog Let_def)
    moreover have "s_heap u = (s_heap u)(p \<mapsto> ?sv\<lparr>sv_i := (sv_i ?sv)\<lparr>sfi_indirect := 0\<rparr>, sv_dirty := dirty\<rparr>)"
      using True by (cases i) (simp add: u(3))
    moreover have "used_of u = used_of s - trunc_free ?S bl 0 i" using True by (simp add: ud trunc_free_def)
    ultimately show ?thesis using True uok ud(2) by (intro fin [where t = u and ind = 0 and dirty' = dirty]) (simp_all add: sfs_frame_def trunc_secs_def)
  next
    case False
    let ?i = "i\<lparr>sfi_direct := cut bl ?d\<rparr>"
    have sub: "set (drop ?c ?ib) - {0} \<subseteq> set (filter (\<lambda>b. b \<noteq> 0) (?ind # ?ib))" using in_set_dropD [of _ ?c ?ib] by auto
    have "?D \<subseteq> set (filter (\<lambda>b. b \<noteq> 0) ?d)" using in_set_dropD [of _ bl ?d] by auto
    then have apart: "?D \<inter> set (filter (\<lambda>b. b \<noteq> 0) (?ind # ?ib)) = {}" using dist(3) [OF False] by blast
    have "set (filter (\<lambda>b. b \<noteq> 0) (?ind # ?ib)) \<subseteq> used_of s \<inter> {..<nblocks_of s}" using own False by auto
    then have inu: "set (filter (\<lambda>b. b \<noteq> 0) (?ind # ?ib)) \<subseteq> used_of u \<inter> {..<nblocks_of u}"
      using apart ud(1,3) by (auto simp: sfs_frame_def)
    moreover have "?ind \<in> set (filter (\<lambda>b. b \<noteq> 0) (?ind # ?ib))" using False by simp
    ultimately have "?ind \<in> used_of u" "?ind < nblocks_of u" by auto
    then obtain t ind dirty' where t: "sfs_trunc_indirect d_io p bl u = Done () t" "sfs_ok d_blocks ready t"
      "s_heap t = (s_heap u)(p \<mapsto> ?sv\<lparr>sv_i := ?i\<lparr>sfi_indirect := ind\<rparr>, sv_dirty := dirty'\<rparr>)" "sfs_frame u t"
      "used_of t = used_of u - (set (drop ?c ?ib) \<union> {?ind} - {ind} - {0})"
      "uio_of t = uio_of u" "io_user (s_io t) = io_user (s_io u)" "trunc_secs bl ?i ind ?S (sectors (dev_of t))"
      using trunc_indirect_run [OF uok, of p ?sv ?i ?ib ?c bl] u(3) False ud(2) dist(2) subset_trans [OF sub inu] by auto
    have "used_of t = used_of s - trunc_free ?S bl ind i" using t(5) ud(1) False by (auto simp: trunc_free_def)
    moreover have "trunc_secs bl i ind ?S (sectors (dev_of t))" using t(8) unfolding trunc_secs_def by (simp cong: if_cong)
    ultimately show ?thesis using t ud(2) by (intro fin [where t = t and ind = ind and dirty' = dirty']) simp_all
  qed
qed

end

subsection \<open>What is kept\<close>

text \<open>The blocks of the file that survive a truncation to \<open>bl\<close> blocks.\<close>

definition trunc_keeps :: "nat \<Rightarrow> nat \<Rightarrow> bool" where
  "trunc_keeps bl fb \<longleftrightarrow> (if fb < SFS_NDIRECT then fb < bl else fb \<le> bl)"

lemma distinct_filter_take: "distinct (filter P xs) \<Longrightarrow> distinct (filter P (take k xs))"
  by (metis append_take_drop_id distinct_append filter_append)

lemma filter_take_drop: "set (filter P (take k xs)) \<union> set (filter P (drop k xs)) = set (filter P xs)"
  "distinct (filter P xs) \<Longrightarrow> set (filter P (take k xs)) \<inter> set (filter P (drop k xs)) = {}"
proof -
  have "filter P xs = filter P (take k xs) @ filter P (drop k xs)" by (metis append_take_drop_id filter_append)
  then show "set (filter P (take k xs)) \<union> set (filter P (drop k xs)) = set (filter P xs)"
    "distinct (filter P xs) \<Longrightarrow> set (filter P (take k xs)) \<inter> set (filter P (drop k xs)) = {}" by auto
qed

lemma trunc_secs_ind: "trunc_secs bl i ind S S' \<Longrightarrow> ind = 0 \<and> S' = S \<or> ind = sfi_indirect i \<and> ind \<noteq> 0"
  by (auto simp: trunc_secs_def split: if_splits)

lemma trunc_secs_other: "trunc_secs bl i ind S S' \<Longrightarrow> b \<noteq> sfi_indirect i \<Longrightarrow> S' b = S b"
  by (simp add: trunc_secs_def)

lemma trunc_fmap:
  assumes len: "length (sfi_direct i) = SFS_NDIRECT" and secs: "trunc_secs bl i ind S S'"
  shows "fmap S' (trunc_inode bl n ind i) fb = (if trunc_keeps bl fb then fmap S i fb else 0)"
proof (cases "fb < SFS_NDIRECT")
  case True
  then show ?thesis using len by (simp add: fmap_def trunc_inode_def trunc_keeps_def cut_nth)
next
  case False
  let ?ib = "idbuf_of (S (sfi_indirect i))" and ?c = "Suc bl - SFS_NDIRECT"
  have entry: "cut ?c ?ib ! (fb - SFS_NDIRECT) = (if trunc_keeps bl fb then ?ib ! (fb - SFS_NDIRECT) else 0)"
    if "fb < SFS_NDIRECT + SFS_DBPERIDB"
    using that False by (auto simp: cut_nth trunc_keeps_def)
  show ?thesis
  proof (cases "ind = 0")
    case True
    have "?ib ! (fb - SFS_NDIRECT) = 0" if "fb < SFS_NDIRECT + SFS_DBPERIDB" "sfi_indirect i \<noteq> 0" "trunc_keeps bl fb"
    proof -
      have "cut ?c ?ib ! (fb - SFS_NDIRECT) \<in> set (cut ?c ?ib)" using that False by (intro nth_mem) simp
      moreover have "\<forall>b \<in> set (cut ?c ?ib). b = 0" using secs True that(2) by (simp add: trunc_secs_def)
      ultimately have "cut ?c ?ib ! (fb - SFS_NDIRECT) = 0" by blast
      with entry [OF that(1)] that(3) show ?thesis by simp
    qed
    then show ?thesis using True False by (auto simp: fmap_def trunc_inode_def)
  next
    case nz: False
    then have "ind = sfi_indirect i" "idbuf_of (S' ind) = cut ?c ?ib" using secs by (auto simp: trunc_secs_def)
    then show ?thesis using nz False entry by (auto simp: fmap_def trunc_inode_def)
  qed
qed

lemma partition_diff:
  "A \<inter> B = {} \<Longrightarrow> E \<inter> G = {} \<Longrightarrow> (A \<union> B) \<inter> (C \<union> (E \<union> G)) = {} \<Longrightarrow> C \<inter> (E \<union> G) = {} \<Longrightarrow> D \<subseteq> C \<Longrightarrow>
   B \<union> (C - D) \<union> G = (A \<union> B) \<union> (C \<union> (E \<union> G)) - (A \<union> (D \<union> E)) \<and> A \<union> (D \<union> E) \<subseteq> (A \<union> B) \<union> (C \<union> (E \<union> G)) \<and>
   A \<inter> (D \<union> E) = {} \<and> D \<inter> E = {}"
  by blast

lemma trunc_blocks:
  assumes iok: "inode_ok S nb U i" and secs: "trunc_secs bl i ind S S'" and i': "i' = trunc_inode bl len ind i"
  shows "set (fblocks S' i') \<subseteq> set (fblocks S i)" and "trunc_free S bl ind i = set (fblocks S i) - set (fblocks S' i')"
    and "distinct (fblocks S' i')"
proof -
  let ?f = "filter (\<lambda>b. b \<noteq> 0)" and ?d = "sfi_direct i" and ?I = "sfi_indirect i" and ?c = "Suc bl - SFS_NDIRECT"
  let ?ib = "if ?I = 0 then [] else idbuf_of (S ?I)"
  have old: "fblocks S i = ?f ?d @ ?f [?I] @ ?f ?ib" by (simp add: fblocks_def)
  have dist: "distinct (?f ?d)" "distinct (?f ?ib)" "distinct (?f ?d @ ?f [?I] @ ?f ?ib)"
    using iok unfolding inode_ok_def old by auto
  have new: "fblocks S' i' = ?f (take bl ?d) @ ?f [ind] @ ?f (take ?c ?ib)"
  proof (cases "ind = 0")
    case True
    then have "?f (take ?c ?ib) = []" using secs by (auto simp: trunc_secs_def cut_def filter_empty_conv)
    with True show ?thesis by (simp add: fblocks_def i' trunc_inode_def cut_filter)
  next
    case False
    then have "ind = ?I" "idbuf_of (S' ind) = cut ?c (idbuf_of (S ?I))" using secs by (auto simp: trunc_secs_def)
    with False show ?thesis by (simp add: fblocks_def i' trunc_inode_def cut_filter)
  qed
  note td = filter_take_drop [where P = "\<lambda>b. b \<noteq> 0" and k = bl and xs = ?d] filter_take_drop [where P = "\<lambda>b. b \<noteq> 0" and k = ?c and xs = ?ib]
  have ind: "set (?f [ind]) \<subseteq> set (?f [?I])" using trunc_secs_ind [OF secs] by auto
  have free: "trunc_free S bl ind i = set (?f (drop bl ?d)) \<union> (set (?f [?I]) - set (?f [ind])) \<union> set (?f (drop ?c ?ib))"
  proof -
    have "?I \<noteq> 0 \<Longrightarrow> ind \<notin> set (drop ?c (idbuf_of (S ?I))) \<or> ind = 0"
      using trunc_secs_ind [OF secs] dist(3) in_set_dropD [of ind ?c "idbuf_of (S ?I)"] by auto
    then show ?thesis using ind by (auto simp: trunc_free_def)
  qed
  let ?A = "set (?f (take bl ?d))" and ?B = "set (?f (drop bl ?d))" and ?E = "set (?f (take ?c ?ib))" and ?G = "set (?f (drop ?c ?ib))"
  have apart: "?A \<inter> ?B = {}" "?E \<inter> ?G = {}" "(?A \<union> ?B) \<inter> (set (?f [?I]) \<union> (?E \<union> ?G)) = {}" "set (?f [?I]) \<inter> (?E \<union> ?G) = {}"
    using td(2) [OF dist(1)] td(4) [OF dist(2)] dist(3) unfolding td(1,3) by (simp_all only: distinct_append set_append)
  note part = partition_diff [OF apart ind]
  show "trunc_free S bl ind i = set (fblocks S i) - set (fblocks S' i')" "set (fblocks S' i') \<subseteq> set (fblocks S i)"
    using part unfolding old new free set_append td(1,3) by simp_all
  have "distinct (?f [ind])" by simp
  then show "distinct (fblocks S' i')"
    unfolding new distinct_append set_append
    using part distinct_filter_take [OF dist(1), where k = bl] distinct_filter_take [OF dist(2), where k = ?c] by blast
qed

lemma trunc_inode_ok:
  assumes iok: "inode_ok S nb U i" and secs: "trunc_secs bl i ind S S'" and len: "len < 2 ^ 32"
  shows "inode_ok S' nb (U - trunc_free S bl ind i) (trunc_inode bl len ind i)"
proof -
  note b = trunc_blocks [OF iok secs refl, of len]
  have "inode_wf (trunc_inode bl len ind i)"
    using iok trunc_secs_ind [OF secs] len by (auto simp: inode_ok_def inode_wf_def trunc_inode_def cut_def dest: in_set_takeD)
  moreover have "\<forall>b \<in> set (fblocks S' (trunc_inode bl len ind i)). b < nb \<and> b \<in> U - trunc_free S bl ind i"
    using b(1) iok unfolding b(2) inode_ok_def by blast
  ultimately show ?thesis using b(3) by (simp add: inode_ok_def)
qed

lemma trunc_fdata:
  assumes iok: "inode_ok S nb U i" and secs: "trunc_secs bl i ind S S'" and "trunc_keeps bl fb"
  shows "fdata S' (trunc_inode bl len ind i) fb = fdata S i fb"
proof -
  have same: "fmap S' (trunc_inode bl len ind i) fb = fmap S i fb"
    using trunc_fmap [OF inode_ok_facts(1) [OF iok] secs] assms(3) by simp
  have "S' (fmap S i fb) = S (fmap S i fb)" if "fmap S i fb \<noteq> 0"
  proof -
    have "sfi_indirect i \<noteq> 0 \<Longrightarrow> fmap S i fb \<noteq> sfi_indirect i" using fmap_not_indirect [OF iok _ that] by simp
    with that have "fmap S i fb \<noteq> sfi_indirect i" by (cases "sfi_indirect i = 0") simp_all
    then show ?thesis by (rule trunc_secs_other [OF secs])
  qed
  with same show ?thesis by (simp add: fdata_def)
qed

text \<open>What a truncation of the file at \<open>p\<close> to \<open>len\<close> bytes does.\<close>

definition truncated :: "('d \<Rightarrow> nat) \<Rightarrow> ('d \<Rightarrow> nat \<Rightarrow> byte list) \<Rightarrow> ('d \<Rightarrow> bool) \<Rightarrow> nat \<Rightarrow> nat \<Rightarrow> 'd sfs \<Rightarrow> 'd sfs \<Rightarrow> bool" where
  "truncated d_blocks sectors ready p len s t \<longleftrightarrow>
     (let S = sectors (dev_of s); S' = sectors (dev_of t); i = inode_at p s; i' = inode_at p t in
      sfs_ok d_blocks ready t \<and> file_ok S' p t \<and> sfs_frame s t \<and> uio_of t = uio_of s \<and> (\<forall>q. q \<noteq> p \<longrightarrow> s_heap t q = s_heap s q) \<and>
      the (s_heap t p) = (the (s_heap s p))\<lparr>sv_i := i', sv_dirty := True\<rparr> \<and>
      sfi_type i' = sfi_type i \<and> sfi_linkcount i' = sfi_linkcount i \<and> sfi_size i' = len \<and>
      (\<forall>j < len. fcontent S' i' j = fcontent S i j) \<and>
      (\<forall>fb. fmap S' i' fb = (if trunc_keeps (divroundup len SFS_BLOCKSIZE) fb then fmap S i fb else 0)) \<and>
      set (fblocks S' i') \<subseteq> set (fblocks S i) \<and> used_of t = used_of s - (set (fblocks S i) - set (fblocks S' i')) \<and>
      (\<forall>b. b \<notin> set (fblocks S i) \<longrightarrow> S' b = S b))"

context block_device begin

lemma truncate_file:
  assumes ok: "sfs_ok d_blocks ready s" and fok: "file_ok (sectors (dev_of s)) p s" and len: "0 \<le> len" "len + 511 < 2 ^ 31"
  shows "\<exists>t. sfs_truncate d_io p len s = Done () t \<and> truncated d_blocks sectors ready p (nat len) s t"
proof -
  let ?S = "sectors (dev_of s)" and ?bl = "nat ((len + 511) div 512)"
  have bl: "?bl = divroundup (nat len) SFS_BLOCKSIZE"
    using len(1) by (simp add: divroundup_def nat_div_distrib nat_add_distrib)
  obtain sv where sv: "s_heap s p = Some sv" using fok by (auto simp: file_ok_def)
  obtain t ind where t: "sfs_truncate d_io p len s = Done () t" "sfs_ok d_blocks ready t"
      "s_heap t = (s_heap s)(p \<mapsto> sv\<lparr>sv_i := trunc_inode ?bl (nat len) ind (sv_i sv), sv_dirty := True\<rparr>)" "sfs_frame s t"
      "used_of t = used_of s - trunc_free ?S ?bl ind (sv_i sv)" "uio_of t = uio_of s" "trunc_secs ?bl (sv_i sv) ind ?S (sectors (dev_of t))"
    using truncate_run [OF ok fok sv refl len refl] by blast
  have iok: "inode_ok ?S (nblocks_of s) (used_of s) (sv_i sv)" using fok sv by (simp add: file_ok_def)
  have l: "nat len < 2 ^ 32" using len by simp
  let ?i = "trunc_inode ?bl (nat len) ind (sv_i sv)"
  note b = trunc_blocks [OF iok t(7) refl, of "nat len"]
  have "file_ok (sectors (dev_of t)) p t"
    using trunc_inode_ok [OF iok t(7) l] t(3,4,5) by (simp add: file_ok_def sfs_frame_def)
  moreover have "fcontent (sectors (dev_of t)) ?i j = fcontent ?S (sv_i sv) j" if "j < nat len" for j
  proof -
    have "j div SFS_BLOCKSIZE < ?bl" using that by linarith
    then have "trunc_keeps ?bl (j div SFS_BLOCKSIZE)" by (simp add: trunc_keeps_def)
    from trunc_fdata [OF iok t(7) this] show ?thesis by (simp add: fcontent_def)
  qed
  moreover have "sectors (dev_of t) c = ?S c" if "c \<notin> set (fblocks ?S (sv_i sv))" for c
  proof (cases "ind = 0")
    case True
    then show ?thesis using trunc_secs_ind [OF t(7)] by simp
  next
    case False
    then have "c \<noteq> sfi_indirect (sv_i sv)"
      using that trunc_secs_ind [OF t(7)] indirect_in_fblocks [of "sv_i sv" ?S] by metis
    then show ?thesis by (rule trunc_secs_other [OF t(7)])
  qed
  ultimately show ?thesis
    using t b(1,2) sv trunc_fmap [OF inode_ok_facts(1) [OF iok] t(7)]
    by (simp add: truncated_def Let_def trunc_inode_def bl)
qed

end

subsection \<open>Truncation\<close>

text \<open>
  C14. Truncating a file to a length that is not negative always succeeds. The file has that length, the contents
  below it are as before, exactly the blocks the file no longer has are given back to the free map, the file
  stays well formed, and no other block of the disk and no other vnode changes. Which blocks of the
  file survive is stated exactly.
\<close>

theorem sfs_truncate_correct:
  assumes "block_device d_io d_blocks sectors ready" and "sfs_ok d_blocks ready s" and "file_ok (sectors (dev_of s)) p s"
    and "0 \<le> len" and "len + 511 < 2 ^ 31"
  shows "\<exists>t. sfs_truncate d_io p len s = Done () t \<and> truncated d_blocks sectors ready p (nat len) s t"
  using assms by (rule block_device.truncate_file)

text \<open>A file whose only data block, block 3 of the disk, is the first that the indirect block, block 2, lists.\<close>

definition trunc_sample :: "disk lhd_softc sfs" where
  "trunc_sample = (let s = sfs_sample UIO_READ 0 0 []; sv = the (s_heap s 1); lh = dev_of s in
     s\<lparr>s_heap := [1 \<mapsto> sv\<lparr>sv_i := (sv_i sv)\<lparr>sfi_size := 8192, sfi_direct := replicate 15 0, sfi_indirect := 2\<rparr>\<rparr>],
       s_freemap := \<lparr>bm_nbits = 4, bm_v = [0xff]\<rparr>,
       s_io := (s_io s)\<lparr>io_dev := lh\<lparr>lh_card := (lh_card lh)\<lparr>dk_data := (dk_data (lh_card lh))(2 := be_words (3 # replicate 127 0))\<rparr>\<rparr>\<rparr>\<rparr>)"

lemma trunc_sample_ok:
  "sfs_ok lh_blocks (lhd_ready dk_nsect) trunc_sample" "file_ok (disk_sectors (lh_card (dev_of trunc_sample))) 1 trunc_sample"
  "sfi_size (inode_at 1 trunc_sample) = 8192" "fmap (disk_sectors (lh_card (dev_of trunc_sample))) (inode_at 1 trunc_sample) 15 = 3"
proof -
  have b: "bit (0xff :: byte) i" if "i < 8" for i using that by (auto simp: less_Suc_eq numeral_eq_Suc)
  then have bm: "bm_set \<lparr>bm_nbits = 4, bm_v = [0xff]\<rparr> = {..<4}" "bm_ok \<lparr>bm_nbits = 4, bm_v = [0xff]\<rparr>"
    by (auto simp: bm_set_def bm_bit_def bm_ok_def divroundup_def)
  show "sfs_ok lh_blocks (lhd_ready dk_nsect) trunc_sample"
    using bm by (simp add: trunc_sample_def Let_def sfs_sample_def sfs_ok_def lhd_sample_def lhd_ready_def)
  have "idbuf_of (be_words (3 # replicate 127 0)) = 3 # replicate 127 0" by (rule idbuf_of_be_words) simp_all
  moreover have "disk_sectors (lh_card (dev_of trunc_sample)) 2 = be_words (3 # replicate 127 0)"
    by (simp add: trunc_sample_def Let_def disk_sectors_def fit_sector_id)
  ultimately have ib: "idbuf_of (disk_sectors (lh_card (dev_of trunc_sample)) 2) = 3 # replicate 127 0" by simp
  have ino: "inode_at 1 trunc_sample = \<lparr>sfi_size = 8192, sfi_type = SFS_TYPE_FILE, sfi_linkcount = 1, sfi_direct = replicate 15 0,
      sfi_indirect = 2, sfi_waste = replicate 110 0\<rparr>" by (simp add: trunc_sample_def Let_def sfs_sample_def)
  show "sfi_size (inode_at 1 trunc_sample) = 8192" unfolding ino by simp
  show "fmap (disk_sectors (lh_card (dev_of trunc_sample))) (inode_at 1 trunc_sample) 15 = 3" unfolding ino using ib by (simp add: fmap_def)
  show "file_ok (disk_sectors (lh_card (dev_of trunc_sample))) 1 trunc_sample"
    unfolding file_ok_def inode_ok_def ino fblocks_def using ib bm by (simp add: inode_wf_def trunc_sample_def Let_def sfs_sample_def)
qed

theorem sfs_truncate_correct_witness:
  "\<exists>t. sfs_truncate (lhd_io disk_card) 1 0 trunc_sample = Done () t \<and> sfi_size (inode_at 1 t) = 0"
  using sfs_truncate_correct [where len = 0 and p = 1, OF dc.bd.block_device_axioms trunc_sample_ok(1,2)]
  by (auto simp: truncated_def Let_def)

text \<open>
  C15. An off-by-one error in \<^verbatim>\<open>sfs_truncate\<close>. When the new end of the file lies in the part of the file mapped by the
  indirect block, the first block past the end is not given back: after the truncation the file still
  owns it, although its whole contents are past the end of the file.
\<close>

theorem sfs_truncate_keeps_one_too_many:
  assumes "block_device d_io d_blocks sectors ready" and "sfs_ok d_blocks ready s" and "file_ok (sectors (dev_of s)) p s"
    and "len = bl * SFS_BLOCKSIZE" and "SFS_NDIRECT \<le> bl" and "bl < SFS_NDIRECT + SFS_DBPERIDB"
    and "fmap (sectors (dev_of s)) (inode_at p s) bl = b" and "b \<noteq> 0"
  shows "\<exists>t. sfs_truncate d_io p (int len) s = Done () t \<and> sfi_size (inode_at p t) = len \<and>
    fmap (sectors (dev_of t)) (inode_at p t) bl = b \<and> b \<in> used_of t"
proof -
  have "(0 :: int) \<le> int len" "int len + 511 < 2 ^ 31" using assms(4,6) by simp_all
  then obtain t where t: "sfs_truncate d_io p (int len) s = Done () t" "truncated d_blocks sectors ready p len s t"
    using block_device.truncate_file [OF assms(1-3)] by fastforce
  have "trunc_keeps (divroundup len SFS_BLOCKSIZE) bl" using assms(4,5) by (simp add: trunc_keeps_def divroundup_def)
  then have fm: "fmap (sectors (dev_of t)) (inode_at p t) bl = b" and fok: "file_ok (sectors (dev_of t)) p t"
    using t(2) assms(7) by (simp_all add: truncated_def Let_def)
  moreover have "b \<in> used_of t" using inode_ok_facts(4) [of _ _ _ "inode_at p t" bl] fok fm assms(8) by (auto simp: file_ok_def)
  ultimately show ?thesis using t by (auto simp: truncated_def Let_def)
qed

theorem sfs_truncate_keeps_one_too_many_witness:
  "\<exists>t. sfs_truncate (lhd_io disk_card) 1 7680 trunc_sample = Done () t \<and> sfi_size (inode_at 1 t) = 7680 \<and> 3 \<in> used_of t"
  using sfs_truncate_keeps_one_too_many [where len = 7680 and bl = 15 and p = 1 and b = 3, OF dc.bd.block_device_axioms trunc_sample_ok(1,2)]
    trunc_sample_ok(4) by auto

end
