(* ===== verification/CString.thy ===== *)
theory CString
  imports Uio
begin

text \<open>
  The string and memory routines of \<^verbatim>\<open>lib/libc\<close> that the kernel and the user programs share. Memory is a function
  from addresses to bytes, a pointer an address, and a null pointer \<open>None\<close>. Loops that run until they
  meet a byte have no bound, so they are partial functions: \<open>None\<close> is a loop that does not
  end. A \<^verbatim>\<open>char\<close> is signed, as it is for this MIPS compiler, and a \<^verbatim>\<open>long\<close> is four bytes.
\<close>

type_synonym mem = "nat \<Rightarrow> byte"

abbreviation cval :: "byte \<Rightarrow> int" where "cval c \<equiv> sint c"

subsection \<open>Strings\<close>

partial_function (option) strlen_from :: "mem \<Rightarrow> nat \<Rightarrow> nat \<Rightarrow> nat option" where
  "strlen_from m s ret = (if m (s + ret) \<noteq> 0 then strlen_from m s (ret + 1) else Some ret)"

definition strlen :: "mem \<Rightarrow> nat \<Rightarrow> nat option" where
  "strlen m s = strlen_from m s 0"

partial_function (option) strcpy_from :: "mem \<Rightarrow> nat \<Rightarrow> nat \<Rightarrow> nat \<Rightarrow> mem option" where
  "strcpy_from m dest src i =
     (if m (src + i) \<noteq> 0 then strcpy_from (m(dest + i := m (src + i))) dest src (i + 1)
      else Some (m(dest + i := 0)))"

definition strcpy :: "mem \<Rightarrow> nat \<Rightarrow> nat \<Rightarrow> mem option" where
  "strcpy m dest src = strcpy_from m dest src 0"

definition strcat :: "mem \<Rightarrow> nat \<Rightarrow> nat \<Rightarrow> mem option" where
  "strcat m dest src = Option.bind (strlen m dest) (\<lambda>offset. strcpy m (dest + offset) src)"

partial_function (option) strcmp_from :: "mem \<Rightarrow> nat \<Rightarrow> nat \<Rightarrow> nat \<Rightarrow> nat option" where
  "strcmp_from m a b i =
     (if m (a + i) \<noteq> 0 \<and> m (a + i) = m (b + i) then strcmp_from m a b (i + 1) else Some i)"

definition strcmp :: "mem \<Rightarrow> nat \<Rightarrow> nat \<Rightarrow> int option" where
  "strcmp m a b = Option.bind (strcmp_from m a b 0) (\<lambda>i.
     Some (if cval (m (a + i)) > cval (m (b + i)) then 1
           else if m (a + i) = m (b + i) then 0 else -1))"

partial_function (option) strchr :: "mem \<Rightarrow> nat \<Rightarrow> int \<Rightarrow> nat option option" where
  "strchr m s ch =
     (if m s \<noteq> 0 then (if cval (m s) = ch then Some (Some s) else strchr m (s + 1) ch)
      else Some (if cval (m s) = ch then Some s else None))"

fun strrchr_down :: "mem \<Rightarrow> nat \<Rightarrow> int \<Rightarrow> nat \<Rightarrow> nat option" where
  "strrchr_down m s ch 0 = None"
| "strrchr_down m s ch (Suc i) = (if cval (m (s + i)) = ch then Some (s + i) else strrchr_down m s ch i)"

definition strrchr :: "mem \<Rightarrow> nat \<Rightarrow> int \<Rightarrow> nat option option" where
  "strrchr m s ch = Option.bind (strlen m s) (\<lambda>n. Some (strrchr_down m s ch (n + 1)))"

text \<open>\<open>strtok_r\<close>: the two loops over the separators and the word, and what is done around them.\<close>

partial_function (option) strtok_skip :: "mem \<Rightarrow> nat \<Rightarrow> nat \<Rightarrow> nat option" where
  "strtok_skip m seps head =
     (if m head = 0 then Some head
      else Option.bind (strchr m seps (cval (m head))) (\<lambda>r.
           if r \<noteq> None then strtok_skip m seps (head + 1) else Some head))"

partial_function (option) strtok_word :: "mem \<Rightarrow> nat \<Rightarrow> nat \<Rightarrow> nat option" where
  "strtok_word m seps tail =
     (if m tail = 0 then Some tail
      else Option.bind (strchr m seps (cval (m tail))) (\<lambda>r.
           if r = None then strtok_word m seps (tail + 1) else Some tail))"

definition strtok_r :: "mem \<Rightarrow> nat option \<Rightarrow> nat \<Rightarrow> nat option \<Rightarrow> (mem \<times> nat option \<times> nat option) option" where
  "strtok_r m string seps context =
     (case (if string \<noteq> None then string else context) of
        None \<Rightarrow> Some (m, None, None)
      | Some head \<Rightarrow>
          Option.bind (strtok_skip m seps head) (\<lambda>head.
          if m head = 0 then Some (m, None, None)
          else Option.bind (strtok_word m seps head) (\<lambda>tail.
               if m tail = 0 then Some (m, None, Some head)
               else Some (m(tail := 0), Some (tail + 1), Some head))))"

text \<open>
  \<open>atoi\<close>. The table of digits is a constant, so \<^verbatim>\<open>strchr\<close> in it is a search in a list; the result is the index.
  The value is accumulated modulo \<open>2 ^ 32\<close>.
\<close>

fun strchr_const :: "byte list \<Rightarrow> int \<Rightarrow> nat option" where
  "strchr_const [] ch = (if ch = 0 then Some 0 else None)"
| "strchr_const (c # cs) ch = (if cval c = ch then Some 0 else map_option Suc (strchr_const cs ch))"

definition atoi_digits :: "byte list" where
  "atoi_digits = [48, 49, 50, 51, 52, 53, 54, 55, 56, 57]"

partial_function (option) atoi_space :: "mem \<Rightarrow> nat \<Rightarrow> nat option" where
  "atoi_space m s = (if m s = 32 \<or> m s = 9 then atoi_space m (s + 1) else Some s)"

partial_function (option) atoi_loop :: "mem \<Rightarrow> nat \<Rightarrow> nat \<Rightarrow> nat option" where
  "atoi_loop m s val =
     (if m s = 0 then Some val
      else case strchr_const atoi_digits (cval (m s)) of
             None \<Rightarrow> Some val
           | Some digit \<Rightarrow> atoi_loop m (s + 1) ((val * 10 + digit) mod 2 ^ 32))"

definition atoi :: "mem \<Rightarrow> nat \<Rightarrow> int option" where
  "atoi m s = Option.bind (atoi_space m s) (\<lambda>s.
     if m s = 45 then Option.bind (atoi_loop m (s + 1) 0) (\<lambda>val. Some (wrap32 (- int val)))
     else Option.bind (atoi_loop m s 0) (\<lambda>val. Some (wrap32 (int val))))"

subsection \<open>Memory blocks\<close>

text \<open>One round of a copying loop: read an element of \<open>w\<close> bytes, then store it.\<close>

definition copy_elem :: "nat \<Rightarrow> nat \<Rightarrow> nat \<Rightarrow> nat \<Rightarrow> mem \<Rightarrow> mem" where
  "copy_elem w dst src i m = mem_put (dst + i * w) (map m [src + i * w..<src + i * w + w]) m"

definition memcpy :: "mem \<Rightarrow> nat \<Rightarrow> nat \<Rightarrow> nat \<Rightarrow> mem" where
  "memcpy m dst src len =
     (if dst mod 4 = 0 \<and> src mod 4 = 0 \<and> len mod 4 = 0
      then fold (copy_elem 4 dst src) [0..<len div 4] m
      else fold (copy_elem 1 dst src) [0..<len] m)"

definition memmove :: "mem \<Rightarrow> nat \<Rightarrow> nat \<Rightarrow> nat \<Rightarrow> mem" where
  "memmove m dst src len =
     (if dst < src then memcpy m dst src len
      else if dst mod 4 = 0 \<and> src mod 4 = 0 \<and> len mod 4 = 0
      then fold (copy_elem 4 dst src) (rev [0..<len div 4]) m
      else fold (copy_elem 1 dst src) (rev [0..<len]) m)"

definition bzero :: "mem \<Rightarrow> nat \<Rightarrow> nat \<Rightarrow> mem" where
  "bzero m block len =
     (if block mod 4 = 0 \<and> len mod 4 = 0
      then fold (\<lambda>i. mem_put (block + i * 4) (replicate 4 0)) [0..<len div 4] m
      else fold (\<lambda>i. mem_put (block + i) [0]) [0..<len] m)"

definition memset :: "mem \<Rightarrow> nat \<Rightarrow> byte \<Rightarrow> nat \<Rightarrow> mem" where
  "memset m p ch len = fold (\<lambda>i m. m(p + i := ch)) [0..<len] m"

fun memcmp_from :: "mem \<Rightarrow> nat \<Rightarrow> nat \<Rightarrow> nat \<Rightarrow> nat \<Rightarrow> int" where
  "memcmp_from m a b i 0 = 0"
| "memcmp_from m a b i (Suc n) =
     (if m (a + i) \<noteq> m (b + i) then uint (m (a + i)) - uint (m (b + i)) else memcmp_from m a b (Suc i) n)"

definition memcmp :: "mem \<Rightarrow> nat \<Rightarrow> nat \<Rightarrow> nat \<Rightarrow> int" where
  "memcmp m a b len = memcmp_from m a b 0 len"

subsection \<open>What a string is\<close>

fun str_at :: "mem \<Rightarrow> nat \<Rightarrow> byte list \<Rightarrow> bool" where
  "str_at m a [] \<longleftrightarrow> m a = 0"
| "str_at m a (c # cs) \<longleftrightarrow> m a = c \<and> c \<noteq> 0 \<and> str_at m (a + 1) cs"

lemma str_at_cong: "(\<And>x. a \<le> x \<Longrightarrow> x \<le> a + length cs \<Longrightarrow> m' x = m x) \<Longrightarrow> str_at m' a cs \<longleftrightarrow> str_at m a cs"
  by (induction cs arbitrary: a) auto

lemma str_at_upd: "x < a \<or> a + length cs < x \<Longrightarrow> str_at (m(x := v)) a cs \<longleftrightarrow> str_at m a cs"
  by (rule str_at_cong) auto

lemma str_at_put:
  "length bs = length cs + 1 \<Longrightarrow> bs = cs @ [0] \<Longrightarrow> 0 \<notin> set cs \<Longrightarrow> str_at (mem_put a bs m) a cs"
proof (induction cs arbitrary: a bs m)
  case (Cons c cs)
  then have "mem_put a bs m a = c" by (simp add: mem_put_def)
  moreover have "str_at (mem_put a bs m) (a + 1) cs"
    using Cons.IH [of "cs @ [0]" "a + 1" "m(a := c)"] Cons.prems by (simp add: mem_put_Cons fun_upd_def)
  ultimately show ?case using Cons.prems by simp
qed (simp add: mem_put_def)

lemma str_at_no_nul: "str_at m a cs \<Longrightarrow> 0 \<notin> set cs"
  by (induction cs arbitrary: a) auto

lemma str_at_append: "str_at m a (cs @ ds) \<longleftrightarrow> map m [a..<a + length cs] = cs \<and> 0 \<notin> set cs \<and> str_at m (a + length cs) ds"
proof (induction cs arbitrary: a)
  case (Cons c cs)
  have "[a..<a + length (c # cs)] = a # [a + 1..<a + 1 + length cs]" by (simp add: upt_conv_Cons del: upt_Suc)
  then show ?case using Cons.IH [of "a + 1"] by auto
qed simp

lemma strlen_from_run: "str_at m (s + i) cs \<Longrightarrow> strlen_from m s i = Some (i + length cs)"
proof (induction cs arbitrary: i)
  case Nil
  then show ?case by (simp add: strlen_from.simps [of m s i])
next
  case (Cons c cs)
  then show ?case by (simp add: strlen_from.simps [of m s i])
qed

lemma strlen_run: "str_at m s cs \<Longrightarrow> strlen m s = Some (length cs)"
  using strlen_from_run [of m s 0 cs] by (simp add: strlen_def)

lemma strcpy_from_run:
  "str_at m (src + i) cs \<Longrightarrow> dest + i + length cs < src + i \<or> src + i + length cs < dest + i \<Longrightarrow>
   strcpy_from m dest src i = Some (mem_put (dest + i) (cs @ [0]) m)"
proof (induction cs arbitrary: m i)
  case Nil
  then show ?case by (simp add: strcpy_from.simps [of m dest src i] mem_put_Cons mem_put_Nil fun_upd_def)
next
  case (Cons c cs)
  let ?m = "m(dest + i := c)"
  have "str_at ?m (src + (i + 1)) cs"
    using Cons.prems str_at_upd [of "dest + i" "src + i + 1" cs m c] by (auto simp: add.assoc)
  then have "strcpy_from ?m dest src (i + 1) = Some (mem_put (dest + (i + 1)) (cs @ [0]) ?m)"
    using Cons.prems(2) by (intro Cons.IH) (auto simp: fun_upd_def)
  with Cons.prems(1) show ?case by (simp add: strcpy_from.simps [of m dest src i] mem_put_Cons)
qed

lemma strcpy_run:
  assumes "str_at m src cs" and "dest + length cs < src \<or> src + length cs < dest"
  shows "strcpy m dest src = Some (mem_put dest (cs @ [0]) m)" "str_at (mem_put dest (cs @ [0]) m) dest cs"
  using strcpy_from_run [of m src 0 cs dest] str_at_put [of "cs @ [0]" cs] assms str_at_no_nul [of m src cs]
  by (simp_all add: strcpy_def)

lemma strcat_run:
  assumes d: "str_at m dest ds" and c: "str_at m src cs"
    and apart: "dest + length ds + length cs < src \<or> src + length cs < dest"
  shows "strcat m dest src = Some (mem_put (dest + length ds) (cs @ [0]) m)"
    and "str_at (mem_put (dest + length ds) (cs @ [0]) m) dest (ds @ cs)"
proof -
  let ?m = "mem_put (dest + length ds) (cs @ [0]) m"
  have r: "strcpy m (dest + length ds) src = Some ?m" "str_at ?m (dest + length ds) cs"
    using apart by (intro strcpy_run [OF c]; auto)+
  show "strcat m dest src = Some ?m" using r(1) strlen_run [OF d] by (simp add: strcat_def)
  have "map m [dest..<dest + length ds] = ds" "0 \<notin> set ds" using d str_at_append [of m dest ds "[]"] by simp_all
  moreover have "map ?m [dest..<dest + length ds] = map m [dest..<dest + length ds]" by (simp add: mem_put_def)
  ultimately show "str_at ?m dest (ds @ cs)" using r(2) by (simp add: str_at_append)
qed

text \<open>Order of strings: the first difference decides, the terminators included.\<close>

fun str_order :: "byte list \<Rightarrow> byte list \<Rightarrow> int" where
  "str_order [] [] = 0"
| "str_order [] (d # ds) = - sgn (cval d)"
| "str_order (c # cs) [] = sgn (cval c)"
| "str_order (c # cs) (d # ds) = (if c = d then str_order cs ds else sgn (cval c - cval d))"

lemma cval_eq_iff: "cval c = cval d \<longleftrightarrow> c = d"
  by (auto intro: signed_word_eqI)

lemma cval_0: "cval c = 0 \<longleftrightarrow> c = 0"
  using cval_eq_iff [of c 0] by simp

lemma strcmp_run:
  assumes "str_at m a cs" and "str_at m b ds"
  shows "strcmp m a b = Some (str_order cs ds)"
proof -
  have "str_at m (a + i) cs \<Longrightarrow> str_at m (b + i) ds \<Longrightarrow>
      \<exists>j. strcmp_from m a b i = Some j \<and> (if cval (m (a + j)) > cval (m (b + j)) then 1
           else if m (a + j) = m (b + j) then 0 else - 1) = str_order cs ds" for i
  proof (induction cs ds arbitrary: i rule: str_order.induct)
    case (4 c cs d ds)
    show ?case
    proof (cases "c = d")
      case True
      with 4 show ?thesis by (simp add: strcmp_from.simps [of m a b i])
    next
      case False
      then have "cval c \<noteq> cval d" by (simp add: cval_eq_iff)
      with False 4 show ?thesis by (auto simp: strcmp_from.simps [of m a b i])
    qed
  next
    case 1
    then show ?case by (simp add: strcmp_from.simps [of m a b i])
  next
    case (2 d ds)
    then show ?case using cval_0 [of d] by (auto simp: strcmp_from.simps [of m a b i] sgn_if)
  next
    case (3 c cs)
    then show ?case using cval_0 [of c] by (auto simp: strcmp_from.simps [of m a b i] sgn_if)
  qed
  from this [of 0] assms show ?thesis by (auto simp: strcmp_def)
qed

text \<open>\<open>strchr\<close> finds the first occurrence, and finds the terminator too.\<close>

lemma strchr_run: "str_at m s cs \<Longrightarrow> strchr m s ch = Some (map_option ((+) s) (strchr_const cs ch))"
proof (induction cs arbitrary: s)
  case Nil
  then show ?case by (simp add: strchr.simps [of m s])
next
  case (Cons c cs)
  then show ?case by (cases "strchr_const cs ch") (simp_all add: strchr.simps [of m s])
qed

lemma strchr_const_Some:
  "strchr_const cs ch = Some k \<longleftrightarrow>
     k \<le> length cs \<and> cval ((cs @ [0]) ! k) = ch \<and> (\<forall>j < k. cval ((cs @ [0]) ! j) \<noteq> ch)"
proof (induction cs arbitrary: k)
  case (Cons c cs)
  then show ?case by (cases k) (auto simp: less_Suc_eq_0_disj)
qed auto

lemma strchr_const_None: "strchr_const cs ch = None \<longleftrightarrow> ch \<notin> cval ` insert 0 (set cs)"
  by (induction cs) auto

lemma strrchr_down_run:
  "case strrchr_down m s ch n of
     None \<Rightarrow> \<forall>j < n. cval (m (s + j)) \<noteq> ch
   | Some p \<Rightarrow> \<exists>k < n. p = s + k \<and> cval (m p) = ch \<and> (\<forall>j. k < j \<longrightarrow> j < n \<longrightarrow> cval (m (s + j)) \<noteq> ch)"
proof (induction n)
  case (Suc n)
  then show ?case by (auto split: option.splits simp: less_Suc_eq)
qed simp

lemma strrchr_run:
  assumes "str_at m s cs"
  shows "\<exists>r. strrchr m s ch = Some r \<and> (case r of
      None \<Rightarrow> \<forall>j \<le> length cs. cval (m (s + j)) \<noteq> ch
    | Some p \<Rightarrow> \<exists>k \<le> length cs. p = s + k \<and> cval (m p) = ch \<and> (\<forall>j. k < j \<longrightarrow> j \<le> length cs \<longrightarrow> cval (m (s + j)) \<noteq> ch))"
  using strrchr_down_run [where m = m and s = s and ch = ch and n = "length cs + 1"] strlen_run [OF assms]
  by (auto simp: strrchr_def less_Suc_eq_le simp del: strrchr_down.simps split: option.splits)

subsection \<open>Tokens\<close>

lemma strchr_sep: "str_at m seps ss \<Longrightarrow> c \<noteq> 0 \<Longrightarrow> \<exists>r. strchr m seps (cval c) = Some r \<and> (r \<noteq> None \<longleftrightarrow> c \<in> set ss)"
  using strchr_run [of m seps ss "cval c"] strchr_const_None [of ss "cval c"]
  by (auto simp: cval_eq_iff cval_0 image_iff)

lemma strtok_skip_run:
  "str_at m seps ss \<Longrightarrow> str_at m head cs \<Longrightarrow>
   strtok_skip m seps head = Some (head + length (takeWhile (\<lambda>c. c \<in> set ss) cs))"
proof (induction cs arbitrary: head)
  case (Cons c cs)
  then show ?case
    using strchr_sep [OF Cons.prems(1), of c] by (auto simp: strtok_skip.simps [of m seps head])
qed (simp add: strtok_skip.simps [of m seps])

lemma strtok_word_run:
  "str_at m seps ss \<Longrightarrow> str_at m tail cs \<Longrightarrow>
   strtok_word m seps tail = Some (tail + length (takeWhile (\<lambda>c. c \<notin> set ss) cs))"
proof (induction cs arbitrary: tail)
  case (Cons c cs)
  then show ?case
    using strchr_sep [OF Cons.prems(1), of c] by (auto simp: strtok_word.simps [of m seps tail])
qed (simp add: strtok_word.simps [of m seps])

lemma str_at_split:
  "str_at m a cs \<Longrightarrow> str_at m (a + length (takeWhile P cs)) (dropWhile P cs) \<and>
     map m [a..<a + length (takeWhile P cs)] = takeWhile P cs"
  using str_at_append [of m a "takeWhile P cs" "dropWhile P cs"] by simp

lemma str_at_dropWhile: "str_at m a (dropWhile P cs) \<Longrightarrow> m a = 0 \<longleftrightarrow> dropWhile P cs = []"
  by (cases "dropWhile P cs") auto

text \<open>
  C16. \<^verbatim>\<open>strtok_r\<close> on a string and a set of separators apart from it: it returns a null pointer when only
  separators are left. Otherwise it returns the next word, the longest run without separators after the leading
  ones, as a terminated string in place; at most the byte after the word is overwritten, and the context points to
  the rest of the string, from which the next call continues.
\<close>

theorem strtok_r_word:
  assumes cs: "str_at m s cs" and ss: "str_at m seps ss" and apart: "seps + length ss < s \<or> s + length cs < seps"
    and start: "string = Some s \<or> string = None \<and> context = Some s"
    and word: "rest = dropWhile (\<lambda>c. c \<in> set ss) cs" "word = takeWhile (\<lambda>c. c \<notin> set ss) rest"
      "after = dropWhile (\<lambda>c. c \<notin> set ss) rest"
  shows "if rest = [] then strtok_r m string seps context = Some (m, None, None)
    else \<exists>m' head. strtok_r m string seps context = Some (m', if after = [] then None else Some (head + length word + 1), Some head) \<and>
      head = s + (length cs - length rest) \<and> str_at m' head word \<and> str_at m' seps ss \<and>
      (after \<noteq> [] \<longrightarrow> str_at m' (head + length word + 1) (tl after)) \<and>
      (\<forall>x. x \<noteq> head + length word \<longrightarrow> m' x = m x)"
proof -
  let ?sep = "\<lambda>c. c \<in> set ss"
  define head where "head = s + length (takeWhile ?sep cs)"
  have hd: "str_at m head rest" using str_at_split [OF cs, of ?sep] by (simp add: head_def word)
  have len: "length cs = length (takeWhile ?sep cs) + length rest"
    unfolding word(1) by (metis length_append takeWhile_dropWhile_id)
  have skip: "strtok_skip m seps s = Some head" using strtok_skip_run [OF ss cs] by (simp add: head_def)
  have from_s: "(if string \<noteq> None then string else context) = Some s" using start by auto
  show ?thesis
  proof (cases "rest = []")
    case True
    with hd skip from_s show ?thesis by (simp add: strtok_r_def)
  next
    case False
    define tail where "tail = head + length word"
    have m_head: "m head \<noteq> 0" using hd False str_at_dropWhile [of m head ?sep cs] by (simp add: word(1))
    have w: "strtok_word m seps head = Some tail" using strtok_word_run [OF ss hd] by (simp add: tail_def word(2))
    have rst: "rest = word @ after" by (simp add: word(2,3))
    have at: "map m [head..<tail] = word" "0 \<notin> set word" "str_at m tail after"
      using hd unfolding rst tail_def by (simp_all add: str_at_append)
    define m' where "m' = (if after = [] then m else m(tail := 0))"
    have "strtok_r m string seps context = Some (m', if after = [] then None else Some (head + length word + 1), Some head)"
      using from_s skip m_head w at(3) by (cases after) (simp_all add: strtok_r_def m'_def tail_def)
    moreover have "head = s + (length cs - length rest)" using len by (simp add: head_def)
    moreover have "str_at m' head word"
    proof -
      have "m' tail = 0" using at(3) by (cases after) (simp_all add: m'_def)
      moreover have "map m' [head..<tail] = word" using at(1) by (simp add: m'_def)
      ultimately show ?thesis using at(2) str_at_append [of m' head word "[]"] by (simp add: tail_def)
    qed
    moreover have "str_at m' seps ss"
    proof -
      have "tail < seps \<or> seps + length ss < tail"
        using apart len rst by (auto simp: tail_def head_def)
      then show ?thesis using ss str_at_upd [of tail seps ss m 0] by (auto simp: m'_def)
    qed
    moreover have "str_at m' (head + length word + 1) (tl after)" if "after \<noteq> []"
      using that at(3) str_at_upd [of tail "tail + 1" "tl after" m 0] by (cases after) (simp_all add: m'_def tail_def)
    moreover have "\<forall>x. x \<noteq> head + length word \<longrightarrow> m' x = m x" by (simp add: m'_def tail_def)
    ultimately show ?thesis using False by (auto simp del: str_at.simps)
  qed
qed

definition mem_sample :: mem where
  "mem_sample = mem_put 10 [32, 97, 98, 32, 99, 0] (mem_put 100 [32, 0] (\<lambda>_. 7))"

theorem strtok_r_word_witness:
  "\<exists>m'. strtok_r mem_sample (Some 10) 100 None = Some (m', Some 14, Some 11) \<and> str_at m' 11 [97, 98] \<and> str_at m' 14 [99]"
proof -
  have cs: "str_at mem_sample 10 [32, 97, 98, 32, 99]" and ss: "str_at mem_sample 100 [32]"
    by (simp_all add: mem_sample_def mem_put_def)
  show ?thesis
    using strtok_r_word [OF cs ss _ _ refl refl refl, of "Some 10" None] by auto
qed

subsection \<open>Memory blocks, overlapping or not\<close>

lemma mem_put_other: "x < a \<or> a + length bs \<le> x \<Longrightarrow> mem_put a bs m x = m x"
  by (auto simp: mem_put_def)

lemma map_mem_put_other: "b + n \<le> a \<or> a + length bs \<le> b \<Longrightarrow> map (mem_put a bs m) [b..<b + n] = map m [b..<b + n]"
  by (auto simp: mem_put_other)

lemma map_upt_append: "map f [a..<a + k] @ map f [a + k..<a + k + n] = map f [a..<a + (k + n)]"
  using upt_add_eq_append [of a "a + k" n] by (simp add: add.assoc flip: map_append)

lemma copy_up:
  assumes "dst \<le> src \<or> src + n * w \<le> dst"
  shows "fold (copy_elem w dst src) [0..<n] m = mem_put dst (map m [src..<src + n * w]) m"
  using assms
proof (induction n)
  case 0
  then show ?case by (simp add: mem_put_Nil)
next
  case (Suc n)
  let ?m = "mem_put dst (map m [src..<src + n * w]) m"
  have "fold (copy_elem w dst src) [0..<Suc n] m = copy_elem w dst src n ?m" using Suc by auto
  also have "\<dots> = mem_put (dst + n * w) (map m [src + n * w..<src + n * w + w]) ?m"
  proof -
    have "map ?m [src + n * w..<src + n * w + w] = map m [src + n * w..<src + n * w + w]"
      using Suc.prems by (intro map_mem_put_other) auto
    then show ?thesis by (simp only: copy_elem_def)
  qed
  also have "\<dots> = mem_put dst (map m [src..<src + Suc n * w]) m"
    using mem_put_append [of dst "map m [src..<src + n * w]" "map m [src + n * w..<src + n * w + w]" m]
      map_upt_append [of m src "n * w" w] by (simp add: add.commute)
  finally show ?case .
qed

lemma copy_down:
  assumes "src \<le> dst"
  shows "fold (copy_elem w dst src) (rev [0..<n]) m = mem_put dst (map m [src..<src + n * w]) m"
proof (induction n arbitrary: m)
  case 0
  then show ?case by (simp add: mem_put_Nil)
next
  case (Suc n)
  let ?b = "map m [src + n * w..<src + n * w + w]"
  let ?m = "mem_put (dst + n * w) ?b m"
  have "fold (copy_elem w dst src) (rev [0..<Suc n]) m = fold (copy_elem w dst src) (rev [0..<n]) ?m"
    by (simp add: copy_elem_def)
  also have "\<dots> = mem_put dst (map m [src..<src + n * w]) ?m"
    using Suc.IH [of ?m] assms map_mem_put_other [of src "n * w" "dst + n * w" ?b m] by simp
  also have "\<dots> = mem_put dst (map m [src..<src + n * w] @ ?b) m"
    by (rule ext) (auto simp: mem_put_def nth_append)
  also have "\<dots> = mem_put dst (map m [src..<src + Suc n * w]) m"
    using map_upt_append [of m src "n * w" w] by (simp add: add.commute)
  finally show ?case .
qed

lemma memcpy_run:
  assumes "dst \<le> src \<or> src + len \<le> dst"
  shows "memcpy m dst src len = mem_put dst (map m [src..<src + len]) m"
proof (cases "dst mod 4 = 0 \<and> src mod 4 = 0 \<and> len mod 4 = 0")
  case True
  then have "len div 4 * 4 = len" by auto
  with True show ?thesis using copy_up [of dst src "len div 4" 4 m] assms by (simp add: memcpy_def)
next
  case False
  then show ?thesis using copy_up [of dst src len 1 m] assms by (auto simp: memcpy_def)
qed

text \<open>
  C17. \<^verbatim>\<open>memmove\<close> leaves at the destination what was at the source, and everything else as it was, for all
  alignments and however the two blocks overlap.
\<close>

theorem memmove_correct: "memmove m dst src len = mem_put dst (map m [src..<src + len]) m"
proof (cases "dst < src")
  case True
  then show ?thesis using memcpy_run [of dst src len m] by (simp add: memmove_def)
next
  case False
  show ?thesis
  proof (cases "dst mod 4 = 0 \<and> src mod 4 = 0 \<and> len mod 4 = 0")
    case True
    then have "len div 4 * 4 = len" by auto
    with True False show ?thesis using copy_down [of src dst 4 "len div 4" m] by (simp add: memmove_def)
  next
    case unaligned: False
    with False show ?thesis using copy_down [of src dst 1 len m] by (auto simp: memmove_def)
  qed
qed

lemma fill_run: "fold (\<lambda>i. mem_put (a + i * w) (replicate w 0)) [0..<n] m = mem_put a (replicate (n * w) 0) m"
proof (induction n)
  case 0
  then show ?case by (simp add: mem_put_Nil)
next
  case (Suc n)
  have "replicate (Suc n * w) (0 :: byte) = replicate (n * w) 0 @ replicate w 0"
    by (simp add: add.commute flip: replicate_add)
  then show ?case using Suc mem_put_append [of a "replicate (n * w) 0" "replicate w 0" m] by simp
qed

lemma bzero_run: "bzero m block len = mem_put block (replicate len 0) m"
proof (cases "block mod 4 = 0 \<and> len mod 4 = 0")
  case True
  then have "len div 4 * 4 = len" by auto
  with True show ?thesis using fill_run [of block 4 "len div 4" m] by (simp add: bzero_def)
next
  case False
  then show ?thesis using fill_run [of block 1 len m] by (auto simp: bzero_def)
qed

lemma memcmp_from_0: "memcmp_from m a b i n = 0 \<longleftrightarrow> (\<forall>j < n. m (a + i + j) = m (b + i + j))"
proof (induction n arbitrary: i)
  case (Suc n)
  have "uint (m (a + i)) - uint (m (b + i)) = 0 \<longleftrightarrow> m (a + i) = m (b + i)" by (auto intro: word_uint_eqI)
  with Suc.IH [of "Suc i"] show ?case by (auto simp: less_Suc_eq_0_disj)
qed simp

end
