(* ===== verification/Printf.thy ===== *)
theory Printf
  imports CString
begin

text \<open>
  The formatted printing routines shared by the kernel and the C library: \<^verbatim>\<open>lib/libc/__printf.c\<close> and
  \<^verbatim>\<open>lib/libc/snprintf.c\<close>. The callback that receives the text is a parameter \<open>send\<close> that works on the
  client data. The variable arguments are the list of those not yet fetched; fetching one that is not there, or
  one of the wrong type, is undefined in C and brings the model down. \<^verbatim>\<open>int\<close>, \<^verbatim>\<open>long\<close> and pointers have 32
  bits. A string argument is the list of its bytes before the terminator.
\<close>

datatype pf_intsize = INTSZ | LONGSZ

datatype vararg = ArgWord u32 | ArgStr "byte list option"

record 'c pf =
  pf_clientdata :: 'c
  pf_ap :: "vararg list"
  pf_charcount :: int
  pf_in_pct :: bool
  pf_size :: pf_intsize
  pf_num :: u32
  pf_sign :: int
  pf_spacing :: int
  pf_rightspc :: bool
  pf_fillchar :: byte
  pf_base :: nat
  pf_baseprefix :: bool
  pf_altformat :: bool

type_synonym 'c sendfunc = "byte list \<Rightarrow> 'c \<Rightarrow> 'c"

abbreviation (input) NUMBER_BUF_SIZE :: nat where "NUMBER_BUF_SIZE \<equiv> 12"

definition pf_print :: "'c sendfunc \<Rightarrow> byte list \<Rightarrow> ('c pf, unit) prog" where
  "pf_print send str = kmod (\<lambda>pf. pf\<lparr>pf_clientdata := send str (pf_clientdata pf),
     pf_charcount := wrap32 (pf_charcount pf + int (length str))\<rparr>)"

definition pf_endfield :: "('c pf, unit) prog" where
  "pf_endfield = kmod (\<lambda>pf. pf\<lparr>pf_in_pct := False, pf_size := INTSZ, pf_num := 0, pf_sign := 0, pf_spacing := 0,
     pf_rightspc := False, pf_fillchar := 32, pf_base := 0, pf_baseprefix := False, pf_altformat := False\<rparr>)"

text \<open>The characters are \<^verbatim>\<open># - l q 0\<close> and the other digits.\<close>

definition pf_modifier :: "byte \<Rightarrow> ('c pf, unit) prog" where
  "pf_modifier ch =
     (if ch = 35 then kmod (\<lambda>pf. pf\<lparr>pf_altformat := True\<rparr>)
      else if ch = 45 then kmod (\<lambda>pf. pf\<lparr>pf_rightspc := True\<rparr>)
      else if ch = 108 then kmod (\<lambda>pf. pf\<lparr>pf_size := LONGSZ\<rparr>)
      else if ch = 113 then kmod (\<lambda>pf. pf\<lparr>pf_size := LONGSZ\<rparr>)
      else if ch = 48 then kmod (\<lambda>pf. if pf_spacing pf > 0 then pf\<lparr>pf_spacing := wrap32 (pf_spacing pf * 10)\<rparr>
                                     else pf\<lparr>pf_fillchar := 48\<rparr>)
      else kthen (kassert (48 < ch \<and> ch \<le> 57))
           (kmod (\<lambda>pf. pf\<lparr>pf_spacing := wrap32 (pf_spacing pf * 10 + (uint ch - 48))\<rparr>)))"

definition pf_va_word :: "('c pf, u32) prog" where
  "pf_va_word = kbind (kget pf_ap) (\<lambda>ap. case ap of
      ArgWord w # rest \<Rightarrow> kthen (kmod (\<lambda>pf. pf\<lparr>pf_ap := rest\<rparr>)) (kret w)
    | _ \<Rightarrow> kpanic ''va_arg'')"

definition pf_va_str :: "('c pf, byte list option) prog" where
  "pf_va_str = kbind (kget pf_ap) (\<lambda>ap. case ap of
      ArgStr s # rest \<Rightarrow> kthen (kmod (\<lambda>pf. pf\<lparr>pf_ap := rest\<rparr>)) (kret s)
    | _ \<Rightarrow> kpanic ''va_arg'')"

text \<open>\<open>INTSZ\<close> and \<open>LONGSZ\<close> arguments are both one word here. The letters are \<^verbatim>\<open>p d\<close>.\<close>

definition pf_getnum :: "byte \<Rightarrow> ('c pf, unit) prog" where
  "pf_getnum ch = kbind pf_va_word (\<lambda>w.
     if ch = 112 then kmod (\<lambda>pf. pf\<lparr>pf_num := w\<rparr>)
     else if ch = 100 then
       (if sint w < 0 then kmod (\<lambda>pf. pf\<lparr>pf_sign := -1, pf_num := - w\<rparr>) else kmod (\<lambda>pf. pf\<lparr>pf_num := w\<rparr>))
     else kmod (\<lambda>pf. pf\<lparr>pf_num := w\<rparr>))"

text \<open>The letters are \<^verbatim>\<open>d u\<close>, \<^verbatim>\<open>x p\<close>, \<^verbatim>\<open>o\<close>.\<close>

definition pf_setbase :: "byte \<Rightarrow> ('c pf, unit) prog" where
  "pf_setbase ch =
     kthen (if ch = 100 \<or> ch = 117 then kmod (\<lambda>pf. pf\<lparr>pf_base := 10\<rparr>)
            else if ch = 120 \<or> ch = 112 then kmod (\<lambda>pf. pf\<lparr>pf_base := 16\<rparr>)
            else if ch = 111 then kmod (\<lambda>pf. pf\<lparr>pf_base := 8\<rparr>)
            else kret ())
     (kmod (\<lambda>pf. if pf_altformat pf \<or> ch = 112 then pf\<lparr>pf_baseprefix := True\<rparr> else pf))"

fun pf_fill :: "'c sendfunc \<Rightarrow> nat \<Rightarrow> ('c pf, unit) prog" where
  "pf_fill send 0 = kret ()"
| "pf_fill send (Suc spc) = kbind (kget pf_fillchar) (\<lambda>f. kthen (pf_print send [f]) (pf_fill send spc))"

definition pf_printstuff :: "'c sendfunc \<Rightarrow> byte list \<Rightarrow> byte list \<Rightarrow> byte list \<Rightarrow> ('c pf, unit) prog" where
  "pf_printstuff send prefix prefix2 stuff =
     kbind (kget (\<lambda>pf. (pf_spacing pf, pf_rightspc pf, pf_fillchar pf))) (\<lambda>(spacing, rightspc, fillchar).
     let len = wrap32 (int (length prefix + length prefix2 + length stuff));
         spc = (if spacing > len then spacing - len else 0)
     in kthen (if spc > 0 \<and> \<not> rightspc \<and> fillchar \<noteq> 48 then pf_fill send (nat spc) else kret ())
        (kthen (pf_print send prefix)
        (kthen (pf_print send prefix2)
        (kthen (if spc > 0 \<and> \<not> rightspc \<and> fillchar = 48 then pf_fill send (nat spc) else kret ())
        (kthen (pf_print send stuff)
        (if spc > 0 \<and> rightspc then pf_fill send (nat spc) else kret ()))))))"

definition pf_digits :: "byte list" where
  "pf_digits = [48, 49, 50, 51, 52, 53, 54, 55, 56, 57, 97, 98, 99, 100, 101, 102]"

text \<open>
  The conversion loop. \<open>x\<close> is the index just after the next slot to fill, so that 0 means that the buffer is
  used up; a base of 0 or 1 would be a division by zero or an endless loop.
\<close>

function pf_convert :: "nat \<Rightarrow> byte list \<Rightarrow> nat \<Rightarrow> nat \<Rightarrow> ('s, byte list \<times> nat) prog" where
  "pf_convert base buf x xnum =
     (if base < 2 then kpanic ''bad base''
      else if x = 0 \<or> length buf < x then kpanic ''out of buf''
      else kbind (knth pf_digits (xnum mod base)) (\<lambda>d.
           let buf = buf[x - 1 := d]; xnum = xnum div base
           in if xnum > 0 then pf_convert base buf (x - 1) xnum else kret (buf, x - 1)))"
  by pat_completeness auto
termination
  by (relation "measure (\<lambda>(base, buf, x, xnum). x)") auto

declare pf_convert.simps [simp del]

definition pf_printnum :: "'c sendfunc \<Rightarrow> ('c pf, unit) prog" where
  "pf_printnum send =
     kbind (kget (\<lambda>pf. (pf_base pf, pf_num pf, pf_baseprefix pf, pf_sign pf))) (\<lambda>(base, num, baseprefix, sign).
     kbind (pf_convert base ((replicate NUMBER_BUF_SIZE 0)[NUMBER_BUF_SIZE - 1 := 0]) (NUMBER_BUF_SIZE - 1)
              (unat num)) (\<lambda>(buf, x).
     let bprefix = (if baseprefix \<and> base = 16 then [48, 120] else if baseprefix \<and> base = 8 then [48] else []);
         sprefix = (if sign \<noteq> 0 then [45] else [])
     in pf_printstuff send sprefix bprefix (takeWhile (\<lambda>c. c \<noteq> 0) (drop x buf))))"

text \<open>The characters are \<^verbatim>\<open>%\<close>, then the modifiers, \<^verbatim>\<open>doupx\<close>, \<^verbatim>\<open>s\<close> and \<^verbatim>\<open>c\<close>.\<close>

definition pf_modifiers :: "byte list" where
  "pf_modifiers = [35, 45, 113, 108, 48, 49, 50, 51, 52, 53, 54, 55, 56, 57]"

definition pf_integers :: "byte list" where
  "pf_integers = [100, 111, 117, 112, 120]"

definition pf_send :: "'c sendfunc \<Rightarrow> byte \<Rightarrow> ('c pf, unit) prog" where
  "pf_send send ch =
     kthen (kassert (ch \<noteq> 0))
     (kbind (kget pf_in_pct) (\<lambda>in_pct.
      if \<not> in_pct \<and> ch \<noteq> 37 then pf_print send [ch]
      else if \<not> in_pct then kmod (\<lambda>pf. pf\<lparr>pf_in_pct := True\<rparr>)
      else if strchr_const pf_modifiers (cval ch) \<noteq> None then pf_modifier ch
      else if strchr_const pf_integers (cval ch) \<noteq> None then
        kthen (pf_getnum ch) (kthen (pf_setbase ch) (kthen (pf_printnum send) pf_endfield))
      else if ch = 115 then
        kbind pf_va_str (\<lambda>str.
        kthen (pf_printstuff send [] [] (case str of None \<Rightarrow> [40, 110, 117, 108, 108, 41] | Some s \<Rightarrow> s)) pf_endfield)
      else
        kbind (if ch = 99 then kbind pf_va_word (\<lambda>w. kret (ucast w)) else kret ch) (\<lambda>x.
        kthen (pf_printstuff send [] [] (if x = 0 then [] else [x])) pf_endfield)))"

fun pf_run :: "'c sendfunc \<Rightarrow> byte list \<Rightarrow> ('c pf, unit) prog" where
  "pf_run send [] = kret ()"
| "pf_run send (c # format) = (if c = 0 then kret () else kthen (pf_send send c) (pf_run send format))"

definition pf_start :: "'c \<Rightarrow> vararg list \<Rightarrow> 'c pf" where
  "pf_start clientdata ap =
     \<lparr>pf_clientdata = clientdata, pf_ap = ap, pf_charcount = 0, pf_in_pct = False, pf_size = INTSZ, pf_num = 0,
      pf_sign = 0, pf_spacing = 0, pf_rightspc = False, pf_fillchar = 32, pf_base = 0, pf_baseprefix = False,
      pf_altformat = False\<rparr>"

definition vprintf :: "'c sendfunc \<Rightarrow> byte list \<Rightarrow> vararg list \<Rightarrow> ('c, int) prog" where
  "vprintf send format ap clientdata =
     (case pf_run send format (pf_start clientdata ap) of
        Done _ pf \<Rightarrow> Done (pf_charcount pf) (pf_clientdata pf)
      | Fail e pf \<Rightarrow> Fail e (pf_clientdata pf)
      | Panic m \<Rightarrow> Panic m)"

subsection \<open>Printing into a buffer\<close>

record snp =
  snp_buf :: "byte list"
  snp_buflen :: nat
  snp_bufpos :: nat

fun snprintf_send :: "byte list \<Rightarrow> snp \<Rightarrow> snp" where
  "snprintf_send [] snp = snp"
| "snprintf_send (c # data) snp = snprintf_send data
     (if snp_bufpos snp < snp_buflen snp
      then snp\<lparr>snp_buf := (snp_buf snp)[snp_bufpos snp := c], snp_bufpos := snp_bufpos snp + 1\<rparr> else snp)"

text \<open>The buffer of the caller is the state; it returns the number of characters.\<close>

definition vsnprintf :: "nat \<Rightarrow> byte list \<Rightarrow> vararg list \<Rightarrow> (byte list, int) prog" where
  "vsnprintf len fmt ap buf =
     (case vprintf snprintf_send fmt ap
             \<lparr>snp_buf = buf, snp_buflen = (if len = 0 then 0 else len - 1), snp_bufpos = 0\<rparr> of
        Done chars snp \<Rightarrow> Done chars (if len > 0 then (snp_buf snp)[snp_bufpos snp := 0] else snp_buf snp)
      | Fail e snp \<Rightarrow> Fail e (snp_buf snp)
      | Panic m \<Rightarrow> Panic m)"

subsection \<open>Numerals\<close>

text \<open>The digits of a number in a base, most significant first, and the number they stand for.\<close>

function digits_of :: "nat \<Rightarrow> nat \<Rightarrow> nat list" where
  "digits_of base n = (if base < 2 \<or> n < base then [n] else digits_of base (n div base) @ [n mod base])"
  by pat_completeness auto
termination
  by (relation "measure snd") auto

declare digits_of.simps [simp del]

definition digits_value :: "nat \<Rightarrow> nat list \<Rightarrow> nat" where
  "digits_value base ds = foldl (\<lambda>v d. v * base + d) 0 ds"

lemma digits_of_value: "digits_value base (digits_of base n) = n"
proof (induction base n rule: digits_of.induct)
  case (1 base n)
  then show ?case
    by (cases "base < 2 \<or> n < base") (simp_all add: digits_value_def digits_of.simps [of base n])
qed

lemma digits_of_less: "2 \<le> base \<Longrightarrow> d \<in> set (digits_of base n) \<Longrightarrow> d < base"
proof (induction base n rule: digits_of.induct)
  case (1 base n)
  then show ?case by (cases "n < base") (auto simp: digits_of.simps [of base n])
qed

lemma digits_of_length: "2 \<le> base \<Longrightarrow> n < base ^ k \<Longrightarrow> 0 < k \<Longrightarrow> length (digits_of base n) \<le> k"
proof (induction k arbitrary: n)
  case (Suc k)
  show ?case
  proof (cases "n < base")
    case False
    with Suc.prems have "0 < k" by (cases k) auto
    moreover have "n div base < base ^ k" using Suc.prems by (simp add: less_mult_imp_div_less mult.commute)
    ultimately have "length (digits_of base (n div base)) \<le> k" using Suc.prems Suc.IH by simp
    with False show ?thesis by (simp add: digits_of.simps [of base n])
  qed (simp add: digits_of.simps [of base n])
qed simp

lemma pf_convert_run:
  assumes "2 \<le> base" "base \<le> 16" "length (digits_of base n) \<le> x" "x \<le> length buf"
  shows "pf_convert base buf x n s =
    Done (take (x - length (digits_of base n)) buf @ map ((!) pf_digits) (digits_of base n) @ drop x buf,
          x - length (digits_of base n)) s"
  using assms
proof (induction base n arbitrary: buf x rule: digits_of.induct)
  case (1 base n)
  have "n mod base < base" using "1.prems"(1) by simp
  then have d: "n mod base < length pf_digits" using "1.prems"(2) by (simp add: pf_digits_def)
  have x: "x \<noteq> 0" "\<not> length buf < x" using "1.prems" by (auto simp: digits_of.simps [of base n] split: if_splits)
  let ?buf = "buf[x - 1 := pf_digits ! (n mod base)]"
  have upd: "?buf = take (x - 1) buf @ pf_digits ! (n mod base) # drop x buf"
    using x by (simp add: upd_conv_take_nth_drop)
  have split: "drop (x - 1) ?buf = pf_digits ! (n mod base) # drop x buf" "length ?buf = length buf"
    "take (x - 1 - j) ?buf = take (x - 1 - j) buf" for j
    using x unfolding upd by simp_all
  have step: "pf_convert base buf x n s = (if n div base > 0 then pf_convert base ?buf (x - 1) (n div base) s
      else Done (?buf, x - 1) s)"
    using "1.prems"(1) x d by (simp add: pf_convert.simps [of base buf x n] kprog Let_def)
  show ?case
  proof (cases "n < base")
    case True
    then have "n div base = 0" "n mod base = n" by simp_all
    with True step upd show ?thesis by (simp add: digits_of.simps [of base n])
  next
    case False
    let ?k = "length (digits_of base (n div base))"
    have ds: "digits_of base n = digits_of base (n div base) @ [n mod base]"
      using False "1.prems"(1) by (simp add: digits_of.simps [of base n])
    have k: "?k \<le> x - 1" "x - 1 \<le> length ?buf" using "1.prems"(3,4) ds by simp_all
    have "pf_convert base ?buf (x - 1) (n div base) s =
        Done (take (x - 1 - ?k) ?buf @ map ((!) pf_digits) (digits_of base (n div base)) @ drop (x - 1) ?buf, x - 1 - ?k) s"
      using "1.IH" [OF _ "1.prems"(1,2) k] False "1.prems"(1) by simp
    moreover have "0 < n div base" using False "1.prems"(1) by (simp add: div_greater_zero_iff)
    ultimately show ?thesis unfolding step split ds by simp
  qed
qed

lemma convert_number:
  fixes w :: u32
  assumes "base \<in> {8, 10, 16}" and "ds = digits_of base (unat w)"
    and "x = NUMBER_BUF_SIZE - 1 - length ds" and "buf = replicate x 0 @ map ((!) pf_digits) ds @ [0]"
  shows "pf_convert base (replicate NUMBER_BUF_SIZE 0) (NUMBER_BUF_SIZE - 1) (unat w) s = Done (buf, x) s"
    "takeWhile (\<lambda>c. c \<noteq> 0) (drop x buf) = map ((!) pf_digits) ds" "0 < length ds" "length ds \<le> NUMBER_BUF_SIZE - 1"
proof -
  have base: "2 \<le> base" "base \<le> 16" using assms(1) by auto
  have "unat w < 2 ^ 32" using unsigned_less [of w] by simp
  moreover have "2 ^ 32 \<le> base ^ 11" using assms(1) by auto
  ultimately have "unat w < base ^ 11" by linarith
  with base(1) have len: "length (digits_of base (unat w)) \<le> 11" by (rule digits_of_length) simp
  then show "length ds \<le> NUMBER_BUF_SIZE - 1" by (simp add: assms(2))
  show "0 < length ds" by (simp add: assms(2) digits_of.simps [of base "unat w"])
  have nz: "c \<noteq> 0" if c: "c \<in> set (map ((!) pf_digits) ds)" for c
  proof -
    obtain d where d: "d \<in> set ds" "c = pf_digits ! d" using c by force
    then have "d < 16" using digits_of_less [OF base(1), of d "unat w"] base(2) assms(2) by simp
    then have "c \<in> set pf_digits" using d(2) nth_mem [of d pf_digits] by (simp add: pf_digits_def)
    then show ?thesis by (auto simp: pf_digits_def)
  qed
  show "pf_convert base (replicate NUMBER_BUF_SIZE 0) (NUMBER_BUF_SIZE - 1) (unat w) s = Done (buf, x) s"
    using pf_convert_run [OF base len, of "replicate 12 0" s] len by (simp add: assms(2-4))
  have "takeWhile (\<lambda>c. c \<noteq> 0) (map ((!) pf_digits) ds @ [0]) = map ((!) pf_digits) ds"
    by (subst takeWhile_append2) (use nz in auto)
  then show "takeWhile (\<lambda>c. c \<noteq> 0) (drop x buf) = map ((!) pf_digits) ds" by (simp add: assms(4))
qed

text \<open>
  C18. The conversion of a 32-bit number in base 8, 10 or 16 never leaves its buffer of twelve bytes, ends, and
  leaves there a terminated string of digits that stand for the number.
\<close>

theorem pf_convert_number:
  assumes "base \<in> {8, 10, 16}"
  shows "\<exists>buf x. pf_convert base (replicate NUMBER_BUF_SIZE 0) (NUMBER_BUF_SIZE - 1) (unat (w :: u32)) s = Done (buf, x) s \<and>
    length buf = NUMBER_BUF_SIZE \<and> x < NUMBER_BUF_SIZE - 1 \<and>
    takeWhile (\<lambda>c. c \<noteq> 0) (drop x buf) = map ((!) pf_digits) (digits_of base (unat w)) \<and>
    digits_value base (digits_of base (unat w)) = unat w"
proof -
  note c = convert_number [OF assms refl refl refl, of w]
  show ?thesis by (intro exI conjI, rule c(1)) (use c(2-4) in \<open>auto simp: digits_of_value\<close>)
qed

theorem pf_convert_number_witness:
  "(8 :: nat) \<in> {8, 10, 16} \<and>
   (\<exists>buf x. pf_convert 8 (replicate 12 0) 11 (unat (0xffffffff :: u32)) () = Done (buf, x) () \<and>
      digits_value 8 (digits_of 8 4294967295) = 4294967295)"
  using pf_convert_number [of 8 "0xffffffff" "()"] by auto

subsection \<open>The client's view of the text\<close>

text \<open>
  The text goes to the client in pieces, but what happens does not depend on the client: two runs
  with clients that are related stay related.
\<close>

definition pf_sim :: "('c \<Rightarrow> 'd \<Rightarrow> bool) \<Rightarrow> 'c pf \<Rightarrow> 'd pf \<Rightarrow> bool" where
  "pf_sim R p q \<longleftrightarrow> R (pf_clientdata p) (pf_clientdata q) \<and> pf_ap q = pf_ap p \<and> pf_charcount q = pf_charcount p \<and>
     pf_in_pct q = pf_in_pct p \<and> pf_size q = pf_size p \<and> pf_num q = pf_num p \<and> pf_sign q = pf_sign p \<and>
     pf_spacing q = pf_spacing p \<and> pf_rightspc q = pf_rightspc p \<and> pf_fillchar q = pf_fillchar p \<and>
     pf_base q = pf_base p \<and> pf_baseprefix q = pf_baseprefix p \<and> pf_altformat q = pf_altformat p"

definition prog_sim :: "('c \<Rightarrow> 'd \<Rightarrow> bool) \<Rightarrow> ('c pf, 'a) prog \<Rightarrow> ('d pf, 'a) prog \<Rightarrow> bool" where
  "prog_sim R m n \<longleftrightarrow> (\<forall>p q. pf_sim R p q \<longrightarrow> (case m p of
      Done x p' \<Rightarrow> \<exists>q'. n q = Done x q' \<and> pf_sim R p' q'
    | Fail e p' \<Rightarrow> \<exists>q'. n q = Fail e q' \<and> pf_sim R p' q'
    | Panic s \<Rightarrow> n q = Panic s))"

named_theorems sim_intros \<open>rules for runs with related clients\<close>

lemma sim_bind [sim_intros]:
  assumes "prog_sim R m n" and "\<And>x. prog_sim R (f x) (g x)"
  shows "prog_sim R (kbind m f) (kbind n g)"
  unfolding prog_sim_def
proof (intro allI impI)
  fix p q assume pq: "pf_sim R p q"
  note mn = assms(1) [unfolded prog_sim_def, rule_format, OF pq]
  show "case kbind m f p of
      Done x p' \<Rightarrow> \<exists>q'. kbind n g q = Done x q' \<and> pf_sim R p' q'
    | Fail e p' \<Rightarrow> \<exists>q'. kbind n g q = Fail e q' \<and> pf_sim R p' q'
    | Panic s \<Rightarrow> kbind n g q = Panic s"
  proof (cases "m p")
    case (Done x p')
    with mn obtain q' where q': "n q = Done x q'" "pf_sim R p' q'" by auto
    have "kbind m f p = f x p'" "kbind n g q = g x q'" using Done q'(1) by (simp_all add: kbind_run)
    with assms(2) [of x, unfolded prog_sim_def, rule_format, OF q'(2)] show ?thesis by (simp only:)
  qed (use mn in \<open>auto simp: kbind_run\<close>)
qed

lemma sim_then [sim_intros]: "prog_sim R m n \<Longrightarrow> prog_sim R f g \<Longrightarrow> prog_sim R (kthen m f) (kthen n g)"
  unfolding kthen_def by (rule sim_bind)

lemma sim_if [sim_intros]:
  "(b \<Longrightarrow> prog_sim R m n) \<Longrightarrow> (\<not> b \<Longrightarrow> prog_sim R f g) \<Longrightarrow> prog_sim R (if b then m else f) (if b then n else g)"
  by simp

lemma sim_basic [sim_intros]: "prog_sim R (kret x) (kret x)" "prog_sim R (kpanic s) (kpanic s)"
    "prog_sim R (kassert b) (kassert b)" "prog_sim R (knth xs k) (knth xs k)"
  by (auto simp: prog_sim_def kprog knth_def)

lemma sim_get [sim_intros]: "(\<And>p q. pf_sim R p q \<Longrightarrow> g q = f p) \<Longrightarrow> prog_sim R (kget f) (kget g)"
  by (auto simp: prog_sim_def kprog)

lemma sim_mod [sim_intros]: "(\<And>p q. pf_sim R p q \<Longrightarrow> pf_sim R (f p) (g q)) \<Longrightarrow> prog_sim R (kmod f) (kmod g)"
  by (auto simp: prog_sim_def kprog)

text \<open>Two callbacks that keep the relation, whatever text they are given.\<close>

definition send_sim :: "('c \<Rightarrow> 'd \<Rightarrow> bool) \<Rightarrow> 'c sendfunc \<Rightarrow> 'd sendfunc \<Rightarrow> bool" where
  "send_sim R f g \<longleftrightarrow> (\<forall>str c d. R c d \<longrightarrow> R (f str c) (g str d))"

lemma sim_print [sim_intros]: "send_sim R f g \<Longrightarrow> prog_sim R (pf_print f str) (pf_print g str)"
  unfolding pf_print_def by (rule sim_mod) (simp add: pf_sim_def send_sim_def)

lemma sim_fill [sim_intros]: "send_sim R f g \<Longrightarrow> prog_sim R (pf_fill f n) (pf_fill g n)"
proof (induction n)
  case (Suc n)
  then show ?case by (auto intro!: sim_intros simp: pf_sim_def)
qed (auto intro!: sim_intros)

lemma sim_endfield [sim_intros]: "prog_sim R pf_endfield pf_endfield"
  unfolding pf_endfield_def by (rule sim_mod) (simp add: pf_sim_def)

lemma sim_modifier [sim_intros]: "prog_sim R (pf_modifier ch) (pf_modifier ch)"
  unfolding pf_modifier_def by (intro sim_intros) (simp_all add: pf_sim_def)

lemma sim_va [sim_intros]: "prog_sim R pf_va_word pf_va_word" "prog_sim R pf_va_str pf_va_str"
  unfolding pf_va_word_def pf_va_str_def
  by (intro sim_bind sim_get; auto simp: pf_sim_def split: list.split vararg.split intro!: sim_intros)+

lemma sim_getnum [sim_intros]: "prog_sim R (pf_getnum ch) (pf_getnum ch)"
  unfolding pf_getnum_def by (intro sim_intros) (simp_all add: pf_sim_def)

lemma sim_setbase [sim_intros]: "prog_sim R (pf_setbase ch) (pf_setbase ch)"
  unfolding pf_setbase_def by (intro sim_intros) (simp_all add: pf_sim_def)

lemma sim_printstuff [sim_intros]: "send_sim R f g \<Longrightarrow> prog_sim R (pf_printstuff f a b c) (pf_printstuff g a b c)"
  unfolding pf_printstuff_def by (intro sim_bind sim_get) (auto simp: pf_sim_def Let_def intro!: sim_intros)

lemma sim_convert [sim_intros]: "prog_sim R (pf_convert base buf x n) (pf_convert base buf x n)"
proof (induction base buf x n rule: pf_convert.induct)
  case (1 base buf x n)
  show ?case unfolding pf_convert.simps [of base buf x n] Let_def
    by (intro sim_intros 1 [OF _ _ refl refl])
qed

lemma sim_printnum [sim_intros]: "send_sim R f g \<Longrightarrow> prog_sim R (pf_printnum f) (pf_printnum g)"
  unfolding pf_printnum_def
  by (intro sim_bind sim_get) (auto simp: pf_sim_def Let_def split: prod.split intro!: sim_intros)

lemma sim_send [sim_intros]: "send_sim R f g \<Longrightarrow> prog_sim R (pf_send f ch) (pf_send g ch)"
  unfolding pf_send_def by (intro sim_intros) (simp_all add: pf_sim_def)

lemma sim_run: "send_sim R f g \<Longrightarrow> prog_sim R (pf_run f fmt) (pf_run g fmt)"
  by (induction fmt) (simp_all add: sim_intros)

lemma vprintf_sim:
  assumes "send_sim R f g" and "R c d"
  shows "case vprintf f fmt ap c of
      Done n c' \<Rightarrow> \<exists>d'. vprintf g fmt ap d = Done n d' \<and> R c' d'
    | Fail e c' \<Rightarrow> \<exists>d'. vprintf g fmt ap d = Fail e d' \<and> R c' d'
    | Panic s \<Rightarrow> vprintf g fmt ap d = Panic s"
proof -
  have "pf_sim R (pf_start c ap) (pf_start d ap)" using assms(2) by (simp add: pf_sim_def pf_start_def)
  from sim_run [OF assms(1), of fmt, unfolded prog_sim_def, rule_format, OF this] show ?thesis
    by (cases "pf_run f fmt (pf_start c ap)") (auto simp: vprintf_def pf_sim_def)
qed

text \<open>A client that just collects the text: its length is what is counted.\<close>

abbreviation collect :: "byte list sendfunc" where "collect str out \<equiv> out @ str"

definition pf_counted :: "byte list pf \<Rightarrow> bool" where
  "pf_counted pf \<longleftrightarrow> pf_charcount pf = wrap32 (int (length (pf_clientdata pf)))"

lemma wrap32_add: "wrap32 (wrap32 a + b) = wrap32 (a + b)"
  by (simp add: wrap32_def mod_simps) (metis (no_types, opaque_lifting) add.assoc add.commute mod_add_left_eq)

lemma counted_print [khoare_intros]: "kkeeps pf_counted (pf_print collect str)"
  unfolding pf_print_def by (rule kkeeps_mod) (simp add: pf_counted_def wrap32_add)

lemma counted_fill [khoare_intros]: "kkeeps pf_counted (pf_fill collect n)"
  by (induction n) (auto intro!: khoare_intros)

lemma counted_quiet [khoare_intros]:
  "(\<And>pf. pf_charcount (f pf) = pf_charcount pf) \<Longrightarrow> (\<And>pf. pf_clientdata (f pf) = pf_clientdata pf) \<Longrightarrow>
   kkeeps pf_counted (kmod f)"
  by (rule kkeeps_mod) (simp add: pf_counted_def)

lemma counted_fields [khoare_intros]:
  "kkeeps pf_counted pf_endfield" "kkeeps pf_counted (pf_modifier ch)" "kkeeps pf_counted pf_va_word"
  "kkeeps pf_counted pf_va_str" "kkeeps pf_counted (pf_setbase ch)"
  unfolding pf_endfield_def pf_modifier_def pf_va_word_def pf_va_str_def pf_setbase_def
  by (auto intro!: khoare_intros split: list.split vararg.split)

lemma counted_number [khoare_intros]: "kkeeps pf_counted (pf_getnum ch)"
  unfolding pf_getnum_def by (auto intro!: khoare_intros)

lemma counted_printstuff [khoare_intros]: "kkeeps pf_counted (pf_printstuff collect a b c)"
  unfolding pf_printstuff_def by (rule kkeeps_bind) (auto simp: Let_def intro!: khoare_intros)

lemma counted_convert [khoare_intros]: "kkeeps pf_counted (pf_convert base buf x n)"
proof (induction base buf x n rule: pf_convert.induct)
  case (1 base buf x n)
  then show ?case unfolding pf_convert.simps [of base buf x n] Let_def by (auto intro!: khoare_intros)
qed

lemma counted_printnum [khoare_intros]: "kkeeps pf_counted (pf_printnum collect)"
  unfolding pf_printnum_def
  by (intro kkeeps_bind kkeeps_get) (auto simp: Let_def split: prod.split intro!: khoare_intros)

lemma counted_send [khoare_intros]: "kkeeps pf_counted (pf_send collect ch)"
  unfolding pf_send_def by (auto intro!: khoare_intros)

lemma vprintf_count: "vprintf collect fmt ap [] = Done n out \<Longrightarrow> n = wrap32 (int (length out))"
proof -
  assume run: "vprintf collect fmt ap [] = Done n out"
  have "kkeeps pf_counted (pf_run collect fmt)" by (induction fmt) (auto intro!: khoare_intros)
  moreover have "pf_counted (pf_start [] ap)" by (simp add: pf_counted_def pf_start_def wrap32_id)
  ultimately show ?thesis using run
    by (cases "pf_run collect fmt (pf_start [] ap)") (auto simp: vprintf_def kkeeps_def pf_counted_def dest!: spec [of _ "pf_start [] ap"])
qed

text \<open>What \<^verbatim>\<open>__snprintf_send\<close> has stored, given all the text it was sent.\<close>

definition snp_holds :: "byte list \<Rightarrow> nat \<Rightarrow> byte list \<Rightarrow> snp \<Rightarrow> bool" where
  "snp_holds buf buflen out snp \<longleftrightarrow> snp_buflen snp = buflen \<and> snp_bufpos snp = min buflen (length out) \<and>
     snp_buf snp = take buflen out @ drop (min buflen (length out)) buf"

lemma snprintf_send_holds:
  "buflen \<le> length buf \<Longrightarrow> snp_holds buf buflen out snp \<Longrightarrow> snp_holds buf buflen (out @ str) (snprintf_send str snp)"
proof (induction str arbitrary: out snp)
  case (Cons c str)
  let ?snp = "if snp_bufpos snp < snp_buflen snp
      then snp\<lparr>snp_buf := (snp_buf snp)[snp_bufpos snp := c], snp_bufpos := snp_bufpos snp + 1\<rparr> else snp"
  have "snp_holds buf buflen (out @ [c]) ?snp"
  proof (cases "length out < buflen")
    case True
    have "(out @ drop (length out) buf)[length out := c] = out @ c # drop (Suc (length out)) buf"
      using True Cons.prems(1) by (simp add: list_update_append Cons_nth_drop_Suc [symmetric])
    with True Cons.prems show ?thesis by (simp add: snp_holds_def)
  next
    case False
    with Cons.prems show ?thesis by (simp add: snp_holds_def)
  qed
  from Cons.IH [OF Cons.prems(1) this] show ?case by simp
qed simp

lemma vsnprintf_stores:
  assumes "vprintf collect fmt ap [] = Done n out" and "len \<le> length buf"
  shows "vsnprintf len fmt ap buf = Done n
    (if len = 0 then buf else take (len - 1) out @ [0] @ drop (min len (length out + 1)) buf)"
proof -
  let ?l = "if len = 0 then 0 else len - 1"
  let ?snp = "\<lparr>snp_buf = buf, snp_buflen = ?l, snp_bufpos = 0\<rparr>"
  have "send_sim (snp_holds buf ?l) collect snprintf_send"
    using snprintf_send_holds [of ?l buf] assms(2) by (auto simp: send_sim_def)
  moreover have "snp_holds buf ?l [] ?snp" by (simp add: snp_holds_def)
  ultimately obtain snp where snp: "vprintf snprintf_send fmt ap ?snp = Done n snp" "snp_holds buf ?l out snp"
    using vprintf_sim [of "snp_holds buf ?l" collect snprintf_send "[]" ?snp fmt ap] assms(1) by auto
  have "(snp_buf snp)[snp_bufpos snp := 0] = take (len - 1) out @ [0] @ drop (min len (length out + 1)) buf" if "0 < len"
  proof -
    let ?k = "min ?l (length out)"
    have "(take ?l out @ drop ?k buf)[?k := 0] = take ?l out @ (drop ?k buf)[0 := 0]"
      by (simp add: list_update_append min_def)
    also have "(drop ?k buf)[0 := 0] = 0 # drop (Suc ?k) buf"
      using that assms(2) by (simp add: Cons_nth_drop_Suc [symmetric] min_def)
    finally show ?thesis using snp(2) that by (auto simp: snp_holds_def min_def Suc_diff_Suc split: if_splits)
  qed
  with snp show ?thesis by (auto simp: vsnprintf_def snp_holds_def)
qed

text \<open>
  C19. \<^verbatim>\<open>vsnprintf\<close> stores in the buffer the first \<open>len - 1\<close> characters of the text the format stands for, and a
  terminator after them; nothing past the \<open>len\<close> bytes is written, and nothing at all when \<open>len\<close> is 0. It returns
  the length of the whole text, truncated or not.
\<close>

theorem vsnprintf_bounded:
  assumes "vprintf collect fmt ap [] = Done n out" and "len \<le> length buf"
  shows "n = wrap32 (int (length out)) \<and> vsnprintf len fmt ap buf = Done n
    (if len = 0 then buf else take (len - 1) out @ [0] @ drop (min len (length out + 1)) buf)"
  using vsnprintf_stores [OF assms] vprintf_count [OF assms(1)] by blast

subsection \<open>Decimal numbers\<close>

lemma printstuff_plain:
  assumes "pf_spacing pf = 0" and "length (a @ b @ c) < 2 ^ 31"
  shows "pf_printstuff collect a b c pf = Done () (pf\<lparr>pf_clientdata := pf_clientdata pf @ a @ b @ c,
     pf_charcount := wrap32 (pf_charcount pf + int (length (a @ b @ c)))\<rparr>)"
proof -
  have "wrap32 (int (length a + length b + length c)) = int (length a + length b + length c)"
    using assms(2) by (intro wrap32_id) auto
  then show ?thesis
    using assms(1) by (simp add: pf_printstuff_def kprog pf_print_def Let_def wrap32_add add.assoc)
qed

text \<open>The decimal representation of a number.\<close>

definition decimal :: "u32 \<Rightarrow> byte list" where
  "decimal w = (if sint w < 0 then [45] else []) @
     map ((!) pf_digits) (digits_of 10 (unat (if sint w < 0 then - w else w)))"

lemma digits_10_length: "length (digits_of 10 (unat (w :: u32))) \<le> 10"
proof -
  have "unat w < 2 ^ 32" using unsigned_less [of w] by simp
  then show ?thesis by (intro digits_of_length) auto
qed

lemma pf_buf: "(replicate 12 0)[11 := 0] = replicate 12 (0 :: byte)"
  by (simp add: list_update_same_conv)

lemma printnum_decimal:
  assumes "pf_base pf = 10" "pf_spacing pf = 0" "\<not> pf_baseprefix pf"
    and "out = (if pf_sign pf \<noteq> 0 then [45] else []) @ map ((!) pf_digits) (digits_of 10 (unat (pf_num pf)))"
  shows "pf_printnum collect pf = Done () (pf\<lparr>pf_clientdata := pf_clientdata pf @ out,
     pf_charcount := wrap32 (pf_charcount pf + int (length out))\<rparr>)"
proof -
  let ?ds = "digits_of 10 (unat (pf_num pf))"
  note c = convert_number [of 10, OF _ refl refl refl, of "pf_num pf"]
  have "length out < 2 ^ 31" using digits_10_length [of "pf_num pf"] by (simp add: assms(4))
  then have "pf_printstuff collect (if pf_sign pf \<noteq> 0 then [45] else []) []
      (map ((!) pf_digits) (digits_of 10 (unat (pf_num pf)))) pf =
    Done () (pf\<lparr>pf_clientdata := pf_clientdata pf @ out, pf_charcount := wrap32 (pf_charcount pf + int (length out))\<rparr>)"
    using printstuff_plain [OF assms(2)] by (simp add: assms(4))
  moreover have "takeWhile (\<lambda>c. c \<noteq> 0) (map ((!) pf_digits) (digits_of 10 (unat (pf_num pf))) @ [0]) =
      map ((!) pf_digits) (digits_of 10 (unat (pf_num pf)))" using c(2) by simp
  moreover have "pf_convert 10 (replicate 12 0) 11 (unat (pf_num pf)) pf =
      Done (replicate (11 - length ?ds) 0 @ map ((!) pf_digits) ?ds @ [0], 11 - length ?ds) pf"
    using c(1) [of pf] by simp
  ultimately show ?thesis
    using assms(1,3) by (simp add: pf_printnum_def kprog pf_buf)
qed

lemma vprintf_decimal: "\<exists>n. vprintf collect [37, 100] [ArgWord w] [] = Done n (decimal w)"
proof -
  let ?num = "if sint w < 0 then - w else w"
  have mods: "strchr_const pf_modifiers 100 = None" "strchr_const pf_integers 100 \<noteq> None"
    by (simp_all add: pf_modifiers_def pf_integers_def)
  let ?pf = "(pf_start [] [])\<lparr>pf_in_pct := True, pf_sign := (if sint w < 0 then -1 else 0), pf_num := ?num, pf_base := 10\<rparr>"
  have num: "kthen (pf_getnum 100) (pf_setbase 100) ((pf_start [] [ArgWord w])\<lparr>pf_in_pct := True\<rparr>) = Done () ?pf"
    by (simp add: pf_getnum_def pf_setbase_def pf_va_word_def kprog pf_start_def)
  have "\<exists>n. pf_printnum collect ?pf = Done () (?pf\<lparr>pf_clientdata := decimal w, pf_charcount := n\<rparr>)"
    using printnum_decimal [of ?pf, OF _ _ _ refl] by (simp add: pf_start_def decimal_def)
  then obtain n where prt: "pf_printnum collect ?pf = Done () (?pf\<lparr>pf_clientdata := decimal w, pf_charcount := n\<rparr>)" ..
  have "pf_run collect [37, 100] (pf_start [] [ArgWord w]) =
      kthen (kthen (pf_getnum 100) (pf_setbase 100)) (kthen (pf_printnum collect) pf_endfield)
        ((pf_start [] [ArgWord w])\<lparr>pf_in_pct := True\<rparr>)"
    using mods by (simp add: pf_send_def kprog pf_start_def split: outcome.split)
  also have "\<dots> = pf_endfield (?pf\<lparr>pf_clientdata := decimal w, pf_charcount := n\<rparr>)"
    by (simp only: kthen_run [of "kthen _ _"] num outcome.case) (simp only: kthen_run outcome.case prt)
  finally show ?thesis by (simp add: vprintf_def pf_endfield_def kprog)
qed

lemma digit_index: "d < 10 \<Longrightarrow> strchr_const atoi_digits (cval (pf_digits ! d)) = Some d \<and> pf_digits ! d \<noteq> 0 \<and>
    pf_digits ! d \<notin> {9, 32, 45}"
proof -
  have "\<forall>d \<in> set [0..<10]. strchr_const atoi_digits (cval (pf_digits ! d)) = Some d \<and> pf_digits ! d \<noteq> 0 \<and>
      pf_digits ! d \<notin> {9, 32, 45}"
    by (simp add: upt_rec atoi_digits_def pf_digits_def)
  then show "d < 10 \<Longrightarrow> ?thesis" by simp
qed

lemma atoi_loop_run:
  "\<forall>d \<in> set ds. d < 10 \<Longrightarrow> str_at m s (map ((!) pf_digits) ds) \<Longrightarrow> v < 2 ^ 32 \<Longrightarrow>
   atoi_loop m s v = Some (foldl (\<lambda>v d. v * 10 + d) v ds mod 2 ^ 32)"
proof (induction ds arbitrary: s v)
  case Nil
  then show ?case by (simp add: atoi_loop.simps [of m s])
next
  case (Cons d ds)
  have fold_mod: "foldl (\<lambda>v d. v * 10 + d) (x mod 2 ^ 32) ds mod 2 ^ 32 = foldl (\<lambda>v d. v * 10 + d) x ds mod 2 ^ 32" for x :: nat
  proof (induction ds arbitrary: x)
    case (Cons e es)
    have "(x mod 2 ^ 32 * 10 + e) mod 2 ^ 32 = (x * 10 + e) mod 2 ^ 32" by (metis mod_add_left_eq mod_mult_left_eq)
    then show ?case using Cons [of "x mod 2 ^ 32 * 10 + e"] Cons [of "x * 10 + e"] by simp
  qed simp
  show ?case
    using Cons.prems Cons.IH [of "s + 1" "(v * 10 + d) mod 2 ^ 32"] digit_index [of d] fold_mod [of "v * 10 + d"]
    by (simp add: atoi_loop.simps [of m s])
qed

lemma wrap32_sint: "wrap32 i = sint (word_of_int i :: u32)"
  by (simp add: int_word_sint wrap32_def)

lemma atoi_decimal:
  assumes "str_at m s (decimal w)"
  shows "atoi m s = Some (sint w)"
proof -
  let ?num = "if sint w < 0 then - w else w"
  let ?ds = "digits_of 10 (unat ?num)"
  have ds: "\<forall>d \<in> set ?ds. d < 10" using digits_of_less [of 10] by simp
  have "unat x < 2 ^ 32" for x :: u32 using unsigned_less [of x] by simp
  then have val: "foldl (\<lambda>v d. v * 10 + d) 0 ?ds mod 2 ^ 32 = unat ?num"
    using digits_of_value [of 10 "unat ?num"] by (simp only: digits_value_def mod_less)
  have loop: "atoi_loop m t 0 = Some (unat ?num)" if "str_at m t (map ((!) pf_digits) ?ds)" for t
    using atoi_loop_run [OF ds that, of 0] val by simp
  show ?thesis
  proof (cases "sint w < 0")
    case True
    then have "m s = 45" "atoi_loop m (s + 1) 0 = Some (unat (- w))"
      using assms loop [of "s + 1"] by (simp_all add: decimal_def)
    moreover have "wrap32 (- int (unat (- w))) = sint w" by (simp add: wrap32_sint)
    ultimately show ?thesis by (simp add: atoi_def atoi_space.simps [of m s])
  next
    case False
    then have "atoi_loop m s 0 = Some (unat w)" using assms loop [of s] by (simp add: decimal_def)
    moreover have "m s \<notin> {9, 32, 45}"
    proof -
      obtain d e where "?ds = d # e" by (metis digits_of.simps append_is_Nil_conv neq_Nil_conv)
      then show ?thesis using assms False ds digit_index [of d] by (simp add: decimal_def)
    qed
    moreover have "wrap32 (int (unat w)) = sint w" by (simp add: wrap32_sint)
    ultimately show ?thesis by (simp add: atoi_def atoi_space.simps [of m s])
  qed
qed

lemma decimal_bounds: "length (decimal w) \<le> 11" "0 \<notin> set (decimal w)"
proof -
  show "length (decimal w) \<le> 11" using digits_10_length [of w] digits_10_length [of "- w"] by (simp add: decimal_def)
  show "0 \<notin> set (decimal w)"
    using digits_of_less [of 10] digit_index by (fastforce simp: decimal_def)
qed

text \<open>
  C20. Printing and parsing numbers agree: the text that \<^verbatim>\<open>snprintf\<close> makes of a 32-bit integer with \<^verbatim>\<open>%d\<close>, in a buffer
  of at least twelve bytes, is read back by \<^verbatim>\<open>atoi\<close> as the same integer, the smallest one included.
\<close>

theorem snprintf_atoi_roundtrip:
  assumes "12 \<le> len" and "len \<le> length buf"
  shows "\<exists>n buf'. vsnprintf len [37, 100] [ArgWord w] buf = Done n buf' \<and> length buf' = length buf \<and>
    atoi (mem_put a buf' m) a = Some (sint w)"
proof -
  obtain n where v: "vprintf collect [37, 100] [ArgWord w] [] = Done n (decimal w)" using vprintf_decimal by blast
  let ?buf = "take (len - 1) (decimal w) @ [0] @ drop (min len (length (decimal w) + 1)) buf"
  have run: "vsnprintf len [37, 100] [ArgWord w] buf = Done n ?buf" using vsnprintf_stores [OF v assms(2)] assms(1) by simp
  have buf: "?buf = decimal w @ [0] @ drop (length (decimal w) + 1) buf"
    using assms(1) decimal_bounds(1) [of w] by (simp add: min_absorb2)
  have "str_at (mem_put a ?buf m) a (decimal w)"
  proof -
    let ?d = "drop (length (decimal w) + 1) buf"
    have "str_at (mem_put a (decimal w @ [0]) m) a (decimal w)" using decimal_bounds(2) [of w] by (intro str_at_put) auto
    moreover have "mem_put a (decimal w @ [0] @ ?d) m x = mem_put a (decimal w @ [0]) m x"
      if "a \<le> x" "x \<le> a + length (decimal w)" for x
      using that by (auto simp: mem_put_def nth_append)
    ultimately show ?thesis unfolding buf
      using str_at_cong [of a "decimal w" "mem_put a (decimal w @ [0] @ ?d) m" "mem_put a (decimal w @ [0]) m"] by blast
  qed
  then have "atoi (mem_put a ?buf m) a = Some (sint w)" by (rule atoi_decimal)
  moreover have "length ?buf = length buf" unfolding buf using assms decimal_bounds(1) [of w] by simp
  ultimately show ?thesis using run by blast
qed

theorem snprintf_atoi_roundtrip_witness:
  "(12 :: nat) \<le> 12 \<and> (\<exists>n buf'. vsnprintf 12 [37, 100] [ArgWord 0x80000000] (replicate 12 7) = Done n buf' \<and>
     atoi (mem_put 100 buf' (\<lambda>_. 7)) 100 = Some (- 2147483648))"
proof -
  have "sint (0x80000000 :: u32) = - 2147483648" by simp
  then show ?thesis using snprintf_atoi_roundtrip [of 12 "replicate 12 7" "0x80000000" 100 "\<lambda>_. 7"] by auto
qed

theorem vsnprintf_bounded_witness:
  "vprintf collect [104, 105, 33] [] [] = Done 3 [104, 105, 33] \<and>
   vsnprintf 3 [104, 105, 33] [] (replicate 5 7) = Done 3 [104, 105, 0, 7, 7]"
proof -
  have v: "vprintf collect [104, 105, 33] [] [] = Done 3 [104, 105, 33]"
    by (simp add: vprintf_def pf_send_def kprog pf_start_def pf_print_def wrap32_def)
  with vsnprintf_bounded [OF v, of 3 "replicate 5 7"] show ?thesis by (simp add: numeral_eq_Suc)
qed

end
