(* ===== verification/KHeap.thy ===== *)
theory KHeap
  imports Prelude
begin

text \<open>
  The kernel's memory: \<^verbatim>\<open>kern/arch/mips/mips/ram.c\<close>, the page allocator of \<^verbatim>\<open>dumbvm.c\<close>, and \<^verbatim>\<open>kmalloc\<close> and \<^verbatim>\<open>kfree\<close> of \<^verbatim>\<open>kern/lib/kheap.c\<close>. Physical
  memory is handed out page by page and never taken back. The heap fills pages with blocks of one of eight sizes; the free blocks
  of a page are linked through their first word, so the lists live in the memory they manage.

  Addresses are numbers below \<open>2 ^ 32\<close>, additions that the source does on 32 bits are reduced explicitly. Memory is a function from addresses to
  words. The static arrays of the source are functions of the index. Masking an address with \<^verbatim>\<open>PAGE_FRAME\<close> is rounding it down to a
  multiple of 4096.
\<close>

unbundle bit_operations_syntax

subsection \<open>Physical memory\<close>

abbreviation (input) PAGE_SIZE :: nat where "PAGE_SIZE \<equiv> 4096"
abbreviation (input) MIPS_KSEG0 :: nat where "MIPS_KSEG0 \<equiv> 0x80000000"

definition uadd32 :: "nat \<Rightarrow> nat \<Rightarrow> nat" where
  "uadd32 a b = (a + b) mod 2 ^ 32"

record ram =
  firstpaddr :: nat
  lastpaddr :: nat

definition ram_bootstrap :: "nat \<Rightarrow> nat \<Rightarrow> ram" where
  "ram_bootstrap ramsize firstfree =
     (let ramsize = (if ramsize > 508 * 1024 * 1024 then 508 * 1024 * 1024 else ramsize)
      in \<lparr>firstpaddr = nat ((int firstfree - int MIPS_KSEG0) mod 2 ^ 32), lastpaddr = ramsize\<rparr>)"

definition ram_stealmem :: "nat \<Rightarrow> (ram, nat) prog" where
  "ram_stealmem npages =
     (let size = (npages * PAGE_SIZE) mod 2 ^ 32 in
      kbind (kget (\<lambda>r. r)) (\<lambda>r.
      if uadd32 (firstpaddr r) size > lastpaddr r then kret 0
      else kthen (kmod (\<lambda>r. r\<lparr>firstpaddr := uadd32 (firstpaddr r) size\<rparr>)) (kret (firstpaddr r))))"

definition ram_getsize :: "(ram, nat \<times> nat) prog" where
  "ram_getsize =
     kbind (kget (\<lambda>r. r)) (\<lambda>r.
     kthen (kmod (\<lambda>r. r\<lparr>firstpaddr := 0, lastpaddr := 0\<rparr>)) (kret (firstpaddr r, lastpaddr r)))"

definition getppages :: "nat \<Rightarrow> (ram, nat) prog" where
  "getppages npages = ram_stealmem npages"

definition PADDR_TO_KVADDR :: "nat \<Rightarrow> nat" where
  "PADDR_TO_KVADDR pa = uadd32 pa MIPS_KSEG0"

definition alloc_kpages :: "nat \<Rightarrow> (ram, nat) prog" where
  "alloc_kpages npages =
     kbind (getppages npages) (\<lambda>pa. kret (if pa = 0 then 0 else PADDR_TO_KVADDR pa))"

definition free_kpages :: "nat \<Rightarrow> (ram, unit) prog" where
  "free_kpages addr = kret ()"

subsection \<open>Heap state\<close>

abbreviation (input) NSIZES :: nat where "NSIZES \<equiv> 8"
abbreviation (input) LARGEST_SUBPAGE_SIZE :: nat where "LARGEST_SUBPAGE_SIZE \<equiv> 2048"
abbreviation (input) NPAGEREFS :: nat where "NPAGEREFS \<equiv> 256"
abbreviation (input) INUSE_WORDS :: nat where "INUSE_WORDS \<equiv> 8"
abbreviation (input) INVALID_OFFSET :: nat where "INVALID_OFFSET \<equiv> 0xffff"

definition sizes :: "nat list" where
  "sizes = [16, 32, 64, 128, 256, 512, 1024, 2048]"

text \<open>Pointers to \<^verbatim>\<open>struct pageref\<close> are indices into \<^verbatim>\<open>pagerefs\<close>.\<close>

record pageref =
  next_samesize :: "nat option"
  next_all :: "nat option"
  pageaddr_and_blocktype :: nat
  freelist_offset :: nat
  nfree :: nat

definition PR_PAGEADDR :: "pageref \<Rightarrow> nat" where
  "PR_PAGEADDR pr = pageaddr_and_blocktype pr - pageaddr_and_blocktype pr mod PAGE_SIZE"

definition PR_BLOCKTYPE :: "pageref \<Rightarrow> nat" where
  "PR_BLOCKTYPE pr = pageaddr_and_blocktype pr mod PAGE_SIZE"

definition MKPAB :: "nat \<Rightarrow> nat \<Rightarrow> nat" where
  "MKPAB pa blk = (pa - pa mod PAGE_SIZE) + blk mod PAGE_SIZE"

record kheap =
  pagerefs :: "nat \<Rightarrow> pageref"
  pagerefs_inuse :: "nat \<Rightarrow> u32"
  sizebases :: "nat \<Rightarrow> nat option"
  allbase :: "nat option"
  kh_mem :: "nat \<Rightarrow> nat"
  kh_ram :: ram

definition on_ram :: "(ram, 'a) prog \<Rightarrow> (kheap, 'a) prog" where
  "on_ram = kzoom kh_ram (\<lambda>x h. h\<lparr>kh_ram := x\<rparr>)"

definition get_pr :: "nat \<Rightarrow> (kheap, pageref) prog" where
  "get_pr p = kget (\<lambda>h. pagerefs h p)"

definition mod_pr :: "nat \<Rightarrow> (pageref \<Rightarrow> pageref) \<Rightarrow> (kheap, unit) prog" where
  "mod_pr p f = kmod (\<lambda>h. h\<lparr>pagerefs := (pagerefs h)(p := f (pagerefs h p))\<rparr>)"

definition load_word :: "nat \<Rightarrow> (kheap, nat) prog" where
  "load_word a = kget (\<lambda>h. kh_mem h a)"

definition store_word :: "nat \<Rightarrow> nat \<Rightarrow> (kheap, unit) prog" where
  "store_word a v = kmod (\<lambda>h. h\<lparr>kh_mem := (kh_mem h)(a := v)\<rparr>)"

text \<open>The loop of \<^verbatim>\<open>fill_deadbeef\<close> at word \<open>i\<close> with \<open>n\<close> words to go.\<close>

fun fill_words :: "nat \<Rightarrow> nat \<Rightarrow> nat \<Rightarrow> (kheap, unit) prog" where
  "fill_words ptr i 0 = kret ()"
| "fill_words ptr i (Suc n) = kthen (store_word (ptr + 4 * i) 0xdeadbeef) (fill_words ptr (Suc i) n)"

definition fill_deadbeef :: "nat \<Rightarrow> nat \<Rightarrow> (kheap, unit) prog" where
  "fill_deadbeef ptr len = fill_words ptr 0 (len div 4)"

subsection \<open>Page references\<close>

text \<open>The inner loop of \<^verbatim>\<open>allocpageref\<close>; \<^verbatim>\<open>k\<close> is \<open>push_bit j 1\<close> and becomes 0 after 32 rounds.\<close>

fun allocbit :: "u32 \<Rightarrow> nat \<Rightarrow> nat \<Rightarrow> nat option" where
  "allocbit w j 0 = None"
| "allocbit w j (Suc n) = (if (w AND push_bit j 1) = 0 then Some j else allocbit w (Suc j) n)"

fun allocpageref_from :: "nat \<Rightarrow> nat \<Rightarrow> (kheap, nat option) prog" where
  "allocpageref_from i 0 = kret None"
| "allocpageref_from i (Suc n) =
     kbind (kget (\<lambda>h. pagerefs_inuse h i)) (\<lambda>w.
     if w = 0xffffffff then allocpageref_from (Suc i) n
     else case allocbit w 0 32 of None \<Rightarrow> kpanic ''assertion failed''
     | Some j \<Rightarrow> kthen (kmod (\<lambda>h. h\<lparr>pagerefs_inuse := (pagerefs_inuse h)(i := w OR push_bit j 1)\<rparr>))
                 (kret (Some (i * 32 + j))))"

definition allocpageref :: "(kheap, nat option) prog" where
  "allocpageref = allocpageref_from 0 INUSE_WORDS"

definition freepageref :: "nat \<Rightarrow> (kheap, unit) prog" where
  "freepageref p =
     kthen (kassert (p < NPAGEREFS))
     (kbind (kget (\<lambda>h. pagerefs_inuse h (p div 32))) (\<lambda>w.
      kthen (kassert ((w AND push_bit (p mod 32) 1) \<noteq> 0))
      (kmod (\<lambda>h. h\<lparr>pagerefs_inuse := (pagerefs_inuse h)(p div 32 := w AND NOT (push_bit (p mod 32) 1))\<rparr>))))"

text \<open>
  The loops of \<^verbatim>\<open>remove_lists\<close> walk along the pointers to the next element. \<open>nxt\<close> and \<open>set_nxt\<close> read and write the link
  of the list at hand, \<open>g\<close> is the element whose link is looked at. A list of more than \<open>n\<close> elements would go in circles.
\<close>

fun unlink_from :: "(pageref \<Rightarrow> nat option) \<Rightarrow> (nat option \<Rightarrow> pageref \<Rightarrow> pageref) \<Rightarrow> nat \<Rightarrow> nat \<Rightarrow> nat \<Rightarrow> (kheap, unit) prog" where
  "unlink_from nxt set_nxt pr g 0 = kpanic ''endless list''"
| "unlink_from nxt set_nxt pr g (Suc n) =
     kbind (get_pr g) (\<lambda>gr.
     case nxt gr of None \<Rightarrow> kret ()
     | Some q \<Rightarrow> if q = pr then kbind (get_pr pr) (\<lambda>r. mod_pr g (set_nxt (nxt r)))
                 else unlink_from nxt set_nxt pr q n)"

definition remove_samesize :: "nat \<Rightarrow> nat \<Rightarrow> (kheap, unit) prog" where
  "remove_samesize pr blktype =
     kbind (kget (\<lambda>h. sizebases h blktype)) (\<lambda>base.
     case base of None \<Rightarrow> kret ()
     | Some g \<Rightarrow> if g = pr then kbind (get_pr pr) (\<lambda>r. kmod (\<lambda>h. h\<lparr>sizebases := (sizebases h)(blktype := next_samesize r)\<rparr>))
                 else unlink_from next_samesize (\<lambda>x r. r\<lparr>next_samesize := x\<rparr>) pr g NPAGEREFS)"

definition remove_all :: "nat \<Rightarrow> (kheap, unit) prog" where
  "remove_all pr =
     kbind (kget allbase) (\<lambda>base.
     case base of None \<Rightarrow> kret ()
     | Some g \<Rightarrow> if g = pr then kbind (get_pr pr) (\<lambda>r. kmod (\<lambda>h. h\<lparr>allbase := next_all r\<rparr>))
                 else unlink_from next_all (\<lambda>x r. r\<lparr>next_all := x\<rparr>) pr g NPAGEREFS)"

definition remove_lists :: "nat \<Rightarrow> nat \<Rightarrow> (kheap, unit) prog" where
  "remove_lists pr blktype =
     kthen (kassert (blktype < NSIZES)) (kthen (remove_samesize pr blktype) (remove_all pr))"

subsection \<open>Allocation\<close>

fun blocktype_from :: "nat \<Rightarrow> nat \<Rightarrow> nat \<Rightarrow> (kheap, nat) prog" where
  "blocktype_from sz i 0 = kpanic ''Subpage allocator cannot handle allocation''"
| "blocktype_from sz i (Suc n) = (if sz \<le> sizes ! i then kret i else blocktype_from sz (Suc i) n)"

definition blocktype :: "nat \<Rightarrow> (kheap, nat) prog" where
  "blocktype sz = blocktype_from sz 0 NSIZES"

text \<open>The part of \<^verbatim>\<open>subpage_kmalloc\<close> at the label \<^verbatim>\<open>doalloc\<close>.\<close>

definition doalloc :: "nat \<Rightarrow> (kheap, nat) prog" where
  "doalloc p =
     kbind (get_pr p) (\<lambda>pr.
     kthen (kassert (freelist_offset pr < PAGE_SIZE))
     (let prpage = PR_PAGEADDR pr; fla = prpage + freelist_offset pr; n = nfree pr - 1 in
      kbind (load_word fla) (\<lambda>fl.
      kthen (mod_pr p (\<lambda>r. r\<lparr>nfree := n\<rparr>))
      (kthen (if fl \<noteq> 0
              then kthen (kassert (n > 0))
                   (kthen (kassert (usub32 fl prpage < PAGE_SIZE))
                   (mod_pr p (\<lambda>r. r\<lparr>freelist_offset := usub32 fl prpage\<rparr>)))
              else kthen (kassert (n = 0)) (mod_pr p (\<lambda>r. r\<lparr>freelist_offset := INVALID_OFFSET\<rparr>)))
      (kret fla)))))"

text \<open>The search for a page with a free block, along \<^verbatim>\<open>next_samesize\<close>.\<close>

fun find_page :: "nat \<Rightarrow> nat option \<Rightarrow> nat \<Rightarrow> (kheap, nat option) prog" where
  "find_page blktype None n = kret None"
| "find_page blktype (Some p) 0 = kpanic ''endless list''"
| "find_page blktype (Some p) (Suc n) =
     kbind (get_pr p) (\<lambda>pr.
     kthen (kassert (PR_BLOCKTYPE pr = blktype))
     (if nfree pr > 0 then kret (Some p) else find_page blktype (next_samesize pr) n))"

text \<open>The loop that links the blocks of a new page, at block \<open>i\<close> with \<open>n\<close> to go; \<open>fl\<close> is the block linked last.\<close>

fun link_blocks :: "nat \<Rightarrow> nat \<Rightarrow> nat \<Rightarrow> nat \<Rightarrow> nat \<Rightarrow> (kheap, nat) prog" where
  "link_blocks fla sz i fl 0 = kret fl"
| "link_blocks fla sz i fl (Suc n) =
     kthen (store_word (fla + i * sz) (fla + (i - 1) * sz))
     (kthen (kassert (fla + i * sz \<noteq> fla + (i - 1) * sz))
     (link_blocks fla sz (Suc i) (fla + i * sz) n))"

definition new_page :: "nat \<Rightarrow> nat \<Rightarrow> nat \<Rightarrow> (kheap, unit) prog" where
  "new_page p prpage blktype =
     (let size = sizes ! blktype; n = PAGE_SIZE div size in
      kthen (mod_pr p (\<lambda>r. r\<lparr>pageaddr_and_blocktype := MKPAB prpage blktype, nfree := n\<rparr>))
      (kthen (store_word prpage 0)
      (kbind (link_blocks prpage size 1 prpage (n - 1)) (\<lambda>fla.
      (kthen (mod_pr p (\<lambda>r. r\<lparr>freelist_offset := fla - prpage\<rparr>))
      (kthen (kassert (fla - prpage = (n - 1) * size))
      (kbind (kget (\<lambda>h. h)) (\<lambda>h.
       kthen (mod_pr p (\<lambda>r. r\<lparr>next_samesize := sizebases h blktype, next_all := allbase h\<rparr>))
       (kmod (\<lambda>h. h\<lparr>sizebases := (sizebases h)(blktype := Some p), allbase := Some p\<rparr>))))))))))"

definition subpage_kmalloc :: "nat \<Rightarrow> (kheap, nat) prog" where
  "subpage_kmalloc sz =
     kbind (blocktype sz) (\<lambda>blktype.
     kbind (kget (\<lambda>h. sizebases h blktype)) (\<lambda>base.
     kbind (find_page blktype base NPAGEREFS) (\<lambda>found.
     case found of Some p \<Rightarrow> doalloc p
     | None \<Rightarrow>
       kbind allocpageref (\<lambda>pr.
       case pr of None \<Rightarrow> kret 0
       | Some p \<Rightarrow>
         kbind (on_ram (alloc_kpages 1)) (\<lambda>prpage.
         if prpage = 0 then kthen (freepageref p) (kret 0)
         else kthen (new_page p prpage blktype) (doalloc p))))))"

subsection \<open>Freeing\<close>

fun find_owner :: "nat \<Rightarrow> nat option \<Rightarrow> nat \<Rightarrow> (kheap, nat option) prog" where
  "find_owner ptr None n = kret None"
| "find_owner ptr (Some p) 0 = kpanic ''endless list''"
| "find_owner ptr (Some p) (Suc n) =
     kbind (get_pr p) (\<lambda>pr.
     kthen (kassert (PR_BLOCKTYPE pr < NSIZES))
     (if PR_PAGEADDR pr \<le> ptr \<and> ptr < PR_PAGEADDR pr + PAGE_SIZE then kret (Some p) else find_owner ptr (next_all pr) n))"

text \<open>\<open>subpage_kfree\<close> says whether the address was on one of the pages of the heap.\<close>

definition subpage_kfree :: "nat \<Rightarrow> (kheap, bool) prog" where
  "subpage_kfree ptr =
     kbind (kget allbase) (\<lambda>base.
     kbind (find_owner ptr base NPAGEREFS) (\<lambda>found.
     case found of None \<Rightarrow> kret False
     | Some p \<Rightarrow>
       kbind (get_pr p) (\<lambda>pr.
       let prpage = PR_PAGEADDR pr; blktype = PR_BLOCKTYPE pr; size = sizes ! blktype; offset = ptr - prpage;
           n = (nfree pr + 1) mod 2 ^ 16 in
       if offset \<ge> PAGE_SIZE \<or> offset mod size \<noteq> 0 then kpanic ''kfree: subpage free of invalid addr''
       else kthen (fill_deadbeef ptr size)
            (kthen (store_word (prpage + offset) (if freelist_offset pr = INVALID_OFFSET then 0 else prpage + freelist_offset pr))
            (kthen (mod_pr p (\<lambda>r. r\<lparr>freelist_offset := offset, nfree := n\<rparr>))
            (kthen (kassert (n \<le> PAGE_SIZE div size))
            (kthen (if n = PAGE_SIZE div size
                    then kthen (remove_lists p blktype) (kthen (on_ram (free_kpages prpage)) (freepageref p))
                    else kret ())
            (kret True))))))))"

subsection \<open>The interface\<close>

definition kmalloc :: "nat \<Rightarrow> (kheap, nat) prog" where
  "kmalloc sz =
     (if sz \<ge> LARGEST_SUBPAGE_SIZE
      then on_ram (alloc_kpages (uadd32 sz (PAGE_SIZE - 1) div PAGE_SIZE))
      else subpage_kmalloc sz)"

definition kfree :: "nat \<Rightarrow> (kheap, unit) prog" where
  "kfree ptr =
     (if ptr = 0 then kret ()
      else kbind (subpage_kfree ptr) (\<lambda>done.
           if done then kret ()
           else kthen (kassert (ptr mod PAGE_SIZE = 0)) (on_ram (free_kpages ptr))))"

subsection \<open>Execution\<close>

lemma on_ram_run [kprog]: "on_ram m h = (case m (kh_ram h) of Done x t \<Rightarrow> Done x (h\<lparr>kh_ram := t\<rparr>)
    | Fail e t \<Rightarrow> Fail e (h\<lparr>kh_ram := t\<rparr>) | Panic p \<Rightarrow> Panic p)"
  by (simp add: on_ram_def kzoom_def)

lemma get_pr_run [kprog]: "get_pr p h = Done (pagerefs h p) h"
  by (simp add: get_pr_def kprog)

lemma mod_pr_run [kprog]: "mod_pr p f h = Done () (h\<lparr>pagerefs := (pagerefs h)(p := f (pagerefs h p))\<rparr>)"
  by (simp add: mod_pr_def kprog)

lemma load_word_run [kprog]: "load_word a h = Done (kh_mem h a) h"
  by (simp add: load_word_def kprog)

lemma store_word_run [kprog]: "store_word a v h = Done () (h\<lparr>kh_mem := (kh_mem h)(a := v)\<rparr>)"
  by (simp add: store_word_def kprog)

subsection \<open>Sizes\<close>

definition bsize :: "nat \<Rightarrow> nat" where "bsize t = sizes ! t"
definition bcount :: "nat \<Rightarrow> nat" where "bcount t = PAGE_SIZE div sizes ! t"

lemma less_8_cases: "(t::nat) < 8 \<Longrightarrow> t = 0 \<or> t = 1 \<or> t = 2 \<or> t = 3 \<or> t = 4 \<or> t = 5 \<or> t = 6 \<or> t = 7"
  by arith

lemma bsize_facts:
  assumes "t < NSIZES"
  shows "16 \<le> bsize t" "bsize t \<le> 2048" "bcount t * bsize t = PAGE_SIZE" "2 \<le> bcount t" "bcount t \<le> 256" "4 dvd bsize t"
  using less_8_cases [OF assms] by (auto simp: bsize_def bcount_def sizes_def)

lemma blocktype_run:
  assumes "sz \<le> 2048"
  shows "\<exists>t. blocktype sz h = Done t h \<and> t < NSIZES \<and> sz \<le> bsize t"
  using assms by (simp add: blocktype_def numeral_eq_Suc bsize_def sizes_def kprog)

subsection \<open>The bits of the page references\<close>

lemma and_push_bit_zero: "(w AND push_bit j 1 = (0::u32)) \<longleftrightarrow> \<not> bit w j" if "j < 32"
  using that by (simp add: push_bit_of_1 and_exp_eq_0_iff_not_bit)

lemma bit_or_push: "bit (w OR push_bit j 1) k \<longleftrightarrow> bit w k \<or> k = j" if "j < 32" for w :: u32
  using that by (auto simp: bit_or_iff bit_exp_iff)

lemma bit_and_not_push: "bit (w AND NOT (push_bit j 1)) k \<longleftrightarrow> bit w k \<and> k \<noteq> j" if "j < 32" for w :: u32
  using that by (auto simp: bit_and_iff bit_not_iff bit_exp_iff dest: bit_imp_le_length)

lemma allocbit_Some: "allocbit w j n = Some k \<Longrightarrow> j + n \<le> 32 \<Longrightarrow> k < j + n \<and> \<not> bit w k"
proof (induction n arbitrary: j)
  case (Suc n)
  show ?case
  proof (cases "w AND push_bit j 1 = 0")
    case True
    then show ?thesis using Suc.prems and_push_bit_zero [of j w] by simp
  next
    case False
    then show ?thesis using Suc.prems Suc.IH [of "Suc j"] by simp
  qed
qed simp

lemma allocbit_None: "allocbit w j n = None \<Longrightarrow> j + n \<le> 32 \<Longrightarrow> j \<le> k \<Longrightarrow> k < j + n \<Longrightarrow> bit w k"
proof (induction n arbitrary: j)
  case (Suc n)
  then have "w AND push_bit j 1 \<noteq> 0" "allocbit w (Suc j) n = None" by (auto split: if_splits)
  then show ?case using Suc.prems Suc.IH [of "Suc j"] and_push_bit_zero [of j w] by (cases "k = j") auto
qed simp

lemma full_word: "(\<And>k. k < 32 \<Longrightarrow> bit w k) \<Longrightarrow> w = (0xffffffff :: u32)"
proof -
  assume "\<And>k. k < 32 \<Longrightarrow> bit w k"
  then have "w = - 1" by (intro bit_word_eqI) simp
  then show ?thesis by simp
qed

definition used :: "kheap \<Rightarrow> nat set" where
  "used h = {p. p < NPAGEREFS \<and> bit (pagerefs_inuse h (p div 32)) (p mod 32)}"

lemma allocpageref_from_run:
  assumes "i + n = INUSE_WORDS"
  shows "allocpageref_from i n h = Done None h \<or>
    (\<exists>p h'. allocpageref_from i n h = Done (Some p) h' \<and> p < NPAGEREFS \<and> p \<notin> used h \<and> used h' = insert p (used h) \<and>
       h' = h\<lparr>pagerefs_inuse := pagerefs_inuse h'\<rparr>)"
  using assms
proof (induction n arbitrary: i)
  case 0
  then show ?case by (simp add: kprog)
next
  case (Suc n)
  let ?w = "pagerefs_inuse h i"
  show ?case
  proof (cases "?w = 0xffffffff")
    case True
    then show ?thesis using Suc.IH [of "Suc i"] Suc.prems by (simp add: kprog)
  next
    case False
    obtain j where j: "allocbit ?w 0 32 = Some j"
      using False allocbit_None [of ?w 0 32] full_word [of ?w] by (cases "allocbit ?w 0 32") auto
    then have jb: "j < 32" "\<not> bit ?w j" using allocbit_Some by fastforce+
    let ?p = "i * 32 + j" and ?h = "h\<lparr>pagerefs_inuse := (pagerefs_inuse h)(i := ?w OR push_bit j 1)\<rparr>"
    have p: "?p div 32 = i" "?p mod 32 = j" "?p < NPAGEREFS" using jb(1) Suc.prems by auto
    have "q \<in> used ?h \<longleftrightarrow> q \<in> insert ?p (used h)" for q
    proof (cases "q div 32 = i")
      case True
      then have "q = i * 32 + q mod 32" by (metis div_mult_mod_eq)
      then have "q mod 32 = j \<longleftrightarrow> q = ?p" using p(2) by metis
      then show ?thesis using True p(3) bit_or_push [OF jb(1), of ?w] by (auto simp: used_def simp del: push_bit_of_1)
    qed (use p(1) in \<open>auto simp: used_def\<close>)
    then have "used ?h = insert ?p (used h)" by blast
    moreover have "?p \<notin> used h" using jb p by (simp add: used_def)
    ultimately show ?thesis using False j p by (auto simp: kprog)
  qed
qed

lemma freepageref_run:
  assumes "p \<in> used h"
  shows "\<exists>h'. freepageref p h = Done () h' \<and> used h' = used h - {p} \<and> h' = h\<lparr>pagerefs_inuse := pagerefs_inuse h'\<rparr>"
proof -
  let ?w = "pagerefs_inuse h (p div 32)" and ?j = "p mod 32"
  let ?h = "h\<lparr>pagerefs_inuse := (pagerefs_inuse h)(p div 32 := ?w AND NOT (push_bit ?j 1))\<rparr>"
  have p: "p < NPAGEREFS" "bit ?w ?j" using assms by (auto simp: used_def)
  then have "freepageref p h = Done () ?h" using and_push_bit_zero [of ?j ?w] by (simp add: freepageref_def kprog)
  moreover have "q \<in> used ?h \<longleftrightarrow> q \<in> used h - {p}" for q
  proof (cases "q div 32 = p div 32")
    case True
    then have "q mod 32 = ?j \<longleftrightarrow> q = p" by (metis div_mult_mod_eq)
    then show ?thesis using True bit_and_not_push [of ?j ?w] by (auto simp: used_def simp del: push_bit_of_1)
  qed (auto simp: used_def)
  ultimately have "used ?h = used h - {p}" by blast
  with \<open>freepageref p h = Done () ?h\<close> show ?thesis by auto
qed

subsection \<open>The lists\<close>

fun chain :: "(nat \<Rightarrow> nat option) \<Rightarrow> nat option \<Rightarrow> nat list \<Rightarrow> bool" where
  "chain f b [] \<longleftrightarrow> b = None"
| "chain f b (x # xs) \<longleftrightarrow> b = Some x \<and> chain f (f x) xs"

lemma chain_cong: "chain f b xs \<Longrightarrow> (\<And>x. x \<in> set xs \<Longrightarrow> f x = g x) \<Longrightarrow> chain g b xs"
  by (induction xs arbitrary: b) auto

text \<open>The free blocks of a page, linked through memory; address 0 is the null pointer.\<close>

fun fl_chain :: "(nat \<Rightarrow> nat) \<Rightarrow> nat \<Rightarrow> nat list \<Rightarrow> bool" where
  "fl_chain m a [] \<longleftrightarrow> a = 0"
| "fl_chain m a (x # xs) \<longleftrightarrow> a = x \<and> x \<noteq> 0 \<and> fl_chain m (m x) xs"

lemma fl_chain_cong: "fl_chain m a xs \<Longrightarrow> (\<And>x. x \<in> set xs \<Longrightarrow> m x = m' x) \<Longrightarrow> fl_chain m' a xs"
  by (induction xs arbitrary: a) auto

definition fl_head :: "nat list \<Rightarrow> nat" where
  "fl_head xs = (case xs of [] \<Rightarrow> 0 | x # _ \<Rightarrow> x)"

definition blocks :: "nat \<Rightarrow> nat \<Rightarrow> nat set" where
  "blocks pg t = (\<lambda>k. pg + k * bsize t) ` {..<bcount t}"

abbreviation page_of :: "kheap \<Rightarrow> nat \<Rightarrow> nat" where "page_of h p \<equiv> PR_PAGEADDR (pagerefs h p)"
abbreviation type_of :: "kheap \<Rightarrow> nat \<Rightarrow> nat" where "type_of h p \<equiv> PR_BLOCKTYPE (pagerefs h p)"

text \<open>A page in good order with free blocks \<open>fl\<close>.\<close>

definition pr_ok :: "(nat \<Rightarrow> nat) \<Rightarrow> pageref \<Rightarrow> nat list \<Rightarrow> bool" where
  "pr_ok m pr fl \<longleftrightarrow> PR_BLOCKTYPE pr < NSIZES \<and> MIPS_KSEG0 \<le> PR_PAGEADDR pr \<and> PR_PAGEADDR pr + PAGE_SIZE \<le> 2 ^ 32 \<and>
     nfree pr = length fl \<and> distinct fl \<and> set fl \<subseteq> blocks (PR_PAGEADDR pr) (PR_BLOCKTYPE pr) \<and>
     freelist_offset pr = (if fl = [] then INVALID_OFFSET else fl_head fl - PR_PAGEADDR pr) \<and> fl_chain m (fl_head fl) fl"

definition ram_ok :: "ram \<Rightarrow> bool" where
  "ram_ok r \<longleftrightarrow> 0 < firstpaddr r \<and> firstpaddr r mod PAGE_SIZE = 0 \<and> firstpaddr r \<le> lastpaddr r \<and> lastpaddr r \<le> 508 * 1024 * 1024"

definition kh_rel :: "kheap \<Rightarrow> nat list \<Rightarrow> (nat \<Rightarrow> nat list) \<Rightarrow> bool" where
  "kh_rel h ps fl \<longleftrightarrow>
     chain (\<lambda>p. next_all (pagerefs h p)) (allbase h) ps \<and> distinct ps \<and> set ps = used h \<and>
     (\<forall>t < NSIZES. chain (\<lambda>p. next_samesize (pagerefs h p)) (sizebases h t) (filter (\<lambda>p. type_of h p = t) ps)) \<and>
     (\<forall>p \<in> set ps. pr_ok (kh_mem h) (pagerefs h p) (fl p) \<and> length (fl p) < bcount (type_of h p) \<and>
        page_of h p + PAGE_SIZE \<le> MIPS_KSEG0 + firstpaddr (kh_ram h)) \<and>
     inj_on (page_of h) (set ps) \<and> ram_ok (kh_ram h)"

text \<open>The blocks in use, with their sizes.\<close>

definition live :: "kheap \<Rightarrow> nat list \<Rightarrow> (nat \<Rightarrow> nat list) \<Rightarrow> (nat \<times> nat) set" where
  "live h ps fl = (\<Union>p \<in> set ps. (blocks (page_of h p) (type_of h p) - set (fl p)) \<times> {bsize (type_of h p)})"

definition heap_pages :: "kheap \<Rightarrow> nat list \<Rightarrow> nat set" where
  "heap_pages h ps = page_of h ` set ps"

lemma UN_change:
  assumes "p \<in> S" and "F' p = insert y (F p)" and "\<And>q. q \<in> S \<Longrightarrow> q \<noteq> p \<Longrightarrow> F' q = F q"
  shows "(\<Union>q\<in>S. F' q) = insert y (\<Union>q\<in>S. F q)"
proof -
  have "(\<Union>q\<in>S. F' q) = F' p \<union> (\<Union>q\<in>S - {p}. F' q)" "(\<Union>q\<in>S. F q) = F p \<union> (\<Union>q\<in>S - {p}. F q)" using assms(1) by blast+
  moreover have "(\<Union>q\<in>S - {p}. F' q) = (\<Union>q\<in>S - {p}. F q)" using assms(3) by (intro SUP_cong) auto
  ultimately show ?thesis using assms(2) by simp
qed

lemma page_aligned: "PR_PAGEADDR pr mod PAGE_SIZE = 0"
  by (simp add: PR_PAGEADDR_def)

lemma same_page:
  assumes "a mod PAGE_SIZE = 0" "b mod PAGE_SIZE = 0" "a \<le> x" "x < a + PAGE_SIZE" "b \<le> x" "x < b + PAGE_SIZE"
  shows "a = (b :: nat)"
proof -
  obtain i j where "a = 4096 * i" "b = 4096 * j" using assms(1,2) by (auto elim!: dvdE simp: mod_eq_0_iff_dvd)
  with assms(3-) show ?thesis by simp
qed

lemma pages_apart:
  assumes "a mod PAGE_SIZE = 0" "b mod PAGE_SIZE = 0" "a \<noteq> b"
  shows "a + PAGE_SIZE \<le> b \<or> b + PAGE_SIZE \<le> (a :: nat)"
proof -
  obtain i j where "a = 4096 * i" "b = 4096 * j" using assms(1,2) by (auto elim!: dvdE simp: mod_eq_0_iff_dvd)
  with assms(3) show ?thesis by (cases i j rule: linorder_cases) auto
qed

lemma blocks_card: "t < NSIZES \<Longrightarrow> card (blocks pg t) = bcount t"
  using bsize_facts(1) [of t] by (simp add: blocks_def card_image inj_on_def)

lemma blocks_range:
  assumes "t < NSIZES" and "a \<in> blocks pg t"
  shows "pg \<le> a" "a + bsize t \<le> pg + PAGE_SIZE" "a < pg + PAGE_SIZE" "(a - pg) mod bsize t = 0"
proof -
  obtain k where k: "k < bcount t" "a = pg + k * bsize t" using assms(2) by (auto simp: blocks_def)
  then show "pg \<le> a" "(a - pg) mod bsize t = 0" by simp_all
  have "Suc k * bsize t \<le> bcount t * bsize t" using k(1) by (intro mult_le_mono1) simp
  then show "a + bsize t \<le> pg + PAGE_SIZE" using k(2) bsize_facts(3) [OF assms(1)] by simp
  then show "a < pg + PAGE_SIZE" using bsize_facts(1) [OF assms(1)] by simp
qed

text \<open>Two blocks of a page do not overlap.\<close>

lemma blocks_disjoint:
  assumes "a \<in> blocks pg t" and "b \<in> blocks pg t" and "a \<noteq> b"
  shows "a + bsize t \<le> b \<or> b + bsize t \<le> a"
proof -
  obtain j k where jk: "a = pg + j * bsize t" "b = pg + k * bsize t" using assms(1,2) by (auto simp: blocks_def)
  have "Suc i * n \<le> l * n" if "i < l" for i l n :: nat using that by (intro mult_le_mono1) simp
  from this [of j k "bsize t"] this [of k j "bsize t"] show ?thesis using jk assms(3) by (cases j k rule: linorder_cases) auto
qed

lemma kh_rel_length: "kh_rel h ps fl \<Longrightarrow> length ps \<le> NPAGEREFS"
proof -
  assume r: "kh_rel h ps fl"
  then have "card (set ps) \<le> card {..<NPAGEREFS}" by (intro card_mono) (auto simp: kh_rel_def used_def)
  moreover have "distinct ps" using r by (simp add: kh_rel_def)
  ultimately show ?thesis by (simp only: distinct_card card_lessThan)
qed

lemma find_page_run:
  assumes "chain (\<lambda>p. next_samesize (pagerefs h p)) b qs" and "length qs \<le> n" and "\<And>p. p \<in> set qs \<Longrightarrow> type_of h p = t"
  shows "find_page t b n h = Done (find (\<lambda>p. nfree (pagerefs h p) > 0) qs) h"
  using assms
proof (induction qs arbitrary: b n)
  case (Cons p qs)
  then obtain n' where "n = Suc n'" by (cases n) auto
  with Cons show ?case by (simp add: kprog)
qed (simp add: kprog)

lemma find_owner_run:
  assumes "chain (\<lambda>p. next_all (pagerefs h p)) b qs" and "length qs \<le> n" and "\<And>p. p \<in> set qs \<Longrightarrow> type_of h p < NSIZES"
  shows "find_owner a b n h = Done (find (\<lambda>p. page_of h p \<le> a \<and> a < page_of h p + PAGE_SIZE) qs) h"
  using assms
proof (induction qs arbitrary: b n)
  case (Cons p qs)
  then obtain n' where "n = Suc n'" by (cases n) auto
  with Cons show ?case by (simp add: kprog)
qed (simp add: kprog)

subsection \<open>Taking a block off a page\<close>

definition take_block :: "pageref \<Rightarrow> nat list \<Rightarrow> pageref" where
  "take_block pr xs = pr\<lparr>nfree := length xs, freelist_offset := (if xs = [] then INVALID_OFFSET else fl_head xs - PR_PAGEADDR pr)\<rparr>"

lemma take_block_fields [simp]:
  "PR_PAGEADDR (take_block pr xs) = PR_PAGEADDR pr" "PR_BLOCKTYPE (take_block pr xs) = PR_BLOCKTYPE pr"
  "next_all (take_block pr xs) = next_all pr" "next_samesize (take_block pr xs) = next_samesize pr"
  by (simp_all add: take_block_def PR_PAGEADDR_def PR_BLOCKTYPE_def)

lemma doalloc_run:
  assumes ok: "pr_ok (kh_mem h) (pagerefs h p) (x # xs)"
  shows "doalloc p h = Done x (h\<lparr>pagerefs := (pagerefs h)(p := take_block (pagerefs h p) xs)\<rparr>)"
    and "pr_ok (kh_mem h) (take_block (pagerefs h p) xs) xs"
proof -
  let ?pr = "pagerefs h p"
  have t: "PR_BLOCKTYPE ?pr < NSIZES" and mem: "x \<in> blocks (PR_PAGEADDR ?pr) (PR_BLOCKTYPE ?pr)" "set xs \<subseteq> blocks (PR_PAGEADDR ?pr) (PR_BLOCKTYPE ?pr)"
    and top: "PR_PAGEADDR ?pr + PAGE_SIZE \<le> 2 ^ 32" using ok by (auto simp: pr_ok_def)
  have off: "freelist_offset ?pr = x - PR_PAGEADDR ?pr" "x - PR_PAGEADDR ?pr < PAGE_SIZE" "PR_PAGEADDR ?pr + freelist_offset ?pr = x"
    using ok blocks_range [OF t mem(1)] by (auto simp: pr_ok_def fl_head_def)
  have nxt: "kh_mem h x = fl_head xs" using ok by (cases xs) (auto simp: pr_ok_def fl_head_def)
  show "pr_ok (kh_mem h) (take_block ?pr xs) xs"
    using ok nxt by (auto simp: pr_ok_def take_block_def fl_head_def PR_PAGEADDR_def PR_BLOCKTYPE_def split: list.splits)
  have nf: "nfree ?pr - 1 = length xs" using ok by (simp add: pr_ok_def)
  show "doalloc p h = Done x (h\<lparr>pagerefs := (pagerefs h)(p := take_block ?pr xs)\<rparr>)"
  proof (cases xs)
    case Nil
    then show ?thesis using off nxt nf by (simp add: doalloc_def kprog Let_def take_block_def fl_head_def)
  next
    case (Cons y ys)
    have y: "PR_PAGEADDR ?pr \<le> y" "y < PR_PAGEADDR ?pr + PAGE_SIZE" "y \<noteq> 0"
      using blocks_range [OF t, of y "PR_PAGEADDR ?pr"] mem(2) Cons ok by (auto simp: pr_ok_def)
    then have "usub32 y (PR_PAGEADDR ?pr) = y - PR_PAGEADDR ?pr" using top by (intro usub32_eq) simp_all
    then show ?thesis using off nxt nf y Cons by (auto simp: doalloc_def kprog Let_def take_block_def fl_head_def)
  qed
qed

subsection \<open>Making a page\<close>

text \<open>The memory of a page whose blocks are linked downwards, the lowest being last.\<close>

definition linked :: "nat \<Rightarrow> nat \<Rightarrow> nat \<Rightarrow> (nat \<Rightarrow> nat) \<Rightarrow> (nat \<Rightarrow> nat) \<Rightarrow> bool" where
  "linked pg sz n m m' \<longleftrightarrow> (\<forall>k. 1 \<le> k \<and> k < n \<longrightarrow> m' (pg + k * sz) = pg + (k - 1) * sz) \<and>
     (\<forall>a. (\<forall>k. 1 \<le> k \<and> k < n \<longrightarrow> a \<noteq> pg + k * sz) \<longrightarrow> m' a = m a)"

lemma link_blocks_run:
  assumes "0 < sz" and "linked pg sz i m (kh_mem h)" and "1 \<le> i" and "fl = pg + (i - 1) * sz"
  shows "\<exists>m'. link_blocks pg sz i fl n h = Done (pg + (i + n - 1) * sz) (h\<lparr>kh_mem := m'\<rparr>) \<and> linked pg sz (i + n) m m'"
  using assms(2-4)
proof (induction n arbitrary: i h fl)
  case 0
  then show ?case by (auto simp: kprog intro!: exI [of _ "kh_mem h"])
next
  case (Suc n)
  let ?h = "h\<lparr>kh_mem := (kh_mem h)(pg + i * sz := pg + (i - 1) * sz)\<rparr>"
  have ne: "pg + i * sz \<noteq> pg + (i - 1) * sz" using assms(1) Suc.prems(2) by (cases i) auto
  have "pg + k * sz = pg + i * sz \<longleftrightarrow> k = i" for k using assms(1) by simp
  then have "linked pg sz (Suc i) m (kh_mem ?h)" using Suc.prems by (auto simp: linked_def less_Suc_eq)
  from Suc.IH [OF this, of "pg + i * sz"] ne show ?case by (auto simp: kprog)
qed

definition page_blocks :: "nat \<Rightarrow> nat \<Rightarrow> nat \<Rightarrow> nat list" where
  "page_blocks pg sz n = map (\<lambda>k. pg + k * sz) (rev [0..<n])"

lemma page_blocks_chain:
  assumes "linked pg sz N m0 m" and "m pg = 0" and "0 < pg" and "n \<le> N"
  shows "fl_chain m (fl_head (page_blocks pg sz n)) (page_blocks pg sz n)"
  using assms(4)
proof (induction n)
  case 0
  then show ?case by (simp add: page_blocks_def fl_head_def)
next
  case (Suc n)
  have "m (pg + n * sz) = fl_head (page_blocks pg sz n)"
  proof (cases n)
    case 0
    then show ?thesis using assms(2) by (simp add: page_blocks_def fl_head_def)
  next
    case (Suc k)
    then have "1 \<le> n \<and> n < N" using \<open>Suc n \<le> N\<close> by simp
    then have "m (pg + n * sz) = pg + (n - 1) * sz" using assms(1) unfolding linked_def by blast
    then show ?thesis using Suc by (simp add: page_blocks_def fl_head_def)
  qed
  with Suc assms(3) show ?case by (simp add: page_blocks_def fl_head_def)
qed

lemma page_blocks_facts:
  assumes "t < NSIZES"
  shows "set (page_blocks pg (bsize t) (bcount t)) = blocks pg t" "distinct (page_blocks pg (bsize t) (bcount t))"
    "length (page_blocks pg (bsize t) (bcount t)) = bcount t"
    "fl_head (page_blocks pg (bsize t) (bcount t)) = pg + (bcount t - 1) * bsize t"
  using bsize_facts(1,4) [OF assms]
  by (auto simp: page_blocks_def blocks_def distinct_map inj_on_def fl_head_def atLeast0LessThan split: list.split)
    (cases "bcount t"; simp)+

lemma new_page_run:
  assumes t: "t < NSIZES" and pg: "pg mod PAGE_SIZE = 0" "MIPS_KSEG0 \<le> pg" "pg + PAGE_SIZE \<le> 2 ^ 32"
  shows "\<exists>m pr. new_page p pg t h = Done () (h\<lparr>pagerefs := (pagerefs h)(p := pr), kh_mem := m,
      sizebases := (sizebases h)(t := Some p), allbase := Some p\<rparr>) \<and>
    PR_PAGEADDR pr = pg \<and> PR_BLOCKTYPE pr = t \<and> next_all pr = allbase h \<and> next_samesize pr = sizebases h t \<and>
    pr_ok m pr (page_blocks pg (bsize t) (bcount t)) \<and> (\<forall>a. a < pg \<or> pg + PAGE_SIZE \<le> a \<longrightarrow> m a = kh_mem h a)"
proof -
  let ?n = "bcount t" and ?sz = "bsize t"
  let ?pr1 = "(pagerefs h p)\<lparr>pageaddr_and_blocktype := MKPAB pg t, nfree := ?n\<rparr>"
  let ?h1 = "h\<lparr>pagerefs := (pagerefs h)(p := ?pr1), kh_mem := (kh_mem h)(pg := 0)\<rparr>"
  let ?pr = "?pr1\<lparr>freelist_offset := (?n - 1) * ?sz, next_samesize := sizebases h t, next_all := allbase h\<rparr>"
  note f = bsize_facts [OF t]
  have "linked pg ?sz 1 ((kh_mem h)(pg := 0)) (kh_mem ?h1)" by (auto simp: linked_def)
  then obtain m where m: "link_blocks pg ?sz 1 pg (?n - 1) ?h1 = Done (pg + (?n - 1) * ?sz) (?h1\<lparr>kh_mem := m\<rparr>)" "linked pg ?sz ?n ((kh_mem h)(pg := 0)) m"
    using link_blocks_run [of ?sz pg 1 "(kh_mem h)(pg := 0)" ?h1 pg "?n - 1"] f(1,4) by auto
  have run: "new_page p pg t h = Done () (h\<lparr>pagerefs := (pagerefs h)(p := ?pr), kh_mem := m,
      sizebases := (sizebases h)(t := Some p), allbase := Some p\<rparr>)"
    using m(1) by (simp add: new_page_def Let_def kprog bsize_def bcount_def)
  have pab: "MKPAB pg t = pg + t" using pg(1) t by (simp add: MKPAB_def)
  then have ad: "PR_PAGEADDR ?pr = pg" "PR_BLOCKTYPE ?pr = t" using pg(1) t by (simp_all add: PR_PAGEADDR_def PR_BLOCKTYPE_def mod_add_left_eq [symmetric])
  have m0: "m pg = 0" using m(2) f(1) by (auto simp: linked_def)
  have "fl_chain m (fl_head (page_blocks pg ?sz ?n)) (page_blocks pg ?sz ?n)" using page_blocks_chain [OF m(2) m0, of ?n] pg(2) by simp
  then have ok: "pr_ok m ?pr (page_blocks pg ?sz ?n)"
    unfolding pr_ok_def ad using page_blocks_facts [OF t, of pg] t pg f(4) by auto
  have "m a = kh_mem h a" if "a < pg \<or> pg + PAGE_SIZE \<le> a" for a
  proof -
    have "a \<noteq> pg + k * ?sz" if "k < ?n" for k
    proof -
      have "pg + k * ?sz \<in> blocks pg t" unfolding blocks_def using that by blast
      from blocks_range [OF t this] show ?thesis using \<open>a < pg \<or> pg + PAGE_SIZE \<le> a\<close> by auto
    qed
    moreover have "a \<noteq> pg" using that by auto
    ultimately show ?thesis using m(2) by (auto simp: linked_def)
  qed
  with run ad ok show ?thesis by (intro exI [of _ m] exI [of _ ?pr]) simp
qed

subsection \<open>Allocation is correct\<close>

text \<open>One page has given up a block; everything else stands.\<close>

lemma kh_rel_take:
  assumes r: "kh_rel h ps fl" and p: "p \<in> set ps" and fl: "fl p = x # xs"
    and h': "h' = h\<lparr>pagerefs := (pagerefs h)(p := take_block (pagerefs h p) xs)\<rparr>"
  shows "kh_rel h' ps (fl(p := xs))" "live h' ps (fl(p := xs)) = insert (x, bsize (type_of h p)) (live h ps fl)"
    "(x, bsize (type_of h p)) \<notin> live h ps fl"
proof -
  have same: "page_of h' q = page_of h q" "type_of h' q = type_of h q" "next_all (pagerefs h' q) = next_all (pagerefs h q)"
      "next_samesize (pagerefs h' q) = next_samesize (pagerefs h q)" for q by (simp_all add: h')
  have fields: "allbase h' = allbase h" "sizebases h' = sizebases h" "kh_mem h' = kh_mem h" "kh_ram h' = kh_ram h" "used h' = used h"
    by (simp_all add: h' used_def)
  have ok: "pr_ok (kh_mem h) (pagerefs h p) (x # xs)" using r p unfolding kh_rel_def fl [symmetric] by blast
  have "pr_ok (kh_mem h') (pagerefs h' q) ((fl(p := xs)) q) \<and> length ((fl(p := xs)) q) < bcount (type_of h' q)" if "q \<in> set ps" for q
  proof (cases "q = p")
    case True
    have "length (fl p) < bcount (type_of h p)" using r p unfolding kh_rel_def by blast
    with True fl doalloc_run(2) [OF ok] show ?thesis by (simp add: h')
  next
    case False
    have "pr_ok (kh_mem h) (pagerefs h q) (fl q)" "length (fl q) < bcount (type_of h q)" using r that unfolding kh_rel_def by blast+
    with False show ?thesis by (simp add: h')
  qed
  then show "kh_rel h' ps (fl(p := xs))" using r unfolding kh_rel_def same fields by auto
  have d: "x \<notin> set xs" "x \<in> blocks (page_of h p) (type_of h p)" using ok by (auto simp: pr_ok_def)
  then show "live h' ps (fl(p := xs)) = insert (x, bsize (type_of h p)) (live h ps fl)"
    unfolding live_def same by (intro UN_change [OF p]) (use fl in auto)
  show "(x, bsize (type_of h p)) \<notin> live h ps fl"
  proof
    assume "(x, bsize (type_of h p)) \<in> live h ps fl"
    then obtain q where q: "q \<in> set ps" "x \<in> blocks (page_of h q) (type_of h q)" "x \<notin> set (fl q)" by (auto simp: live_def)
    have t: "type_of h q < NSIZES" "type_of h p < NSIZES" using r p q(1) by (auto simp: kh_rel_def pr_ok_def)
    have "page_of h q = page_of h p"
      by (rule same_page [OF page_aligned page_aligned blocks_range(1,3) [OF t(1) q(2)] blocks_range(1,3) [OF t(2) d(2)]])
    then have "q = p" using r p q(1) by (auto simp: kh_rel_def inj_on_def)
    with q(3) fl show False by simp
  qed
qed

text \<open>A page has been added; it lies above everything that was there.\<close>

lemma kh_rel_fresh:
  assumes r: "kh_rel h ps fl" and p: "p \<notin> used h" and t: "PR_BLOCKTYPE pr = t" "t < NSIZES" and pg: "PR_PAGEADDR pr = MIPS_KSEG0 + firstpaddr (kh_ram h)"
    and links: "next_all pr = allbase h" "next_samesize pr = sizebases h t" and ok: "pr_ok m pr (x # xs)" "length xs < bcount t"
    and mem: "\<forall>a. a < PR_PAGEADDR pr \<or> PR_PAGEADDR pr + PAGE_SIZE \<le> a \<longrightarrow> m a = kh_mem h a"
    and ram: "ram_ok ram'" "firstpaddr ram' = firstpaddr (kh_ram h) + PAGE_SIZE"
    and h': "pagerefs h' = (pagerefs h)(p := take_block pr xs)" "kh_mem h' = m" "sizebases h' = (sizebases h)(t := Some p)" "allbase h' = Some p"
      "kh_ram h' = ram'" "used h' = insert p (used h)"
    and full: "set (x # xs) = blocks (PR_PAGEADDR pr) t"
  shows "kh_rel h' (p # ps) (fl(p := xs))" "live h' (p # ps) (fl(p := xs)) = insert (x, bsize t) (live h ps fl)"
proof -
  have set: "set ps = used h" "distinct ps" using r by (auto simp: kh_rel_def)
  then have pn: "p \<notin> set ps" using p by simp
  have same: "pagerefs h' q = pagerefs h q" if "q \<in> set ps" for q using that pn by (auto simp: h')
  have top: "page_of h q + PAGE_SIZE \<le> MIPS_KSEG0 + firstpaddr (kh_ram h)" "pr_ok (kh_mem h) (pagerefs h q) (fl q)"
      "length (fl q) < bcount (type_of h q)" if "q \<in> set ps" for q
    using r that by (auto simp: kh_rel_def)
  have old: "pr_ok m (pagerefs h q) (fl q)" if q: "q \<in> set ps" for q
  proof -
    have tq: "type_of h q < NSIZES" "set (fl q) \<subseteq> blocks (page_of h q) (type_of h q)" using top(2) [OF q] by (auto simp: pr_ok_def)
    have "kh_mem h x = m x" if "x \<in> set (fl q)" for x
      using mem top(1) [OF q] blocks_range(3) [OF tq(1), of x "page_of h q"] that tq(2) pg by auto
    then show ?thesis using top(2) [OF q] fl_chain_cong [of "kh_mem h" _ "fl q" m] by (simp add: pr_ok_def)
  qed
  let ?h = "h\<lparr>pagerefs := (pagerefs h)(p := pr), kh_mem := m\<rparr>"
  have new: "pr_ok m (take_block pr xs) xs" using doalloc_run(2) [of ?h p x xs] ok(1) by simp
  have pgs: "page_of h' p = PR_PAGEADDR pr" "type_of h' p = t" using t(1) by (simp_all add: h')
  have inj: "inj_on (page_of h') (insert p (set ps))"
  proof -
    have "inj_on (page_of h') (set ps)" using r same by (simp add: kh_rel_def inj_on_def)
    moreover have "page_of h' q \<noteq> page_of h' p" if "q \<in> set ps" for q using top(1) [OF that] same [OF that] pgs(1) pg by simp
    ultimately show ?thesis using pn by (force simp: inj_on_insert)
  qed
  have all: "chain (\<lambda>q. next_all (pagerefs h' q)) (allbase h') (p # ps)"
  proof -
    have "chain (\<lambda>q. next_all (pagerefs h q)) (allbase h) ps" using r by (simp add: kh_rel_def)
    then have "chain (\<lambda>q. next_all (pagerefs h' q)) (allbase h) ps" by (rule chain_cong) (simp add: same)
    then show ?thesis by (simp add: h' links)
  qed
  have sz: "chain (\<lambda>q. next_samesize (pagerefs h' q)) (sizebases h' t') (filter (\<lambda>q. type_of h' q = t') (p # ps))" if "t' < NSIZES" for t'
  proof -
    have "chain (\<lambda>q. next_samesize (pagerefs h q)) (sizebases h t') (filter (\<lambda>q. type_of h q = t') ps)" using r that by (simp add: kh_rel_def)
    moreover have "filter (\<lambda>q. type_of h' q = t') ps = filter (\<lambda>q. type_of h q = t') ps" by (rule filter_cong) (simp_all add: same)
    ultimately have "chain (\<lambda>q. next_samesize (pagerefs h' q)) (sizebases h t') (filter (\<lambda>q. type_of h' q = t') ps)"
      by (auto elim!: chain_cong simp: same)
    then show ?thesis using pgs(2) by (simp add: h' links(2))
  qed
  have per: "pr_ok (kh_mem h') (pagerefs h' q) ((fl(p := xs)) q) \<and> length ((fl(p := xs)) q) < bcount (type_of h' q) \<and>
      page_of h' q + PAGE_SIZE \<le> MIPS_KSEG0 + firstpaddr (kh_ram h')" if "q \<in> set (p # ps)" for q
  proof (cases "q = p")
    case True
    then show ?thesis using new ok(2) pgs pg ram(2) by (simp add: h')
  next
    case False
    with that have q: "q \<in> set ps" by simp
    show ?thesis using False old [OF q] top [OF q] same [OF q] ram(2) by (simp add: h')
  qed
  show "kh_rel h' (p # ps) (fl(p := xs))"
    unfolding kh_rel_def using all sz per inj ram(1) set pn h'(5,6) by simp
  have "x \<notin> set xs" using ok(1) by (simp add: pr_ok_def)
  moreover have "(\<Union>q\<in>set ps. (blocks (page_of h' q) (type_of h' q) - set ((fl(p := xs)) q)) \<times> {bsize (type_of h' q)}) = live h ps fl"
    unfolding live_def using pn same by (intro SUP_cong) auto
  ultimately show "live h' (p # ps) (fl(p := xs)) = insert (x, bsize t) (live h ps fl)"
    using full pgs by (auto simp: live_def)
qed

lemma alloc_kpages_run:
  assumes ok: "ram_ok r" and n: "n * PAGE_SIZE \<le> 2 ^ 31"
  shows "alloc_kpages n r = Done 0 r \<or>
    (alloc_kpages n r = Done (MIPS_KSEG0 + firstpaddr r) (r\<lparr>firstpaddr := firstpaddr r + n * PAGE_SIZE\<rparr>) \<and>
     ram_ok (r\<lparr>firstpaddr := firstpaddr r + n * PAGE_SIZE\<rparr>))"
proof -
  have small: "firstpaddr r + n * PAGE_SIZE < 2 ^ 32" "firstpaddr r + MIPS_KSEG0 < 2 ^ 32" using ok n by (auto simp: ram_ok_def)
  then have "uadd32 (firstpaddr r) (n * PAGE_SIZE mod 2 ^ 32) = firstpaddr r + n * PAGE_SIZE" "uadd32 (firstpaddr r) MIPS_KSEG0 = MIPS_KSEG0 + firstpaddr r"
    using n by (simp_all add: uadd32_def)
  then show ?thesis
    using ok by (auto simp: alloc_kpages_def getppages_def ram_stealmem_def PADDR_TO_KVADDR_def kprog ram_ok_def Let_def mod_add_eq [symmetric])
qed

lemma kh_rel_inuse:
  assumes "kh_rel h ps fl" and "h' = h\<lparr>pagerefs_inuse := w\<rparr>" and "used h' = used h"
  shows "kh_rel h' ps fl" "live h' ps fl = live h ps fl"
  using assms by (auto simp: kh_rel_def live_def)

text \<open>The outcome of an allocation of \<open>sz\<close> bytes.\<close>

definition allocated :: "nat \<Rightarrow> kheap \<Rightarrow> nat list \<Rightarrow> (nat \<Rightarrow> nat list) \<Rightarrow> nat \<Rightarrow> kheap \<Rightarrow> bool" where
  "allocated sz h ps fl a h' \<longleftrightarrow> (\<exists>b ps' fl'. kh_rel h' ps' fl' \<and> sz \<le> b \<and> 0 < a \<and> (a, b) \<notin> live h ps fl \<and>
     live h' ps' fl' = insert (a, b) (live h ps fl) \<and> firstpaddr (kh_ram h) \<le> firstpaddr (kh_ram h') \<and>
     heap_pages h' ps' \<subseteq> insert (MIPS_KSEG0 + firstpaddr (kh_ram h)) (heap_pages h ps) \<and>
     (\<forall>x < MIPS_KSEG0 + firstpaddr (kh_ram h). kh_mem h' x = kh_mem h x))"

definition refused :: "kheap \<Rightarrow> nat list \<Rightarrow> (nat \<Rightarrow> nat list) \<Rightarrow> kheap \<Rightarrow> bool" where
  "refused h ps fl h' \<longleftrightarrow> kh_rel h' ps fl \<and> live h' ps fl = live h ps fl \<and> kh_mem h' = kh_mem h \<and> kh_ram h' = kh_ram h \<and> heap_pages h' ps = heap_pages h ps"

lemma alloc_from_page:
  assumes r: "kh_rel h ps fl" and p: "p \<in> set ps" "nfree (pagerefs h p) > 0" and sz: "sz \<le> bsize (type_of h p)"
  shows "\<exists>a h'. doalloc p h = Done a h' \<and> allocated sz h ps fl a h'"
proof -
  have ok: "pr_ok (kh_mem h) (pagerefs h p) (fl p)" using r p(1) unfolding kh_rel_def by blast
  then obtain x xs where x: "fl p = x # xs" using p(2) by (cases "fl p") (auto simp: pr_ok_def)
  have okx: "pr_ok (kh_mem h) (pagerefs h p) (x # xs)" using ok x by simp
  then have "0 < x" by (auto simp: pr_ok_def)
  note t = kh_rel_take [OF r p(1) x refl]
  moreover have "heap_pages (h\<lparr>pagerefs := (pagerefs h)(p := take_block (pagerefs h p) xs)\<rparr>) ps = heap_pages h ps" unfolding heap_pages_def by (rule image_cong) simp_all
  ultimately show ?thesis using doalloc_run(1) [OF okx] sz \<open>0 < x\<close> unfolding allocated_def by fastforce
qed

lemma live_below:
  assumes r: "kh_rel h ps fl" and a: "(a, b) \<in> live h ps fl"
  shows "MIPS_KSEG0 \<le> a" "a + b \<le> MIPS_KSEG0 + firstpaddr (kh_ram h)"
proof -
  obtain p where p: "p \<in> set ps" "a \<in> blocks (page_of h p) (type_of h p)" "b = bsize (type_of h p)" using a by (auto simp: live_def)
  have "pr_ok (kh_mem h) (pagerefs h p) (fl p)" "page_of h p + PAGE_SIZE \<le> MIPS_KSEG0 + firstpaddr (kh_ram h)"
    using r p(1) unfolding kh_rel_def by blast+
  then show "MIPS_KSEG0 \<le> a" "a + b \<le> MIPS_KSEG0 + firstpaddr (kh_ram h)"
    using blocks_range [OF _ p(2)] p(3) by (auto simp: pr_ok_def)
qed

lemma alloc_new_page:
  assumes r: "kh_rel h ps fl" and t: "t < NSIZES" "sz \<le> bsize t" and p: "p \<notin> used h" and h1: "used h1 = insert p (used h)" "h1 = h\<lparr>pagerefs_inuse := pagerefs_inuse h1\<rparr>"
    and pg: "alloc_kpages 1 (kh_ram h) = Done (MIPS_KSEG0 + firstpaddr (kh_ram h)) ram'" "ram' = (kh_ram h)\<lparr>firstpaddr := firstpaddr (kh_ram h) + PAGE_SIZE\<rparr>" "ram_ok ram'"
  shows "\<exists>a h'. kthen (new_page p (MIPS_KSEG0 + firstpaddr (kh_ram h)) t) (doalloc p) (h1\<lparr>kh_ram := ram'\<rparr>) = Done a h' \<and> allocated sz h ps fl a h'"
proof -
  let ?pg = "MIPS_KSEG0 + firstpaddr (kh_ram h)" and ?h1 = "h1\<lparr>kh_ram := ram'\<rparr>"
  have fields: "allbase h1 = allbase h" "sizebases h1 = sizebases h" "kh_mem h1 = kh_mem h" "pagerefs h1 = pagerefs h"
    using h1(2) by (metis kheap.select_convs kheap.update_convs(2) kheap.surjective)+
  have al: "?pg mod PAGE_SIZE = 0" "?pg + PAGE_SIZE \<le> 2 ^ 32"
    using r pg(2,3) by (auto simp: kh_rel_def ram_ok_def mod_add_eq [symmetric])
  obtain m pr where m: "new_page p ?pg t ?h1 = Done () (?h1\<lparr>pagerefs := (pagerefs h)(p := pr), kh_mem := m, sizebases := (sizebases h)(t := Some p), allbase := Some p\<rparr>)"
      "PR_PAGEADDR pr = ?pg" "PR_BLOCKTYPE pr = t" "next_all pr = allbase h" "next_samesize pr = sizebases h t"
      "pr_ok m pr (page_blocks ?pg (bsize t) (bcount t))" "\<forall>a. a < ?pg \<or> ?pg + PAGE_SIZE \<le> a \<longrightarrow> m a = kh_mem h a"
    using new_page_run [OF t(1) al(1) _ al(2), of p ?h1] fields by auto
  note pb = page_blocks_facts [OF t(1), of ?pg]
  obtain x xs where x: "page_blocks ?pg (bsize t) (bcount t) = x # xs" "length xs < bcount t"
    using pb(3) bsize_facts(4) [OF t(1)] by (cases "page_blocks ?pg (bsize t) (bcount t)") auto
  define h2 where "h2 = ?h1\<lparr>pagerefs := (pagerefs h)(p := pr), kh_mem := m, sizebases := (sizebases h)(t := Some p), allbase := Some p\<rparr>"
  define h3 where "h3 = h2\<lparr>pagerefs := (pagerefs h2)(p := take_block pr xs)\<rparr>"
  have run: "kthen (new_page p ?pg t) (doalloc p) ?h1 = Done x h3"
    using m(1,6) doalloc_run(1) [of h2 p x xs] x(1) by (simp add: kprog h3_def) (simp add: h2_def)
  have f3: "pagerefs h3 = (pagerefs h)(p := take_block pr xs)" "kh_mem h3 = m" "sizebases h3 = (sizebases h)(t := Some p)" "allbase h3 = Some p"
      "kh_ram h3 = ram'" "used h3 = insert p (used h)"
    using h1(1) by (simp_all add: h3_def h2_def used_def)
  have r3: "kh_rel h3 (p # ps) (fl(p := xs))" "live h3 (p # ps) (fl(p := xs)) = insert (x, bsize t) (live h ps fl)"
    using kh_rel_fresh [OF r p m(3) t(1) _ m(4,5) _ x(2) _ pg(3) _ f3] m(2,6,7) x(1) pb(1) pg(2) by simp_all
  have xp: "?pg \<le> x" using pb(1) x(1) blocks_range(1) [OF t(1), of x ?pg] by auto
  then have "(x, bsize t) \<notin> live h ps fl" using live_below(2) [OF r, of x "bsize t"] bsize_facts(1) [OF t(1)] by auto
  moreover have "heap_pages h3 (p # ps) \<subseteq> insert ?pg (heap_pages h ps)" using m(2) by (auto simp: heap_pages_def f3(1))
  ultimately have "allocated sz h ps fl x h3"
    unfolding allocated_def using r3 t(2) xp m(7) f3(2,5) pg(2) by (intro exI [of _ "bsize t"] exI [of _ "p # ps"] exI [of _ "fl(p := xs)"]) simp
  with run show ?thesis by blast
qed

lemma subpage_kmalloc_run:
  assumes r: "kh_rel h ps fl" and sz: "sz \<le> 2048"
  shows "(\<exists>h'. subpage_kmalloc sz h = Done 0 h' \<and> refused h ps fl h') \<or> (\<exists>a h'. subpage_kmalloc sz h = Done a h' \<and> allocated sz h ps fl a h')"
proof -
  obtain t where t: "blocktype sz h = Done t h" "t < NSIZES" "sz \<le> bsize t" using blocktype_run [OF sz] by blast
  let ?qs = "filter (\<lambda>p. type_of h p = t) ps"
  have ch: "chain (\<lambda>p. next_samesize (pagerefs h p)) (sizebases h t) ?qs" using r t(2) by (simp add: kh_rel_def)
  have len: "length ?qs \<le> NPAGEREFS" using kh_rel_length [OF r] length_filter_le le_trans by blast
  have find: "find_page t (sizebases h t) NPAGEREFS h = Done (find (\<lambda>p. nfree (pagerefs h p) > 0) ?qs) h"
    by (rule find_page_run [OF ch len]) simp
  show ?thesis
  proof (cases "find (\<lambda>p. nfree (pagerefs h p) > 0) ?qs")
    case (Some p)
    then have p: "p \<in> set ps" "type_of h p = t" "nfree (pagerefs h p) > 0" by (auto simp: find_Some_iff in_set_conv_nth [symmetric] dest: nth_mem)
    with alloc_from_page [OF r p(1,3), of sz] t find Some show ?thesis by (auto simp: subpage_kmalloc_def kprog)
  next
    case None
    have head: "subpage_kmalloc sz h = kbind allocpageref (\<lambda>pr. case pr of None \<Rightarrow> kret 0 | Some p \<Rightarrow>
        kbind (on_ram (alloc_kpages 1)) (\<lambda>prpage. if prpage = 0 then kthen (freepageref p) (kret 0) else kthen (new_page p prpage t) (doalloc p))) h"
      using t(1) find None by (simp add: subpage_kmalloc_def kprog del: One_nat_def)
    have ram: "ram_ok (kh_ram h)" using r by (simp add: kh_rel_def)
    consider (full) "allocpageref h = Done None h"
      | (ref) p h1 where "allocpageref h = Done (Some p) h1" "p < NPAGEREFS" "p \<notin> used h" "used h1 = insert p (used h)" "h1 = h\<lparr>pagerefs_inuse := pagerefs_inuse h1\<rparr>"
      using allocpageref_from_run [of 0 INUSE_WORDS h] by (auto simp: allocpageref_def)
    then show ?thesis
    proof cases
      case full
      then show ?thesis using head r by (simp add: kprog refused_def)
    next
      case (ref p h1)
      have ram1: "kh_ram h1 = kh_ram h" using ref(5) by (metis kheap.select_convs(6) kheap.update_convs(2) kheap.surjective)
      let ?ram = "(kh_ram h)\<lparr>firstpaddr := firstpaddr (kh_ram h) + PAGE_SIZE\<rparr>"
      consider (none) "alloc_kpages 1 (kh_ram h) = Done 0 (kh_ram h)"
        | (page) "alloc_kpages 1 (kh_ram h) = Done (MIPS_KSEG0 + firstpaddr (kh_ram h)) ?ram" "ram_ok ?ram"
        using alloc_kpages_run [OF ram, of 1] by auto
      then show ?thesis
      proof cases
        case none
        obtain h2 where h2: "freepageref p h1 = Done () h2" "used h2 = used h1 - {p}" "h2 = h1\<lparr>pagerefs_inuse := pagerefs_inuse h2\<rparr>"
          using freepageref_run [of p h1] ref(4) by auto
        have eq: "h2 = h\<lparr>pagerefs_inuse := pagerefs_inuse h2\<rparr>" "used h2 = used h" using h2(2,3) ref(3-5) by (metis kheap.update_convs(2) kheap.surjective, auto)
        have "kh_ram h2 = kh_ram h" "kh_mem h2 = kh_mem h" using eq(1) by (metis kheap.select_convs(5,6) kheap.update_convs(2) kheap.surjective)+
        moreover have "heap_pages h2 ps = heap_pages h ps" unfolding heap_pages_def by (subst eq(1)) simp
        ultimately have "refused h ps fl h2" using kh_rel_inuse [OF r eq(1,2)] by (simp add: refused_def)
        moreover have "h1\<lparr>kh_ram := kh_ram h\<rparr> = h1" using ram1 by (cases h1) simp
        then have "freepageref p (h1\<lparr>kh_ram := kh_ram h\<rparr>) = Done () h2" using h2(1) by metis
        ultimately show ?thesis using head ref(1) none ram1 by (auto simp: kprog)
      next
        case page
        obtain a h' where "kthen (new_page p (MIPS_KSEG0 + firstpaddr (kh_ram h)) t) (doalloc p) (h1\<lparr>kh_ram := ?ram\<rparr>) = Done a h'" "allocated sz h ps fl a h'"
          using alloc_new_page [OF r t(2,3) ref(3-5) page(1) refl page(2)] by blast
        then show ?thesis using head ref(1) page(1) ram1 by (auto simp: kprog)
      qed
    qed
  qed
qed

subsection \<open>Taking a page out of the lists\<close>

definition relink :: "(pageref \<Rightarrow> nat option) \<Rightarrow> (nat option \<Rightarrow> pageref \<Rightarrow> pageref) \<Rightarrow> nat \<Rightarrow> nat \<Rightarrow> (nat \<Rightarrow> pageref) \<Rightarrow> nat \<Rightarrow> pageref" where
  "relink nxt upd p q rs = rs(q := upd (nxt (rs p)) (rs q))"

lemma unlink_from_run:
  assumes "chain (\<lambda>p. nxt (pagerefs h p)) (Some g) (g # xs)" and "p \<in> set xs" and "distinct (g # xs)" and "length xs \<le> n"
    and upd: "\<And>v r. nxt (upd v r) = v"
  shows "\<exists>q. q \<in> set (g # xs) \<and> unlink_from nxt upd p g n h = Done () (h\<lparr>pagerefs := relink nxt upd p q (pagerefs h)\<rparr>) \<and>
    chain (\<lambda>x. nxt (relink nxt upd p q (pagerefs h) x)) (Some g) (g # remove1 p xs)"
  using assms(1-4)
proof (induction xs arbitrary: g n)
  case (Cons x xs)
  obtain n' where n: "n = Suc n'" using Cons.prems(4) by (cases n) auto
  have gx: "nxt (pagerefs h g) = Some x" "chain (\<lambda>p. nxt (pagerefs h p)) (Some x) (x # xs)" using Cons.prems(1) by simp_all
  show ?case
  proof (cases "x = p")
    case True
    have "chain (\<lambda>y. nxt (relink nxt upd p g (pagerefs h) y)) (nxt (pagerefs h p)) xs"
      by (rule chain_cong [of "\<lambda>p. nxt (pagerefs h p)"]) (use gx(2) True Cons.prems(3) in \<open>auto simp: relink_def\<close>)
    moreover have "nxt (relink nxt upd p g (pagerefs h) g) = nxt (pagerefs h p)" by (simp add: relink_def upd)
    ultimately show ?thesis using gx(1) True n by (intro exI [of _ g]) (simp add: kprog, simp add: relink_def)
  next
    case False
    obtain q where q: "q \<in> set (x # xs)" "unlink_from nxt upd p x n' h = Done () (h\<lparr>pagerefs := relink nxt upd p q (pagerefs h)\<rparr>)"
        "chain (\<lambda>y. nxt (relink nxt upd p q (pagerefs h) y)) (Some x) (x # remove1 p xs)"
      using Cons.IH [OF gx(2), of n'] Cons.prems(2-4) False n by auto
    have "nxt (relink nxt upd p q (pagerefs h) g) = Some x" using q(1) Cons.prems(3) gx(1) by (auto simp: relink_def)
    then show ?thesis using q gx(1) False n by (intro exI [of _ q]) (simp add: kprog)
  qed
qed simp

text \<open>Only links of the lists differ.\<close>

definition bare :: "pageref \<Rightarrow> pageref" where
  "bare r = r\<lparr>next_samesize := None, next_all := None\<rparr>"

definition links_only :: "kheap \<Rightarrow> kheap \<Rightarrow> bool" where
  "links_only h h' \<longleftrightarrow> (\<forall>q. bare (pagerefs h' q) = bare (pagerefs h q)) \<and> kh_mem h' = kh_mem h \<and> kh_ram h' = kh_ram h \<and>
     pagerefs_inuse h' = pagerefs_inuse h"

lemma bare_fields:
  assumes "bare r = bare r'"
  shows "PR_PAGEADDR r = PR_PAGEADDR r'" "PR_BLOCKTYPE r = PR_BLOCKTYPE r'" "nfree r = nfree r'" "freelist_offset r = freelist_offset r'"
  using assms by (cases r; cases r'; simp add: bare_def PR_PAGEADDR_def PR_BLOCKTYPE_def)+

lemma pr_ok_bare: "bare r = bare r' \<Longrightarrow> pr_ok m r fl \<Longrightarrow> pr_ok m r' fl"
  using bare_fields [of r r'] by (simp add: pr_ok_def)

lemma remove_samesize_run:
  assumes ch: "chain (\<lambda>p. next_samesize (pagerefs h p)) (sizebases h t) qs" and p: "p \<in> set qs" and d: "distinct qs" and len: "length qs \<le> NPAGEREFS"
  shows "\<exists>h'. remove_samesize p t h = Done () h' \<and> links_only h h' \<and> (\<forall>q. next_all (pagerefs h' q) = next_all (pagerefs h q)) \<and> allbase h' = allbase h \<and>
    (\<forall>t'. t' \<noteq> t \<longrightarrow> sizebases h' t' = sizebases h t') \<and> (\<forall>q. q \<notin> set qs \<longrightarrow> next_samesize (pagerefs h' q) = next_samesize (pagerefs h q)) \<and>
    chain (\<lambda>p. next_samesize (pagerefs h' p)) (sizebases h' t) (remove1 p qs)"
proof (cases qs)
  case (Cons g xs)
  have b: "sizebases h t = Some g" "chain (\<lambda>p. next_samesize (pagerefs h p)) (Some g) (g # xs)" using ch Cons by auto
  show ?thesis
  proof (cases "g = p")
    case True
    then show ?thesis using b Cons by (auto simp: remove_samesize_def kprog links_only_def)
  next
    case False
    let ?u = "\<lambda>x r. r\<lparr>next_samesize := x\<rparr>"
    obtain q where q: "q \<in> set (g # xs)"
        "unlink_from next_samesize ?u p g NPAGEREFS h = Done () (h\<lparr>pagerefs := relink next_samesize ?u p q (pagerefs h)\<rparr>)"
        "chain (\<lambda>x. next_samesize (relink next_samesize ?u p q (pagerefs h) x)) (Some g) (g # remove1 p xs)"
      using unlink_from_run [of next_samesize h g xs p NPAGEREFS ?u] b(2) p d len Cons False by auto
    then show ?thesis using b False Cons by (auto simp: remove_samesize_def kprog links_only_def bare_def) (auto simp: relink_def)
  qed
qed (use p in simp)

lemma remove_all_run:
  assumes ch: "chain (\<lambda>p. next_all (pagerefs h p)) (allbase h) qs" and p: "p \<in> set qs" and d: "distinct qs" and len: "length qs \<le> NPAGEREFS"
  shows "\<exists>h'. remove_all p h = Done () h' \<and> links_only h h' \<and> (\<forall>q. next_samesize (pagerefs h' q) = next_samesize (pagerefs h q)) \<and>
    sizebases h' = sizebases h \<and> chain (\<lambda>p. next_all (pagerefs h' p)) (allbase h') (remove1 p qs)"
proof (cases qs)
  case (Cons g xs)
  have b: "allbase h = Some g" "chain (\<lambda>p. next_all (pagerefs h p)) (Some g) (g # xs)" using ch Cons by auto
  show ?thesis
  proof (cases "g = p")
    case True
    then show ?thesis using b Cons by (auto simp: remove_all_def kprog links_only_def)
  next
    case False
    let ?u = "\<lambda>x r. r\<lparr>next_all := x\<rparr>"
    obtain q where q: "q \<in> set (g # xs)"
        "unlink_from next_all ?u p g NPAGEREFS h = Done () (h\<lparr>pagerefs := relink next_all ?u p q (pagerefs h)\<rparr>)"
        "chain (\<lambda>x. next_all (relink next_all ?u p q (pagerefs h) x)) (Some g) (g # remove1 p xs)"
      using unlink_from_run [of next_all h g xs p NPAGEREFS ?u] b(2) p d len Cons False by auto
    then show ?thesis using b False Cons by (auto simp: remove_all_def kprog links_only_def bare_def) (auto simp: relink_def)
  qed
qed (use p in simp)

lemma remove_lists_run:
  assumes r: "kh_rel h ps fl" and p: "p \<in> set ps"
    and h1: "\<forall>q. next_all (pagerefs h1 q) = next_all (pagerefs h q) \<and> next_samesize (pagerefs h1 q) = next_samesize (pagerefs h q)"
      "allbase h1 = allbase h" "sizebases h1 = sizebases h" "\<forall>q. type_of h1 q = type_of h q"
  shows "\<exists>h'. remove_lists p (type_of h p) h1 = Done () h' \<and> links_only h1 h' \<and> chain (\<lambda>q. next_all (pagerefs h' q)) (allbase h') (remove1 p ps) \<and>
    (\<forall>t < NSIZES. chain (\<lambda>q. next_samesize (pagerefs h' q)) (sizebases h' t) (filter (\<lambda>q. type_of h' q = t) (remove1 p ps)))"
proof -
  let ?t = "type_of h p" and ?qs = "filter (\<lambda>q. type_of h q = type_of h p) ps"
  have d: "distinct ps" and t: "?t < NSIZES" using r p by (auto simp: kh_rel_def pr_ok_def)
  have len: "length ps \<le> NPAGEREFS" "length ?qs \<le> NPAGEREFS" using kh_rel_length [OF r] length_filter_le le_trans by blast+
  have sz: "chain (\<lambda>q. next_samesize (pagerefs h1 q)) (sizebases h1 t') (filter (\<lambda>q. type_of h q = t') ps)" if "t' < NSIZES" for t'
    using r that h1(1,3) by (simp add: kh_rel_def)
  have all: "chain (\<lambda>q. next_all (pagerefs h1 q)) (allbase h1) ps" using r h1(1,2) by (simp add: kh_rel_def)
  obtain u where u: "remove_samesize p ?t h1 = Done () u" "links_only h1 u" "\<forall>q. next_all (pagerefs u q) = next_all (pagerefs h1 q)" "allbase u = allbase h1"
      "\<forall>t'. t' \<noteq> ?t \<longrightarrow> sizebases u t' = sizebases h1 t'" "\<forall>q. q \<notin> set ?qs \<longrightarrow> next_samesize (pagerefs u q) = next_samesize (pagerefs h1 q)"
      "chain (\<lambda>q. next_samesize (pagerefs u q)) (sizebases u ?t) (remove1 p ?qs)"
    using remove_samesize_run [OF sz [OF t], of p] p d len(2) by auto
  have "chain (\<lambda>q. next_all (pagerefs u q)) (allbase u) ps" using all u(3,4) by simp
  then obtain h' where h': "remove_all p u = Done () h'" "links_only u h'" "\<forall>q. next_samesize (pagerefs h' q) = next_samesize (pagerefs u q)"
      "sizebases h' = sizebases u" "chain (\<lambda>q. next_all (pagerefs h' q)) (allbase h') (remove1 p ps)"
    using remove_all_run [of u ps p] p d len(1) by auto
  have lo: "links_only h1 h'" using u(2) h'(2) by (simp add: links_only_def)
  have ty: "type_of h' q = type_of h q" for q using lo h1(4) bare_fields(2) [of "pagerefs h' q" "pagerefs h1 q"] by (simp add: links_only_def)
  have "chain (\<lambda>q. next_samesize (pagerefs h' q)) (sizebases h' t') (filter (\<lambda>q. type_of h' q = t') (remove1 p ps))" if "t' < NSIZES" for t'
  proof (cases "t' = ?t")
    case True
    have "filter (\<lambda>q. type_of h q = ?t) (remove1 p ps) = remove1 p ?qs" by (simp add: filter_remove1)
    with True u(7) h'(3,4) ty show ?thesis by simp
  next
    case False
    then have "filter (\<lambda>q. type_of h q = t') (remove1 p ps) = filter (\<lambda>q. type_of h q = t') ps" by (simp add: filter_remove1 remove1_idem)
    moreover have "chain (\<lambda>q. next_samesize (pagerefs u q)) (sizebases u t') (filter (\<lambda>q. type_of h q = t') ps)"
      using sz [OF that] u(5,6) False by (auto elim!: chain_cong)
    ultimately show ?thesis using h'(3,4) ty by simp
  qed
  with u(1) h'(1,5) lo t show ?thesis by (auto simp: remove_lists_def kprog)
qed

subsection \<open>Freeing is correct\<close>

lemma fill_words_run:
  "\<exists>m. fill_words ptr i n h = Done () (h\<lparr>kh_mem := m\<rparr>) \<and> (\<forall>a. a < ptr + 4 * i \<or> ptr + 4 * (i + n) \<le> a \<longrightarrow> m a = kh_mem h a)"
proof (induction n arbitrary: i h)
  case 0
  then show ?case by (auto simp: kprog intro!: exI [of _ "kh_mem h"])
next
  case (Suc n)
  from Suc.IH [of "Suc i" "h\<lparr>kh_mem := (kh_mem h)(ptr + 4 * i := 0xdeadbeef)\<rparr>"] show ?case by (auto simp: kprog)
qed

lemma fill_deadbeef_run:
  "\<exists>m. fill_deadbeef ptr len h = Done () (h\<lparr>kh_mem := m\<rparr>) \<and> (\<forall>a. a < ptr \<or> ptr + len \<le> a \<longrightarrow> m a = kh_mem h a)"
  using fill_words_run [of ptr 0 "len div 4" h] by (auto simp: fill_deadbeef_def)

definition give_block :: "nat \<Rightarrow> nat list \<Rightarrow> pageref \<Rightarrow> pageref" where
  "give_block a xs pr = pr\<lparr>freelist_offset := a - PR_PAGEADDR pr, nfree := Suc (length xs)\<rparr>"

lemma give_block_fields [simp]:
  "PR_PAGEADDR (give_block a xs pr) = PR_PAGEADDR pr" "PR_BLOCKTYPE (give_block a xs pr) = PR_BLOCKTYPE pr"
  "next_all (give_block a xs pr) = next_all pr" "next_samesize (give_block a xs pr) = next_samesize pr"
  by (simp_all add: give_block_def PR_PAGEADDR_def PR_BLOCKTYPE_def)

lemma give_block_ok:
  assumes ok: "pr_ok m pr xs" and a: "a \<in> blocks (PR_PAGEADDR pr) (PR_BLOCKTYPE pr)" "a \<notin> set xs"
    and m': "m' a = fl_head xs" "\<forall>x. x < a \<or> a + bsize (PR_BLOCKTYPE pr) \<le> x \<longrightarrow> m' x = m x"
  shows "pr_ok m' (give_block a xs pr) (a # xs)" "length (a # xs) \<le> bcount (PR_BLOCKTYPE pr)"
proof -
  have t: "PR_BLOCKTYPE pr < NSIZES" and sub: "set xs \<subseteq> blocks (PR_PAGEADDR pr) (PR_BLOCKTYPE pr)" and d: "distinct (a # xs)" and pos: "0 < a"
    using ok a blocks_range(1) [OF _ a(1)] by (auto simp: pr_ok_def)
  have "m x = m' x" if x: "x \<in> set xs" for x
  proof -
    have "x \<noteq> a" "x \<in> blocks (PR_PAGEADDR pr) (PR_BLOCKTYPE pr)" using x a(2) sub by auto
    from blocks_disjoint [OF this(2) a(1) this(1)] bsize_facts(1) [OF t] m'(2) show ?thesis by auto
  qed
  then have "fl_chain m' (fl_head xs) xs" using ok fl_chain_cong [of m _ xs m'] by (simp add: pr_ok_def)
  then show "pr_ok m' (give_block a xs pr) (a # xs)"
    using ok a d pos m'(1) unfolding pr_ok_def give_block_fields by (simp add: fl_head_def give_block_def)
  have "finite (blocks (PR_PAGEADDR pr) (PR_BLOCKTYPE pr))" by (simp add: blocks_def)
  then have "card (set (a # xs)) \<le> card (blocks (PR_PAGEADDR pr) (PR_BLOCKTYPE pr))" using sub a(1) by (intro card_mono) auto
  then show "length (a # xs) \<le> bcount (PR_BLOCKTYPE pr)" using distinct_card [OF d] blocks_card [OF t] by simp
qed

lemma find_unique: "p \<in> set xs \<Longrightarrow> Q p \<Longrightarrow> (\<And>q. q \<in> set xs \<Longrightarrow> Q q \<Longrightarrow> q = p) \<Longrightarrow> find Q xs = Some p"
proof (induction xs)
  case (Cons x xs)
  show ?case
  proof (cases "Q x")
    case True
    then have "x = p" by (rule Cons.prems(3) [OF list.set_intros(1)])
    with True show ?thesis by simp
  next
    case False
    then have "x \<noteq> p" using Cons.prems(2) by blast
    then have "p \<in> set xs" using Cons.prems(1) by simp
    then have "find Q xs = Some p" by (rule Cons.IH [OF _ Cons.prems(2)]) (rule Cons.prems(3) [OF list.set_intros(2)])
    with False show ?thesis by simp
  qed
qed simp

text \<open>The page that owns an address.\<close>

lemma owner_found:
  assumes r: "kh_rel h ps fl" and p: "p \<in> set ps" and a: "page_of h p \<le> a" "a < page_of h p + PAGE_SIZE"
  shows "find_owner a (allbase h) NPAGEREFS h = Done (Some p) h"
proof -
  let ?P = "\<lambda>q. page_of h q \<le> a \<and> a < page_of h q + PAGE_SIZE"
  have uniq: "q = p" if "q \<in> set ps" "?P q" for q
    using same_page [OF page_aligned page_aligned _ _ a, of "pagerefs h q"] that p r by (auto simp: kh_rel_def inj_on_def)
  have "find ?P ps = Some p" by (rule find_unique [where Q = ?P, OF p conjI [OF a] uniq])
  moreover have "type_of h q < NSIZES" if "q \<in> set ps" for q using r that by (auto simp: kh_rel_def pr_ok_def)
  moreover have "chain (\<lambda>p. next_all (pagerefs h p)) (allbase h) ps" using r by (simp add: kh_rel_def)
  ultimately show ?thesis using find_owner_run [of h "allbase h" ps NPAGEREFS a] kh_rel_length [OF r] by simp
qed

definition given :: "nat \<Rightarrow> nat \<Rightarrow> kheap \<Rightarrow> nat list \<Rightarrow> (nat \<Rightarrow> nat list) \<Rightarrow> kheap \<Rightarrow> bool" where
  "given a b h ps fl h' \<longleftrightarrow> (\<exists>ps' fl'. kh_rel h' ps' fl' \<and> live h' ps' fl' = live h ps fl - {(a, b)} \<and> kh_ram h' = kh_ram h \<and> heap_pages h' ps' \<subseteq> heap_pages h ps \<and>
     (\<forall>x. x < a \<or> a + b \<le> x \<longrightarrow> kh_mem h' x = kh_mem h x))"

text \<open>The state after the block has been put on the free list of its page \<open>p\<close>.\<close>

definition freed_state :: "nat \<Rightarrow> nat \<Rightarrow> nat list \<Rightarrow> (nat \<Rightarrow> nat) \<Rightarrow> kheap \<Rightarrow> kheap" where
  "freed_state a p xs m h = h\<lparr>kh_mem := m, pagerefs := (pagerefs h)(p := give_block a xs (pagerefs h p))\<rparr>"

lemma freed_fields:
  "page_of (freed_state a p xs m h) q = page_of h q" "type_of (freed_state a p xs m h) q = type_of h q"
  "next_all (pagerefs (freed_state a p xs m h) q) = next_all (pagerefs h q)"
  "next_samesize (pagerefs (freed_state a p xs m h) q) = next_samesize (pagerefs h q)"
  "allbase (freed_state a p xs m h) = allbase h" "sizebases (freed_state a p xs m h) = sizebases h" "kh_mem (freed_state a p xs m h) = m"
  "kh_ram (freed_state a p xs m h) = kh_ram h" "used (freed_state a p xs m h) = used h"
  by (simp_all add: freed_state_def used_def)

lemma freed_pages:
  assumes r: "kh_rel h ps fl" and p: "p \<in> set ps" and a: "a \<in> blocks (page_of h p) (type_of h p)" "a \<notin> set (fl p)"
    and m: "m a = fl_head (fl p)" "\<forall>x. x < a \<or> a + bsize (type_of h p) \<le> x \<longrightarrow> m x = kh_mem h x" and q: "q \<in> set ps"
  shows "pr_ok m (pagerefs (freed_state a p (fl p) m h) q) ((fl(p := a # fl p)) q)" "q \<noteq> p \<Longrightarrow> length (fl q) < bcount (type_of h q)"
    "page_of h q + PAGE_SIZE \<le> MIPS_KSEG0 + firstpaddr (kh_ram h)" "length (a # fl p) \<le> bcount (type_of h p)"
proof -
  have okq: "pr_ok (kh_mem h) (pagerefs h x) (fl x)" if "x \<in> set ps" for x using r that unfolding kh_rel_def by blast
  note g = give_block_ok [OF okq [OF p] a m]
  have tp: "type_of h p < NSIZES" "type_of h q < NSIZES" using okq [OF p] okq [OF q] by (simp_all add: pr_ok_def)
  show "pr_ok m (pagerefs (freed_state a p (fl p) m h) q) ((fl(p := a # fl p)) q)"
  proof (cases "q = p")
    case True
    then show ?thesis using g(1) by (simp add: freed_state_def)
  next
    case False
    have "kh_mem h x = m x" if x: "x \<in> set (fl q)" for x
    proof -
      have "x \<in> blocks (page_of h q) (type_of h q)" using x okq [OF q] by (auto simp: pr_ok_def)
      note bx = blocks_range [OF tp(2) this] and ba = blocks_range [OF tp(1) a(1)]
      have "page_of h q \<noteq> page_of h p" using r p q False by (auto simp: kh_rel_def inj_on_def)
      then have "\<not> (a \<le> x \<and> x < a + bsize (type_of h p))"
        using same_page [OF page_aligned page_aligned bx(1,3), of "pagerefs h p"] ba by auto
      then show ?thesis using m(2) by (auto simp: not_le not_less)
    qed
    then show ?thesis using False okq [OF q] fl_chain_cong [of "kh_mem h" _ "fl q" m] by (simp add: pr_ok_def freed_state_def)
  qed
  show "q \<noteq> p \<Longrightarrow> length (fl q) < bcount (type_of h q)" "page_of h q + PAGE_SIZE \<le> MIPS_KSEG0 + firstpaddr (kh_ram h)"
    using r q unfolding kh_rel_def by blast+
  show "length (a # fl p) \<le> bcount (type_of h p)" by (rule g(2))
qed

lemma live_minus:
  assumes r: "kh_rel h ps fl" and p: "p \<in> set ps" and a: "a \<in> blocks (page_of h p) (type_of h p)" "a \<notin> set (fl p)"
  shows "(\<Union>q \<in> set ps. (blocks (page_of h q) (type_of h q) - set ((fl(p := a # fl p)) q)) \<times> {bsize (type_of h q)}) =
    live h ps fl - {(a, bsize (type_of h p))}"
proof -
  have tp: "type_of h q < NSIZES" if "q \<in> set ps" for q using r that by (auto simp: kh_rel_def pr_ok_def)
  have no: "a \<notin> blocks (page_of h q) (type_of h q)" if "q \<in> set ps" "q \<noteq> p" for q
  proof
    assume "a \<in> blocks (page_of h q) (type_of h q)"
    note bq = blocks_range [OF tp [OF that(1)] this] and bp = blocks_range [OF tp [OF p] a(1)]
    have "page_of h q = page_of h p" by (rule same_page [OF page_aligned page_aligned bq(1,3) bp(1,3)])
    then show False using r p that by (auto simp: kh_rel_def inj_on_def)
  qed
  let ?F = "\<lambda>q. (blocks (page_of h q) (type_of h q) - set ((fl(p := a # fl p)) q)) \<times> {bsize (type_of h q)}"
  have "insert (a, bsize (type_of h p)) (\<Union>q \<in> set ps. ?F q) = live h ps fl"
    unfolding live_def by (rule UN_change [OF p, symmetric]) (use a in auto)
  moreover have "(a, bsize (type_of h p)) \<notin> (\<Union>q \<in> set ps. ?F q)" using no by (auto split: if_splits)
  ultimately show ?thesis by auto
qed

lemma subpage_kfree_run:
  assumes r: "kh_rel h ps fl" and a: "(a, b) \<in> live h ps fl"
  shows "\<exists>h'. subpage_kfree a h = Done True h' \<and> given a b h ps fl h'"
proof -
  obtain p where p: "p \<in> set ps" "a \<in> blocks (page_of h p) (type_of h p)" "a \<notin> set (fl p)" "b = bsize (type_of h p)" using a by (auto simp: live_def)
  let ?pr = "pagerefs h p" and ?t = "type_of h p"
  have ok: "pr_ok (kh_mem h) ?pr (fl p)" using r p(1) unfolding kh_rel_def by blast
  then have t: "?t < NSIZES" by (simp add: pr_ok_def)
  note rg = blocks_range [OF t p(2)]
  have off: "a - page_of h p < PAGE_SIZE" "(a - page_of h p) mod sizes ! ?t = 0" "page_of h p + (a - page_of h p) = a"
    using rg by (simp_all add: bsize_def)
  obtain m1 where m1: "fill_deadbeef a (sizes ! ?t) h = Done () (h\<lparr>kh_mem := m1\<rparr>)" "\<forall>x. x < a \<or> a + sizes ! ?t \<le> x \<longrightarrow> m1 x = kh_mem h x"
    using fill_deadbeef_run [of a "sizes ! ?t" h] by blast
  define m where "m = m1(a := fl_head (fl p))"
  have m: "m a = fl_head (fl p)" "\<forall>x. x < a \<or> a + bsize ?t \<le> x \<longrightarrow> m x = kh_mem h x"
    using m1(2) bsize_facts(1) [OF t] by (auto simp: m_def bsize_def)
  note fp = freed_pages [OF r p(1-3) m]
  let ?n = "Suc (length (fl p))" and ?h1 = "freed_state a p (fl p) m h"
  have n: "nfree ?pr = length (fl p)" "?n \<le> PAGE_SIZE div sizes ! ?t" "?n < 2 ^ 16" "PAGE_SIZE div sizes ! ?t = bcount ?t"
    using ok fp(4) [OF p(1)] bsize_facts(5) [OF t] by (auto simp: pr_ok_def bcount_def)
  have head: "(if freelist_offset ?pr = INVALID_OFFSET then 0 else page_of h p + freelist_offset ?pr) = fl_head (fl p)"
  proof (cases "fl p")
    case Nil
    then show ?thesis using ok by (simp add: pr_ok_def fl_head_def)
  next
    case (Cons x xs)
    then have "x \<in> blocks (page_of h p) ?t" "freelist_offset ?pr = x - page_of h p" using ok by (auto simp: pr_ok_def fl_head_def)
    with blocks_range [OF t this(1)] Cons show ?thesis by (auto simp: fl_head_def)
  qed
  have run: "subpage_kfree a h = (case (if ?n = bcount ?t then kthen (remove_lists p ?t) (kthen (on_ram (free_kpages (page_of h p))) (freepageref p)) else kret ()) ?h1 of
      Done x u \<Rightarrow> kret True u | Fail e u \<Rightarrow> Fail e u | Panic e \<Rightarrow> Panic e)"
    using owner_found [OF r p(1) rg(1,3)] off m1(1) n head
    by (simp add: subpage_kfree_def kprog Let_def freed_state_def give_block_def m_def)
  have liv: "live ?h1 ps (fl(p := a # fl p)) = live h ps fl - {(a, b)}"
    using live_minus [OF r p(1-3)] p(4) unfolding live_def freed_fields by simp
  show ?thesis
  proof (cases "?n = bcount ?t")
    case False
    have "kh_rel ?h1 ps (fl(p := a # fl p))"
      using r fp(1,2) False n(2,4) unfolding kh_rel_def freed_fields by auto
    moreover have "heap_pages ?h1 ps = heap_pages h ps" by (simp add: heap_pages_def freed_fields)
    ultimately have "given a b h ps fl ?h1" using liv m(2) p(4) unfolding given_def by (auto simp: freed_fields)
    then show ?thesis using run False by (auto simp: kprog)
  next
    case True
    obtain h2 where h2: "remove_lists p ?t ?h1 = Done () h2" "links_only ?h1 h2" "chain (\<lambda>q. next_all (pagerefs h2 q)) (allbase h2) (remove1 p ps)"
        "\<forall>t < NSIZES. chain (\<lambda>q. next_samesize (pagerefs h2 q)) (sizebases h2 t) (filter (\<lambda>q. type_of h2 q = t) (remove1 p ps))"
      using remove_lists_run [OF r p(1), of ?h1] by (auto simp: freed_fields)
    have f2: "kh_mem h2 = m" "kh_ram h2 = kh_ram h" "used h2 = used h" "\<forall>q. bare (pagerefs ?h1 q) = bare (pagerefs h2 q)"
      using h2(2) freed_fields [of a p "fl p" m h] by (simp_all add: links_only_def used_def)
    have ids: "page_of h2 q = page_of h q" "type_of h2 q = type_of h q" for q
      using bare_fields(1,2) [of "pagerefs ?h1 q" "pagerefs h2 q"] f2(4) by (simp_all add: freed_fields)
    have us: "set ps = used h" "distinct ps" using r by (auto simp: kh_rel_def)
    then obtain h3 where h3: "freepageref p h2 = Done () h3" "used h3 = used h - {p}" "h3 = h2\<lparr>pagerefs_inuse := pagerefs_inuse h3\<rparr>"
      using freepageref_run [of p h2] f2(3) p(1) by auto
    have f3: "pagerefs h3 = pagerefs h2" "kh_mem h3 = m" "kh_ram h3 = kh_ram h" "allbase h3 = allbase h2" "sizebases h3 = sizebases h2"
      using arg_cong [OF h3(3), of pagerefs] arg_cong [OF h3(3), of kh_mem] arg_cong [OF h3(3), of kh_ram] arg_cong [OF h3(3), of allbase]
        arg_cong [OF h3(3), of sizebases] f2(1,2) by simp_all
    have set3: "set (remove1 p ps) = set ps - {p}" using us(2) by (rule set_remove1_eq)
    have per: "pr_ok m (pagerefs h2 q) (fl q) \<and> length (fl q) < bcount (type_of h q) \<and> page_of h q + PAGE_SIZE \<le> MIPS_KSEG0 + firstpaddr (kh_ram h)"
      if "q \<in> set ps - {p}" for q
      using that fp(1-3) [of q] pr_ok_bare [of "pagerefs ?h1 q" "pagerefs h2 q" m "fl q"] f2(4) by auto
    have "inj_on (page_of h) (set ps)" using r unfolding kh_rel_def by blast
    then have inj: "inj_on (page_of h) (set ps - {p})" by (rule inj_on_subset) blast
    have ram: "ram_ok (kh_ram h)" using r by (simp add: kh_rel_def)
    have "kh_rel h3 (remove1 p ps) fl"
      unfolding kh_rel_def f3 ids set3 using h2(3,4) per inj ram us h3(2) by (simp add: ids)
    moreover have "live h3 (remove1 p ps) fl = live h ps fl - {(a, b)}"
    proof -
      have sub: "set (a # fl p) \<subseteq> blocks (page_of h p) ?t" "distinct (a # fl p)" using ok p(2,3) by (auto simp: pr_ok_def)
      have "blocks (page_of h p) ?t = set (a # fl p)"
        by (rule card_subset_eq [symmetric, OF _ sub(1)]) (use True blocks_card [OF t] distinct_card [OF sub(2)] in \<open>simp_all add: blocks_def\<close>)
      then have "(\<Union>q \<in> set ps. (blocks (page_of h q) (type_of h q) - set ((fl(p := a # fl p)) q)) \<times> {bsize (type_of h q)}) = live h3 (remove1 p ps) fl"
        unfolding live_def f3 ids set3 by (auto split: if_splits)
      then show ?thesis using live_minus [OF r p(1-3)] p(4) by simp
    qed
    moreover have "heap_pages h3 (remove1 p ps) \<subseteq> heap_pages h ps" using set3 by (auto simp: heap_pages_def f3(1) ids)
    ultimately have "given a b h ps fl h3" unfolding given_def using f3(2,3) m(2) p(4) by blast
    moreover have "h2\<lparr>kh_ram := kh_ram h2\<rparr> = h2" by simp
    ultimately show ?thesis using run True h2(1) h3(1) by (auto simp: kprog free_kpages_def)
  qed
qed

lemma live_disjoint:
  assumes r: "kh_rel h ps fl" and x: "(a, m) \<in> live h ps fl" "(b, n) \<in> live h ps fl" "(a, m) \<noteq> (b, n)"
  shows "a + m \<le> b \<or> b + n \<le> a"
proof -
  obtain p q where p: "p \<in> set ps" "a \<in> blocks (page_of h p) (type_of h p)" "m = bsize (type_of h p)"
    and q: "q \<in> set ps" "b \<in> blocks (page_of h q) (type_of h q)" "n = bsize (type_of h q)" using x(1,2) by (auto simp: live_def)
  have t: "type_of h x < NSIZES" if "x \<in> set ps" for x using r that by (auto simp: kh_rel_def pr_ok_def)
  note bp = blocks_range [OF t [OF p(1)] p(2)] and bq = blocks_range [OF t [OF q(1)] q(2)]
  show ?thesis
  proof (cases "page_of h p = page_of h q")
    case True
    then have "p = q" using r p(1) q(1) unfolding kh_rel_def inj_on_def by blast
    then show ?thesis using blocks_disjoint [of a "page_of h p" "type_of h p" b] p q x(3) by auto
  next
    case False
    have "page_of h p + PAGE_SIZE \<le> page_of h q \<or> page_of h q + PAGE_SIZE \<le> page_of h p"
      by (rule pages_apart [OF page_aligned page_aligned False])
    then show ?thesis using bp(1,2) bq(1,2) p(3) q(3) by auto
  qed
qed

lemma kmalloc_small:
  assumes r: "kh_rel h ps fl" and sz: "sz < LARGEST_SUBPAGE_SIZE"
  shows "(\<exists>h'. kmalloc sz h = Done 0 h' \<and> refused h ps fl h') \<or> (\<exists>a h'. kmalloc sz h = Done a h' \<and> allocated sz h ps fl a h')"
  using subpage_kmalloc_run [OF r, of sz] sz by (simp add: kmalloc_def)

lemma kfree_run:
  assumes r: "kh_rel h ps fl" and a: "(a, b) \<in> live h ps fl"
  shows "\<exists>h'. kfree a h = Done () h' \<and> given a b h ps fl h'"
  using subpage_kfree_run [OF r a] live_below(1) [OF r a] by (auto simp: kfree_def kprog)

lemma kh_rel_ram:
  assumes r: "kh_rel h ps fl" and r': "ram_ok r'" "firstpaddr (kh_ram h) \<le> firstpaddr r'"
  shows "kh_rel (h\<lparr>kh_ram := r'\<rparr>) ps fl"
proof -
  have "page_of h p + PAGE_SIZE \<le> MIPS_KSEG0 + firstpaddr r'" if "p \<in> set ps" for p
  proof -
    have "page_of h p + PAGE_SIZE \<le> MIPS_KSEG0 + firstpaddr (kh_ram h)" using r that unfolding kh_rel_def by blast
    with r'(2) show ?thesis by linarith
  qed
  moreover have "used (h\<lparr>kh_ram := r'\<rparr>) = used h" by (simp add: used_def)
  ultimately show ?thesis using r r'(1) unfolding kh_rel_def by auto
qed

lemma kmalloc_large:
  assumes r: "kh_rel h ps fl" and sz: "LARGEST_SUBPAGE_SIZE \<le> sz" "sz < 2 ^ 30"
  shows "kmalloc sz h = Done 0 h \<or>
    (\<exists>h'. kmalloc sz h = Done (MIPS_KSEG0 + firstpaddr (kh_ram h)) h' \<and> kh_rel h' ps fl \<and> live h' ps fl = live h ps fl \<and> kh_mem h' = kh_mem h \<and>
       firstpaddr (kh_ram h) + sz \<le> firstpaddr (kh_ram h'))"
proof -
  let ?n = "(sz + 4095) div PAGE_SIZE" and ?f = "firstpaddr (kh_ram h)"
  have n: "uadd32 sz (PAGE_SIZE - 1) div PAGE_SIZE = ?n" "sz \<le> ?n * PAGE_SIZE" "?n * PAGE_SIZE \<le> 2 ^ 31"
    using sz by (auto simp: uadd32_def)
  have ram: "ram_ok (kh_ram h)" using r by (simp add: kh_rel_def)
  let ?ram = "(kh_ram h)\<lparr>firstpaddr := ?f + ?n * PAGE_SIZE\<rparr>" and ?h = "h\<lparr>kh_ram := (kh_ram h)\<lparr>firstpaddr := ?f + ?n * PAGE_SIZE\<rparr>\<rparr>"
  have "kh_rel ?h ps fl" if "ram_ok ?ram" using kh_rel_ram [OF r that] by simp
  moreover have "live ?h ps fl = live h ps fl" by (simp add: live_def)
  ultimately show ?thesis using alloc_kpages_run [OF ram n(3)] n(1,2) sz(1) by (auto simp: kmalloc_def kprog)
qed

subsection \<open>Allocators in general\<close>

text \<open>
  What a client of an allocator relies on: \<open>holds s L\<close> says that in state \<open>s\<close> the blocks in use are \<open>L\<close>, given by address and size. A block handed out
  is at least as big as asked for, the blocks in use do not overlap, and a block in use can be given back.
\<close>

locale allocator =
  fixes malloc :: "nat \<Rightarrow> ('s, nat) prog" and free :: "nat \<Rightarrow> ('s, unit) prog" and holds :: "'s \<Rightarrow> (nat \<times> nat) set \<Rightarrow> bool" and limit :: nat
  assumes disjoint: "holds s L \<Longrightarrow> (a, m) \<in> L \<Longrightarrow> (b, n) \<in> L \<Longrightarrow> (a, m) \<noteq> (b, n) \<Longrightarrow> a + m \<le> b \<or> b + n \<le> a"
    and malloc: "holds s L \<Longrightarrow> n < limit \<Longrightarrow> \<exists>a t. malloc n s = Done a t \<and> (a = 0 \<and> holds t L \<or> (\<exists>m \<ge> n. 0 < a \<and> (a, m) \<notin> L \<and> holds t (insert (a, m) L)))"
    and free: "holds s L \<Longrightarrow> (a, m) \<in> L \<Longrightarrow> \<exists>t. free a s = Done () t \<and> holds t (L - {(a, m)})"

text \<open>A client asks for blocks and gives them back in any order; it keeps a list of what it owns, with the sizes it asked for.\<close>

datatype request = Get nat | Put nat

fun heap_client :: "(nat \<Rightarrow> ('s, nat) prog) \<Rightarrow> (nat \<Rightarrow> ('s, unit) prog) \<Rightarrow> request list \<Rightarrow> (nat \<times> nat) list \<Rightarrow> ('s, (nat \<times> nat) list) prog" where
  "heap_client malloc free [] own = kret own"
| "heap_client malloc free (Get n # rs) own = kbind (malloc n) (\<lambda>a. heap_client malloc free rs (if a = 0 then own else (a, n) # own))"
| "heap_client malloc free (Put i # rs) own =
     (if i < length own then kthen (free (fst (own ! i))) (heap_client malloc free rs (take i own @ drop (Suc i) own))
      else heap_client malloc free rs own)"

definition apart :: "nat \<times> nat \<Rightarrow> nat \<times> nat \<Rightarrow> bool" where
  "apart x y \<longleftrightarrow> fst x + snd x \<le> fst y \<or> fst y + snd y \<le> fst x"

text \<open>The blocks \<open>bs\<close> behind what the client owns.\<close>

definition backs :: "(nat \<times> nat) list \<Rightarrow> (nat \<times> nat) list \<Rightarrow> bool" where
  "backs bs own \<longleftrightarrow> distinct bs \<and> list_all2 (\<lambda>b x. fst b = fst x \<and> snd x \<le> snd b) bs own"

context allocator
begin

lemma client_safe:
  assumes "holds s (set bs)" and "backs bs own" and "\<forall>n. Get n \<in> set rs \<longrightarrow> n < limit"
  shows "\<exists>own' bs' t. heap_client malloc free rs own s = Done own' t \<and> holds t (set bs') \<and> backs bs' own'"
  using assms
proof (induction rs arbitrary: s bs own)
  case Nil
  then show ?case by (auto simp: kprog)
next
  case (Cons r rs)
  show ?case
  proof (cases r)
    case (Get n)
    then have "n < limit" using Cons.prems(3) by simp
    then obtain a t where a: "malloc n s = Done a t" "a = 0 \<and> holds t (set bs) \<or> (\<exists>m \<ge> n. 0 < a \<and> (a, m) \<notin> set bs \<and> holds t (set ((a, m) # bs)))"
      using malloc [OF Cons.prems(1), of n] by auto
    then show ?thesis
    proof (cases "a = 0")
      case True
      with a Cons.IH [of t bs own] Cons.prems Get show ?thesis by (auto simp: kprog)
    next
      case False
      then obtain m where m: "n \<le> m" "(a, m) \<notin> set bs" "holds t (set ((a, m) # bs))" using a(2) by auto
      have "backs ((a, m) # bs) ((a, n) # own)" using m Cons.prems(2) by (simp add: backs_def)
      with m(3) Cons.IH [of t "(a, m) # bs" "(a, n) # own"] Cons.prems(3) a(1) False Get show ?thesis by (auto simp: kprog)
    qed
  next
    case (Put i)
    show ?thesis
    proof (cases "i < length own")
      case False
      with Cons.IH [OF Cons.prems(1,2)] Cons.prems(3) Put show ?thesis by simp
    next
      case True
      have b: "distinct bs" "list_all2 (\<lambda>b x. fst b = fst x \<and> snd x \<le> snd b) bs own" using Cons.prems(2) by (simp_all add: backs_def)
      then have i: "i < length bs" "fst (bs ! i) = fst (own ! i)" using True by (auto simp: list_all2_conv_all_nth)
      let ?bs = "take i bs @ drop (Suc i) bs"
      have eq: "bs = take i bs @ bs ! i # drop (Suc i) bs" by (rule id_take_nth_drop [OF i(1)])
      have d: "distinct ?bs" "bs ! i \<notin> set ?bs" "insert (bs ! i) (set ?bs) = set bs" using b(1) eq
        by (metis distinct_append distinct.simps(2) disjoint_insert(2) list.simps(15), metis b(1) distinct_append distinct.simps(2) Un_iff disjoint_iff list.set_intros(1) set_append,
            metis eq set_append list.simps(15) Un_insert_right)
      then have set: "set bs - {bs ! i} = set ?bs" by blast
      have "(fst (bs ! i), snd (bs ! i)) \<in> set bs" using i(1) by simp
      then obtain t where t: "free (fst (own ! i)) s = Done () t" "holds t (set ?bs)"
        using free [OF Cons.prems(1), of "fst (bs ! i)" "snd (bs ! i)"] i(2) set by (metis prod.collapse)
      have "backs ?bs (take i own @ drop (Suc i) own)"
        using d(1) b(2) i(1) True by (auto simp: backs_def intro!: list_all2_appendI list_all2_takeI list_all2_dropI)
      with t Cons.IH [of t ?bs "take i own @ drop (Suc i) own"] Cons.prems(3) True Put show ?thesis by (auto simp: kprog)
    qed
  qed
qed

lemma owned_apart:
  assumes h: "holds s (set bs)" and b: "backs bs own"
  shows "sorted_wrt apart own"
  unfolding sorted_wrt_iff_nth_less
proof (intro allI impI)
  fix i j assume ij: "i < j" "j < length own"
  have l: "list_all2 (\<lambda>b x. fst b = fst x \<and> snd x \<le> snd b) bs own" "distinct bs" using b by (simp_all add: backs_def)
  then have n: "length bs = length own" "fst (bs ! i) = fst (own ! i)" "snd (own ! i) \<le> snd (bs ! i)" "fst (bs ! j) = fst (own ! j)" "snd (own ! j) \<le> snd (bs ! j)"
    using ij by (auto simp: list_all2_conv_all_nth)
  have "bs ! i \<noteq> bs ! j" using l(2) ij n(1) by (simp add: nth_eq_iff_index_eq)
  then have "fst (bs ! i) + snd (bs ! i) \<le> fst (bs ! j) \<or> fst (bs ! j) + snd (bs ! j) \<le> fst (bs ! i)"
    using disjoint [OF h, of "fst (bs ! i)" "snd (bs ! i)" "fst (bs ! j)" "snd (bs ! j)"] ij n(1) by simp
  then show "apart (own ! i) (own ! j)" using n by (auto simp: apart_def)
qed

end

definition kh_holds :: "kheap \<Rightarrow> (nat \<times> nat) set \<Rightarrow> bool" where
  "kh_holds h L \<longleftrightarrow> (\<exists>ps fl. kh_rel h ps fl \<and> live h ps fl = L)"

lemma kh_holds_malloc:
  assumes "kh_holds h L" and "n < LARGEST_SUBPAGE_SIZE"
  shows "\<exists>a t. kmalloc n h = Done a t \<and> (a = 0 \<and> kh_holds t L \<or> (\<exists>m \<ge> n. 0 < a \<and> (a, m) \<notin> L \<and> kh_holds t (insert (a, m) L)))"
proof -
  obtain ps fl where r: "kh_rel h ps fl" "live h ps fl = L" using assms(1) by (auto simp: kh_holds_def)
  consider (no) h' where "kmalloc n h = Done 0 h'" "refused h ps fl h'" | (yes) a h' where "kmalloc n h = Done a h'" "allocated n h ps fl a h'"
    using kmalloc_small [OF r(1) assms(2)] by blast
  then show ?thesis
  proof cases
    case no
    then have "kh_holds h' L" using r(2) unfolding refused_def kh_holds_def by blast
    with no(1) show ?thesis by blast
  next
    case yes
    then obtain m ps' fl' where "n \<le> m" "0 < a" "(a, m) \<notin> L" "kh_rel h' ps' fl'" "live h' ps' fl' = insert (a, m) L"
      using r(2) unfolding allocated_def by blast
    moreover from this have "kh_holds h' (insert (a, m) L)" unfolding kh_holds_def by blast
    ultimately show ?thesis using yes(1) by blast
  qed
qed

interpretation kheap: allocator kmalloc kfree kh_holds LARGEST_SUBPAGE_SIZE
proof
  fix h L a m b n assume "kh_holds h L" and ab: "(a, m) \<in> L" "(b, n) \<in> L" "(a, m) \<noteq> (b, n)"
  then obtain ps fl where r: "kh_rel h ps fl" "live h ps fl = L" by (auto simp: kh_holds_def)
  show "a + m \<le> b \<or> b + n \<le> a" by (rule live_disjoint [OF r(1)]) (use r(2) ab in simp_all)
next
  fix h L a m assume "kh_holds h L" and a: "(a, m) \<in> L"
  then obtain ps fl where r: "kh_rel h ps fl" "live h ps fl = L" by (auto simp: kh_holds_def)
  then obtain h' where "kfree a h = Done () h'" "given a m h ps fl h'" using kfree_run [OF r(1)] a by blast
  moreover from this have "kh_holds h' (L - {(a, m)})" using r(2) unfolding given_def kh_holds_def by blast
  ultimately show "\<exists>t. kfree a h = Done () t \<and> kh_holds t (L - {(a, m)})" by blast
qed (rule kh_holds_malloc)

subsection \<open>Correctness of the heap\<close>

text \<open>The heap as the kernel starts, on a machine with \<open>size\<close> bytes of memory whose kernel image ends at \<open>free\<close>.\<close>

definition boot_heap :: "nat \<Rightarrow> nat \<Rightarrow> kheap" where
  "boot_heap ramsize firstfree = \<lparr>pagerefs = (\<lambda>_. \<lparr>next_samesize = None, next_all = None, pageaddr_and_blocktype = 0, freelist_offset = 0, nfree = 0\<rparr>),
     pagerefs_inuse = (\<lambda>_. 0), sizebases = (\<lambda>_. None), allbase = None, kh_mem = (\<lambda>_. 0), kh_ram = ram_bootstrap ramsize firstfree\<rparr>"

lemma boot_heap_ok:
  assumes "ram_ok (ram_bootstrap ramsize firstfree)"
  shows "kh_rel (boot_heap ramsize firstfree) [] (\<lambda>_. [])" "live (boot_heap ramsize firstfree) [] (\<lambda>_. []) = {}"
  using assms by (auto simp: kh_rel_def boot_heap_def used_def live_def)

lemma small_ram_ok: "ram_ok (ram_bootstrap 0x80000 0x80020000)"
  by (simp add: ram_bootstrap_def ram_ok_def)

lemmas small_heap_ok = boot_heap_ok [OF small_ram_ok]

text \<open>A heap with one page of two blocks, the upper one in use.\<close>

definition one_page_heap :: kheap where
  "one_page_heap = (boot_heap 0x80000 0x80020000)\<lparr>pagerefs := (\<lambda>_. \<lparr>next_samesize = None, next_all = None, pageaddr_and_blocktype = 0x80020007, freelist_offset = 0, nfree = 1\<rparr>),
     pagerefs_inuse := (\<lambda>i. if i = 0 then 1 else 0), sizebases := (\<lambda>t. if t = 7 then Some 0 else None), allbase := Some 0,
     kh_ram := \<lparr>firstpaddr = 0x21000, lastpaddr = 0x80000\<rparr>\<rparr>"

lemma one_page_blocks: "blocks 0x80020000 7 = {0x80020000, 0x80020800}" "bsize 7 = 2048" "bcount 7 = 2"
proof -
  show *: "bsize 7 = 2048" "bcount 7 = 2" by (simp_all add: bsize_def bcount_def sizes_def)
  have "{..<2} = {0, 1::nat}" by auto
  then show "blocks 0x80020000 7 = {0x80020000, 0x80020800}" using * by (simp add: blocks_def)
qed

lemma one_page_used: "used one_page_heap = {0}"
  by (auto simp: used_def one_page_heap_def boot_heap_def bit_1_iff split: if_splits)

lemma one_page_heap_ok:
  "kh_rel one_page_heap [0] (\<lambda>_. [0x80020000])" "live one_page_heap [0] (\<lambda>_. [0x80020000]) = {(0x80020800, 2048)}"
proof -
  have "pr_ok (kh_mem one_page_heap) (pagerefs one_page_heap 0) [0x80020000]"
    by (simp add: one_page_heap_def boot_heap_def pr_ok_def PR_BLOCKTYPE_def PR_PAGEADDR_def one_page_blocks fl_head_def)
  then show "kh_rel one_page_heap [0] (\<lambda>_. [0x80020000])"
    using one_page_used by (simp add: kh_rel_def) (simp add: one_page_heap_def boot_heap_def PR_BLOCKTYPE_def PR_PAGEADDR_def one_page_blocks ram_ok_def)
  show "live one_page_heap [0] (\<lambda>_. [0x80020000]) = {(0x80020800, 2048)}"
    by (auto simp: live_def one_page_heap_def boot_heap_def PR_BLOCKTYPE_def PR_PAGEADDR_def one_page_blocks)
qed

text \<open>
  C31. \<^verbatim>\<open>kmalloc\<close> of less than a gigabyte on a heap in good order always returns, keeps the heap in good order and leaves the contents of every page handed out before as they were.
  When it gives no memory, the blocks in use are as before. A request below 2048 bytes is served by a block that is large enough and overlaps no block in use; a larger one by pages
  above everything handed out so far.
\<close>

theorem kmalloc_correct:
  assumes "kh_rel h ps fl" and "sz < 2 ^ 30"
  shows "\<exists>a h' ps' fl'. kmalloc sz h = Done a h' \<and> kh_rel h' ps' fl' \<and> firstpaddr (kh_ram h) \<le> firstpaddr (kh_ram h') \<and>
    (\<forall>x < MIPS_KSEG0 + firstpaddr (kh_ram h). kh_mem h' x = kh_mem h x) \<and>
    (if a = 0 then live h' ps' fl' = live h ps fl \<and> kh_ram h' = kh_ram h
     else if sz < 2048 then \<exists>b \<ge> sz. live h' ps' fl' = insert (a, b) (live h ps fl) \<and> MIPS_KSEG0 \<le> a \<and> (\<forall>(c, n) \<in> live h ps fl. apart (a, b) (c, n))
     else live h' ps' fl' = live h ps fl \<and> a = MIPS_KSEG0 + firstpaddr (kh_ram h) \<and> a + sz \<le> MIPS_KSEG0 + firstpaddr (kh_ram h'))"
proof (cases "sz < 2048")
  case True
  then consider (no) h' where "kmalloc sz h = Done 0 h'" "refused h ps fl h'" | (yes) a h' where "kmalloc sz h = Done a h'" "allocated sz h ps fl a h'"
    using kmalloc_small [OF assms(1)] by blast
  then show ?thesis
  proof cases
    case no
    then show ?thesis unfolding refused_def by (intro exI [of _ 0] exI [of _ h'] exI [of _ ps] exI [of _ fl]) simp
  next
    case yes
    then obtain b ps' fl' where b: "kh_rel h' ps' fl'" "sz \<le> b" "0 < a" "(a, b) \<notin> live h ps fl" "live h' ps' fl' = insert (a, b) (live h ps fl)"
        "firstpaddr (kh_ram h) \<le> firstpaddr (kh_ram h')" "\<forall>x < MIPS_KSEG0 + firstpaddr (kh_ram h). kh_mem h' x = kh_mem h x"
      unfolding allocated_def by blast
    have "\<forall>(c, n) \<in> live h ps fl. apart (a, b) (c, n)" using live_disjoint [OF b(1), of a b] b(4,5) by (fastforce simp: apart_def)
    moreover have "MIPS_KSEG0 \<le> a" using live_below(1) [OF b(1), of a b] b(5) by simp
    ultimately show ?thesis using yes(1) b True by (intro exI [of _ a] exI [of _ h'] exI [of _ ps'] exI [of _ fl']) auto
  qed
next
  case False
  then consider (no) "kmalloc sz h = Done 0 h" | (yes) h' where "kmalloc sz h = Done (MIPS_KSEG0 + firstpaddr (kh_ram h)) h'" "kh_rel h' ps fl" "live h' ps fl = live h ps fl"
      "kh_mem h' = kh_mem h" "firstpaddr (kh_ram h) + sz \<le> firstpaddr (kh_ram h')"
    using kmalloc_large [OF assms(1), of sz] assms(2) by fastforce
  then show ?thesis
  proof cases
    case no
    then show ?thesis using assms(1) by (intro exI [of _ 0] exI [of _ h] exI [of _ ps] exI [of _ fl]) simp
  next
    case yes
    then show ?thesis using False by (intro exI [of _ "MIPS_KSEG0 + firstpaddr (kh_ram h)"] exI [of _ h'] exI [of _ ps] exI [of _ fl]) simp
  qed
qed

theorem kmalloc_correct_witness:
  "\<exists>a h' ps' fl'. kmalloc 100 (boot_heap 0x80000 0x80020000) = Done a h' \<and> kh_rel h' ps' fl'"
  using kmalloc_correct [OF small_heap_ok(1), of 100] by fastforce

text \<open>
  C32. \<^verbatim>\<open>kfree\<close> of a block in use always returns and keeps the heap in good order; afterwards exactly that block is no longer in use, no memory outside it has changed and no physical
  memory has been claimed.
\<close>

theorem kfree_correct:
  assumes "kh_rel h ps fl" and "(a, b) \<in> live h ps fl"
  shows "\<exists>h' ps' fl'. kfree a h = Done () h' \<and> kh_rel h' ps' fl' \<and> live h' ps' fl' = live h ps fl - {(a, b)} \<and> kh_ram h' = kh_ram h \<and>
    (\<forall>x. x < a \<or> a + b \<le> x \<longrightarrow> kh_mem h' x = kh_mem h x)"
  using kfree_run [OF assms] unfolding given_def by blast

theorem kfree_correct_witness:
  "\<exists>h' ps' fl'. kfree 0x80020800 one_page_heap = Done () h' \<and> kh_rel h' ps' fl' \<and> live h' ps' fl' = {}"
  using kfree_correct [OF one_page_heap_ok(1), of "0x80020800" 2048] one_page_heap_ok(2) by auto

text \<open>
  C33. Whatever blocks below 2048 bytes a client asks for and gives back, in any order and starting from the kernel's boot, neither \<^verbatim>\<open>kmalloc\<close> nor \<^verbatim>\<open>kfree\<close> fails an assertion or
  loops, and no two of the blocks it owns at the end overlap.
\<close>

theorem kheap_client_safe:
  assumes "ram_ok (ram_bootstrap ramsize firstfree)" and "\<forall>n. Get n \<in> set rs \<longrightarrow> n < 2048"
  shows "\<exists>own h. heap_client kmalloc kfree rs [] (boot_heap ramsize firstfree) = Done own h \<and> sorted_wrt apart own"
proof -
  have "kh_holds (boot_heap ramsize firstfree) (set [])" using boot_heap_ok [OF assms(1)] by (auto simp: kh_holds_def)
  moreover have "backs [] []" by (simp add: backs_def)
  ultimately show ?thesis using kheap.client_safe [of _ "[]" "[]" rs] kheap.owned_apart assms(2) by blast
qed

theorem kheap_client_safe_witness:
  "\<exists>own h. heap_client kmalloc kfree [Get 100, Get 20, Put 1, Get 2000] [] (boot_heap 0x80000 0x80020000) = Done own h \<and> sorted_wrt apart own"
  by (rule kheap_client_safe [OF small_ram_ok]) auto



text \<open>
  A request within a page of 4 GB makes \<^verbatim>\<open>sz + PAGE_SIZE - 1\<close> wrap around to a count of zero pages: \<^verbatim>\<open>kmalloc\<close> returns the next free address and reserves nothing.
\<close>

lemma kmalloc_huge:
  assumes "ram_ok (kh_ram h)" and "2 ^ 32 - PAGE_SIZE < sz" and "sz < 2 ^ 32"
  shows "kmalloc sz h = Done (MIPS_KSEG0 + firstpaddr (kh_ram h)) h"
proof -
  obtain k where k: "sz + 4095 = 2 ^ 32 + k" "k < PAGE_SIZE" using assms(2,3) le_Suc_ex [of "2 ^ 32" "sz + 4095"] by auto
  have "uadd32 sz (PAGE_SIZE - 1) div PAGE_SIZE = 0" using k by (simp add: uadd32_def)
  moreover have "uadd32 (firstpaddr (kh_ram h)) 0 = firstpaddr (kh_ram h)" "uadd32 (firstpaddr (kh_ram h)) MIPS_KSEG0 = MIPS_KSEG0 + firstpaddr (kh_ram h)"
    "\<not> firstpaddr (kh_ram h) > lastpaddr (kh_ram h)" "firstpaddr (kh_ram h) \<noteq> 0" using assms(1) by (auto simp: uadd32_def ram_ok_def)
  moreover have "2048 \<le> sz" using assms(2) by simp
  ultimately show ?thesis
    by (simp add: kmalloc_def kprog alloc_kpages_def getppages_def ram_stealmem_def PADDR_TO_KVADDR_def Let_def)
qed

lemma kmalloc_huge_example: "kmalloc 0xfffffff0 one_page_heap = Done 0x80021000 one_page_heap"
  using kmalloc_huge [of one_page_heap "0xfffffff0"] by (simp add: one_page_heap_def ram_ok_def)

end
