(* ===== verification/KHeapCheck.thy ===== *)
theory KHeapCheck
  imports KHeap
begin

text \<open>
  The diagnostics of \<^verbatim>\<open>kern/lib/kheap.c\<close>: the consistency checks \<^verbatim>\<open>checksubpage\<close> and \<^verbatim>\<open>checksubpages\<close>, which the source compiles in under
  \<^verbatim>\<open>SLOW\<close> and \<^verbatim>\<open>SLOWER\<close>, and the dump of the heap, \<^verbatim>\<open>kheap_printstats\<close>. What \<^verbatim>\<open>kprintf\<close> is given is returned. The interrupt level, which these functions assert to be
  raised, is not part of the state of the heap.
\<close>

unbundle bit_operations_syntax

abbreviation (input) MIPS_KSEG1 :: nat where "MIPS_KSEG1 \<equiv> 0xa0000000"

text \<open>The walk of \<^verbatim>\<open>checksubpage\<close> along the free list at address \<open>fl\<close>, with \<open>k\<close> blocks counted. A list of more than \<open>n\<close> blocks would go in circles.\<close>

fun check_walk :: "nat \<Rightarrow> nat \<Rightarrow> nat \<Rightarrow> nat \<Rightarrow> nat \<Rightarrow> (kheap, nat) prog" where
  "check_walk prpage sz fl k 0 = (if fl = 0 then kret k else kpanic ''endless list'')"
| "check_walk prpage sz fl k (Suc n) =
     (if fl = 0 then kret k
      else kthen (kassert (prpage \<le> fl \<and> fl < prpage + PAGE_SIZE))
           (kthen (kassert ((fl - prpage) mod sz = 0))
           (kthen (kassert (MIPS_KSEG0 \<le> fl))
           (kthen (kassert (fl < MIPS_KSEG1))
           (kbind (load_word fl) (\<lambda>nxt. check_walk prpage sz nxt (k + 1) n))))))"

definition checksubpage :: "nat \<Rightarrow> (kheap, unit) prog" where
  "checksubpage p =
     kbind (get_pr p) (\<lambda>pr.
     if freelist_offset pr = INVALID_OFFSET then kassert (nfree pr = 0)
     else let prpage = PR_PAGEADDR pr; blktype = PR_BLOCKTYPE pr in
       kthen (kassert (freelist_offset pr < PAGE_SIZE))
       (kthen (kassert (freelist_offset pr mod sizes ! blktype = 0))
       (kbind (check_walk prpage (sizes ! blktype) (prpage + freelist_offset pr) 0 PAGE_SIZE) (\<lambda>k.
        kassert (k = nfree pr)))))"

text \<open>The loop of \<^verbatim>\<open>checksubpages\<close> along one list; the assertion on the counter bounds it.\<close>

fun check_list :: "(pageref \<Rightarrow> nat option) \<Rightarrow> nat option \<Rightarrow> nat \<Rightarrow> nat \<Rightarrow> (kheap, nat) prog" where
  "check_list nxt None c n = kret c"
| "check_list nxt (Some p) c 0 = kpanic ''endless list''"
| "check_list nxt (Some p) c (Suc n) =
     kthen (checksubpage p)
     (kthen (kassert (c < NPAGEREFS))
     (kbind (get_pr p) (\<lambda>pr. check_list nxt (nxt pr) (c + 1) n)))"

fun check_sizes :: "nat \<Rightarrow> nat \<Rightarrow> nat \<Rightarrow> (kheap, nat) prog" where
  "check_sizes i sc 0 = kret sc"
| "check_sizes i sc (Suc n) =
     kbind (kget (\<lambda>h. sizebases h i)) (\<lambda>base.
     kbind (check_list next_samesize base sc NPAGEREFS) (\<lambda>sc. check_sizes (Suc i) sc n))"

definition checksubpages :: "(kheap, unit) prog" where
  "checksubpages =
     kbind (check_sizes 0 0 NSIZES) (\<lambda>sc.
     kbind (kget allbase) (\<lambda>base.
     kbind (check_list next_all base 0 NPAGEREFS) (\<lambda>ac.
     kassert (sc = ac))))"

subsection \<open>The dump\<close>

text \<open>The loop of \<^verbatim>\<open>dumpsubpage\<close> that marks the free blocks in \<^verbatim>\<open>freemap\<close>.\<close>

fun free_walk :: "nat \<Rightarrow> nat \<Rightarrow> nat \<Rightarrow> nat \<Rightarrow> u32 list \<Rightarrow> nat \<Rightarrow> (kheap, u32 list) prog" where
  "free_walk prpage sz n fl freemap 0 = (if fl = 0 then kret freemap else kpanic ''endless list'')"
| "free_walk prpage sz n fl freemap (Suc k) =
     (if fl = 0 then kret freemap
      else let index = (fl - prpage) div sz in
           kthen (kassert (index < n))
           (kbind (load_word fl) (\<lambda>nxt.
            free_walk prpage sz n nxt (freemap[index div 32 := freemap ! (index div 32) OR push_bit (index mod 32) 1]) k)))"

text \<open>The characters printed for the blocks \<open>i\<close> to \<open>n - 1\<close>.\<close>

fun dump_blocks :: "u32 list \<Rightarrow> nat \<Rightarrow> nat \<Rightarrow> nat \<Rightarrow> string" where
  "dump_blocks freemap n i 0 = []"
| "dump_blocks freemap n i (Suc k) =
     (if (freemap ! (i div 32) AND push_bit (i mod 32) 1) \<noteq> 0 then CHR ''.'' else CHR ''*'') #
     (if i mod 64 = 63 \<and> i + 1 < n then CHR 0x0A # ''   '' else []) @ dump_blocks freemap n (Suc i) k"

record dump =
  d_page :: nat
  d_size :: nat
  d_nfree :: nat
  d_total :: nat
  d_map :: string

definition dumpsubpage :: "nat \<Rightarrow> (kheap, dump) prog" where
  "dumpsubpage p =
     kbind (get_pr p) (\<lambda>pr.
     let prpage = PR_PAGEADDR pr; blktype = PR_BLOCKTYPE pr; n = PAGE_SIZE div sizes ! blktype in
     kthen (kassert (n \<le> 32 * 8))
     (kbind (if freelist_offset pr \<noteq> INVALID_OFFSET
             then free_walk prpage (sizes ! blktype) n (prpage + freelist_offset pr) (replicate 8 0) PAGE_SIZE
             else kret (replicate 8 0)) (\<lambda>freemap.
      kret \<lparr>d_page = prpage, d_size = sizes ! blktype, d_nfree = nfree pr, d_total = n, d_map = ''   '' @ dump_blocks freemap n 0 n @ [CHR 0x0A]\<rparr>)))"

fun dump_pages :: "nat option \<Rightarrow> nat \<Rightarrow> (kheap, dump list) prog" where
  "dump_pages None n = kret []"
| "dump_pages (Some p) 0 = kpanic ''endless list''"
| "dump_pages (Some p) (Suc n) =
     kbind (dumpsubpage p) (\<lambda>d.
     kbind (get_pr p) (\<lambda>pr.
     kbind (dump_pages (next_all pr) n) (\<lambda>ds. kret (d # ds))))"

definition kheap_printstats :: "(kheap, dump list) prog" where
  "kheap_printstats = kbind (kget allbase) (\<lambda>base. dump_pages base NPAGEREFS)"

subsection \<open>The checks pass\<close>

lemma check_walk_run:
  assumes "fl_chain (kh_mem h) a xs" and "length xs \<le> n" and "t < NSIZES" and "set xs \<subseteq> blocks pg t" and "MIPS_KSEG0 \<le> pg" and "pg + PAGE_SIZE \<le> MIPS_KSEG1"
  shows "check_walk pg (sizes ! t) a k n h = Done (k + length xs) h"
  using assms
proof (induction xs arbitrary: a k n)
  case Nil
  then show ?case by (cases n) (simp_all add: kprog)
next
  case (Cons x xs)
  then obtain n' where n: "n = Suc n'" by (cases n) auto
  have "x \<in> blocks pg t" using Cons.prems(4) by simp
  note b = blocks_range [OF Cons.prems(3) this]
  have "check_walk pg (sizes ! t) (kh_mem h x) (k + 1) n' h = Done (k + 1 + length xs) h"
    by (rule Cons.IH) (use Cons.prems n in auto)
  then show ?case using Cons.prems n b by (simp add: kprog bsize_def)
qed

lemma checksubpage_run:
  assumes ok: "pr_ok (kh_mem h) (pagerefs h p) (fl p)" and len: "length (fl p) < bcount (type_of h p)" and hi: "page_of h p + PAGE_SIZE \<le> MIPS_KSEG1"
  shows "checksubpage p h = Done () h"
proof (cases "fl p")
  case Nil
  then show ?thesis using ok by (simp add: checksubpage_def kprog pr_ok_def)
next
  case (Cons x xs)
  have t: "type_of h p < NSIZES" and x: "x \<in> blocks (page_of h p) (type_of h p)" using ok Cons by (auto simp: pr_ok_def)
  note b = blocks_range [OF t x]
  have off: "freelist_offset (pagerefs h p) = x - page_of h p" "nfree (pagerefs h p) = length (fl p)" using ok Cons by (simp_all add: pr_ok_def fl_head_def)
  have "check_walk (page_of h p) (sizes ! type_of h p) x 0 PAGE_SIZE h = Done (0 + length (fl p)) h"
    by (rule check_walk_run) (use ok len Cons t hi bsize_facts(5) [OF t] in \<open>auto simp: pr_ok_def fl_head_def\<close>)
  then show ?thesis using off b by (simp add: checksubpage_def kprog Let_def bsize_def)
qed

lemma check_list_run:
  assumes "chain (\<lambda>p. nxt (pagerefs h p)) b qs" and "length qs \<le> n" and "c + length qs \<le> NPAGEREFS" and "\<And>p. p \<in> set qs \<Longrightarrow> checksubpage p h = Done () h"
  shows "check_list nxt b c n h = Done (c + length qs) h"
  using assms
proof (induction qs arbitrary: b n c)
  case (Cons p qs)
  then obtain n' where "n = Suc n'" by (cases n) auto
  with Cons show ?case by (simp add: kprog)
qed (simp add: kprog)

lemma check_sizes_run:
  assumes r: "kh_rel h ps fl" and ok: "\<And>p. p \<in> set ps \<Longrightarrow> checksubpage p h = Done () h" and "i + n \<le> NSIZES"
    and "c = length (filter (\<lambda>p. type_of h p < i) ps)"
  shows "check_sizes i c n h = Done (length (filter (\<lambda>p. type_of h p < i + n) ps)) h"
  using assms(3,4)
proof (induction n arbitrary: i c)
  case (Suc n)
  let ?qs = "filter (\<lambda>p. type_of h p = i) ps"
  have split: "c + length ?qs = length (filter (\<lambda>p. type_of h p < Suc i) ps)"
    unfolding Suc.prems(2) by (induction ps) auto
  have "c + length ?qs \<le> NPAGEREFS" unfolding split using kh_rel_length [OF r] length_filter_le order_trans by blast
  moreover from this have "length ?qs \<le> NPAGEREFS" by simp
  moreover have "chain (\<lambda>p. next_samesize (pagerefs h p)) (sizebases h i) ?qs" using r Suc.prems(1) by (simp add: kh_rel_def)
  ultimately have "check_list next_samesize (sizebases h i) c NPAGEREFS h = Done (c + length ?qs) h"
    by (intro check_list_run) (auto simp: ok)
  then show ?case using Suc.IH [OF _ split] Suc.prems(1) by (simp add: kprog)
qed (simp add: kprog)

lemma checksubpages_run:
  assumes r: "kh_rel h ps fl"
  shows "checksubpages h = Done () h"
proof -
  have per: "pr_ok (kh_mem h) (pagerefs h p) (fl p)" "length (fl p) < bcount (type_of h p)" "page_of h p + PAGE_SIZE \<le> MIPS_KSEG0 + firstpaddr (kh_ram h)"
    if "p \<in> set ps" for p using r that unfolding kh_rel_def by blast+
  have "ram_ok (kh_ram h)" using r by (simp add: kh_rel_def)
  then have ok: "checksubpage p h = Done () h" if "p \<in> set ps" for p
    using per(3) [OF that] by (intro checksubpage_run [OF per(1,2)] that) (simp add: ram_ok_def)
  have "filter (\<lambda>p. type_of h p < NSIZES) ps = ps" using per(1) by (simp add: filter_id_conv pr_ok_def)
  then have "check_sizes 0 0 NSIZES h = Done (length ps) h" using check_sizes_run [OF r ok, of 0 NSIZES 0] by simp
  moreover have "check_list next_all (allbase h) 0 NPAGEREFS h = Done (0 + length ps) h"
    by (rule check_list_run) (use r kh_rel_length [OF r] ok in \<open>auto simp: kh_rel_def\<close>)
  ultimately show ?thesis by (simp add: checksubpages_def kprog)
qed

subsection \<open>The dump shows the free blocks\<close>

definition map_bit :: "u32 list \<Rightarrow> nat \<Rightarrow> bool" where
  "map_bit fm i \<longleftrightarrow> bit (fm ! (i div 32)) (i mod 32)"

lemma map_bit_set:
  assumes "length fm = 8" and "j < 256"
  shows "map_bit (fm[j div 32 := fm ! (j div 32) OR push_bit (j mod 32) 1]) i \<longleftrightarrow> map_bit fm i \<or> i = j"
proof -
  have "i = j \<longleftrightarrow> i div 32 = j div 32 \<and> i mod 32 = j mod 32" by (metis div_mod_decomp)
  then show ?thesis using assms by (cases "i div 32 = j div 32") (auto simp: map_bit_def bit_or_push simp del: push_bit_of_1)
qed

lemma free_walk_run:
  assumes "fl_chain (kh_mem h) a xs" and "length xs \<le> k" and "\<And>x. x \<in> set xs \<Longrightarrow> (x - pg) div sz < n" and "n \<le> 256" and "length fm = 8"
  shows "\<exists>fm'. free_walk pg sz n a fm k h = Done fm' h \<and> (\<forall>i. map_bit fm' i \<longleftrightarrow> map_bit fm i \<or> i \<in> (\<lambda>x. (x - pg) div sz) ` set xs)"
  using assms
proof (induction xs arbitrary: a fm k)
  case Nil
  then show ?case by (cases k) (simp_all add: kprog)
next
  case (Cons x xs)
  then obtain k' where k: "k = Suc k'" by (cases k) auto
  let ?j = "(x - pg) div sz"
  let ?fm = "fm[?j div 32 := fm ! (?j div 32) OR push_bit (?j mod 32) 1]"
  have j: "?j < n" "?j < 256" using Cons.prems(3) [of x] Cons.prems(4) by simp_all
  obtain fm' where "free_walk pg sz n (kh_mem h x) ?fm k' h = Done fm' h" "\<forall>i. map_bit fm' i \<longleftrightarrow> map_bit ?fm i \<or> i \<in> (\<lambda>x. (x - pg) div sz) ` set xs"
    using Cons.IH [of "kh_mem h x" k' ?fm] Cons.prems k by auto
  then show ?case using Cons.prems(1) k j map_bit_set [OF Cons.prems(5) j(2)] by (auto simp: kprog Let_def)
qed

lemma dump_blocks_map:
  "filter (\<lambda>c. c = CHR ''.'' \<or> c = CHR ''*'') (dump_blocks fm n i k) = map (\<lambda>i. if map_bit fm i then CHR ''.'' else CHR ''*'') [i..<i + k]"
proof (induction k arbitrary: i)
  case (Suc k)
  have "[i..<i + Suc k] = i # [Suc i..<Suc i + k]" by (simp add: upt_rec)
  then show ?case using Suc [of "Suc i"] by (simp add: map_bit_def and_push_bit_zero del: upt_Suc push_bit_of_1)
qed simp

text \<open>What the dump shows of a page: \<open>.\<close> for a free block, \<open>*\<close> for one in use, in the order of their addresses.\<close>

definition shows_page :: "kheap \<Rightarrow> (nat \<Rightarrow> nat list) \<Rightarrow> nat \<Rightarrow> dump \<Rightarrow> bool" where
  "shows_page h fl p d \<longleftrightarrow> d_page d = page_of h p \<and> d_size d = bsize (type_of h p) \<and> d_nfree d = length (fl p) \<and> d_total d = bcount (type_of h p) \<and>
     filter (\<lambda>c. c = CHR ''.'' \<or> c = CHR ''*'') (d_map d) =
     map (\<lambda>i. if page_of h p + i * bsize (type_of h p) \<in> set (fl p) then CHR ''.'' else CHR ''*'') [0..<bcount (type_of h p)]"

lemma dumpsubpage_run:
  assumes ok: "pr_ok (kh_mem h) (pagerefs h p) (fl p)"
  shows "\<exists>d. dumpsubpage p h = Done d h \<and> shows_page h fl p d"
proof -
  let ?t = "type_of h p" and ?pg = "page_of h p"
  have t: "?t < NSIZES" and sub: "set (fl p) \<subseteq> blocks ?pg ?t" and nf: "nfree (pagerefs h p) = length (fl p)" using ok by (auto simp: pr_ok_def)
  note s = bsize_facts [OF t]
  have ix: "\<exists>k < bcount ?t. x = ?pg + k * bsize ?t \<and> (x - ?pg) div bsize ?t = k" if "x \<in> set (fl p)" for x
    using that sub s(1) by (auto simp: blocks_def)
  have "length (fl p) \<le> card (blocks ?pg ?t)" using sub ok distinct_card [of "fl p"] card_mono [of "blocks ?pg ?t" "set (fl p)"] by (simp add: pr_ok_def blocks_def)
  then have len: "length (fl p) \<le> PAGE_SIZE" using blocks_card [OF t] s(5) by simp
  have none: "\<not> map_bit (replicate 8 0) i" if "i < bcount ?t" for i using that s(5) by (simp add: map_bit_def less_mult_imp_div_less)
  have "\<exists>fm. (if freelist_offset (pagerefs h p) \<noteq> INVALID_OFFSET
             then free_walk ?pg (bsize ?t) (bcount ?t) (?pg + freelist_offset (pagerefs h p)) (replicate 8 0) PAGE_SIZE
             else kret (replicate 8 0)) h = Done fm h \<and> (\<forall>i. i < bcount ?t \<longrightarrow> map_bit fm i = (?pg + i * bsize ?t \<in> set (fl p)))"
  proof (cases "fl p")
    case Nil
    then show ?thesis using ok none by (auto simp: pr_ok_def kprog)
  next
    case (Cons x xs)
    have x: "x \<in> blocks ?pg ?t" and off: "freelist_offset (pagerefs h p) = x - ?pg" "fl_chain (kh_mem h) x (fl p)" using ok Cons by (auto simp: pr_ok_def fl_head_def)
    note b = blocks_range [OF t x]
    obtain fm where "free_walk ?pg (bsize ?t) (bcount ?t) x (replicate 8 0) PAGE_SIZE h = Done fm h"
        "\<forall>i. map_bit fm i \<longleftrightarrow> map_bit (replicate 8 0) i \<or> i \<in> (\<lambda>x. (x - ?pg) div bsize ?t) ` set (fl p)"
      using free_walk_run [OF off(2) len _ s(5), of ?pg "bsize ?t" "replicate 8 0"] ix by auto
    moreover have "i \<in> (\<lambda>x. (x - ?pg) div bsize ?t) ` set (fl p) \<longleftrightarrow> ?pg + i * bsize ?t \<in> set (fl p)" for i
      using ix s(1) by (force simp: image_iff)
    ultimately show ?thesis using off b none by auto
  qed
  then obtain fm where fm: "(if freelist_offset (pagerefs h p) \<noteq> INVALID_OFFSET
             then free_walk ?pg (bsize ?t) (bcount ?t) (?pg + freelist_offset (pagerefs h p)) (replicate 8 0) PAGE_SIZE
             else kret (replicate 8 0)) h = Done fm h" "\<forall>i. i < bcount ?t \<longrightarrow> map_bit fm i = (?pg + i * bsize ?t \<in> set (fl p))" by blast
  then have "dumpsubpage p h = Done \<lparr>d_page = ?pg, d_size = bsize ?t, d_nfree = nfree (pagerefs h p), d_total = bcount ?t, d_map = ''   '' @ dump_blocks fm (bcount ?t) 0 (bcount ?t) @ [CHR 0x0A]\<rparr> h"
    using s(5) by (simp add: dumpsubpage_def kprog Let_def bsize_def bcount_def cong: if_cong)
  then show ?thesis using fm(2) nf by (simp add: shows_page_def dump_blocks_map)
qed

lemma dump_pages_run:
  assumes "chain (\<lambda>p. next_all (pagerefs h p)) b qs" and "length qs \<le> n" and "\<And>p. p \<in> set qs \<Longrightarrow> pr_ok (kh_mem h) (pagerefs h p) (fl p)"
  shows "\<exists>ds. dump_pages b n h = Done ds h \<and> list_all2 (shows_page h fl) qs ds"
  using assms
proof (induction qs arbitrary: b n)
  case (Cons p qs)
  then obtain n' where n: "n = Suc n'" by (cases n) auto
  obtain d where d: "dumpsubpage p h = Done d h" "shows_page h fl p d" using dumpsubpage_run [of h p fl] Cons.prems(3) [of p] by auto
  obtain ds where "dump_pages (next_all (pagerefs h p)) n' h = Done ds h" "list_all2 (shows_page h fl) qs ds"
    using Cons.IH [of "next_all (pagerefs h p)" n'] Cons.prems n by auto
  then show ?case using Cons.prems(1) d n by (auto simp: kprog)
qed (simp add: kprog)

text \<open>
  C35. On every heap in good order the kernel's own consistency check \<^verbatim>\<open>checksubpages\<close> passes all its assertions, and \<^verbatim>\<open>kheap_printstats\<close> shows each page of the heap once, with its block
  size, the number of its free blocks, and a dot for exactly the free blocks. Neither changes the heap.
\<close>

theorem heap_diagnostics:
  assumes "kh_rel h ps fl"
  shows "checksubpages h = Done () h \<and> (\<exists>ds. kheap_printstats h = Done ds h \<and> list_all2 (shows_page h fl) ps ds)"
proof -
  have "chain (\<lambda>p. next_all (pagerefs h p)) (allbase h) ps" "\<And>p. p \<in> set ps \<Longrightarrow> pr_ok (kh_mem h) (pagerefs h p) (fl p)" using assms unfolding kh_rel_def by blast+
  then show ?thesis using dump_pages_run [OF _ kh_rel_length [OF assms]] checksubpages_run [OF assms] by (simp add: kheap_printstats_def kprog)
qed

theorem heap_diagnostics_witness:
  "checksubpages one_page_heap = Done () one_page_heap \<and> (\<exists>ds. kheap_printstats one_page_heap = Done ds one_page_heap \<and> length ds = 1)"
  using heap_diagnostics [OF one_page_heap_ok(1)] by (auto dest: list_all2_lengthD)

end
