(* ===== verification/Spec2Isabelle.thy ===== *)
theory Spec2Isabelle
  imports Bitmap Synch SfsTruncate Printf KHeapCheck
begin

text \<open>
  A verification of the kernel of this repository, an OS/161 teaching operating system with the changes of a
  course project, and of the parts of its C library that the kernel uses.

  \<^bold>\<open>The program and its parts.\<close> The kernel is layered. At the bottom are data structures (\<^verbatim>\<open>kern/lib\<close>): a resizable
  array, a bitmap, a queue; routines that move bytes between user and kernel space
  (\<^verbatim>\<open>kern/lib/copyinout.c\<close>) and the I/O descriptor that every read and write carries (\<^verbatim>\<open>kern/userprog/uio.c\<close>). Above them
  is the disk driver (\<^verbatim>\<open>kern/dev/lamebus/lhd.c\<close>), which serves one-sector requests through a card, and the
  file system SFS (\<^verbatim>\<open>kern/fs/sfs\<close>): block I/O with retries, the block map of a file, file I/O, directories,
  vnodes. The C library (\<^verbatim>\<open>lib/libc\<close>) gives strings, memory and formatted printing.

  \<^bold>\<open>How the code is modelled.\<close> A kernel routine is a function from the state it works on to an outcome
  (\<open>Prelude\<close>): it returns a value, returns an error number, or brings the system down (an assertion, a panic, a bad
  pointer, an index outside its array). The state after an error return is part of the outcome, because the
  code may have changed things before it failed. Structures are records, machine integers that can wrap are
  words or are wrapped explicitly (\<open>wrap32\<close>, \<open>usub32\<close>), C strings are byte lists or bytes in a
  memory, pointers that can be shared or dangle are addresses in an explicit heap. What the kernel takes from outside
  (the disk card, whether a request for memory is granted, user memory) is a parameter; what is
  relied on is the set of laws of a locale (\<open>block_device\<close>, \<open>working_card\<close>), which a concrete device in the
  development satisfies.

  \<^bold>\<open>The theories.\<close>
  \<^item> \<open>Prelude\<close>: error numbers, machine arithmetic, outcomes and the combinators for routines with their execution rules.
  \<^item> \<open>DynArray\<close>: \<^verbatim>\<open>kern/lib/array.c\<close>; the array is a list under its operations.
  \<^item> \<open>Bitmap\<close>: \<^verbatim>\<open>kern/lib/bitmap.c\<close>; the bitmap is a set of numbers, and allocation finds a free one exactly when there is one.
  \<^item> \<open>RingQueue\<close>: \<^verbatim>\<open>kern/lib/queue.c\<close>; the ring buffer is a first-in first-out queue, also across growth.
  \<^item> \<open>KHeap\<close>: \<^verbatim>\<open>kern/lib/kheap.c\<close> on the page allocators of \<^verbatim>\<open>ram.c\<close> and \<^verbatim>\<open>dumbvm.c\<close>; blocks in use never overlap, whatever clients ask for and give back, and the walks along the lists end.
  \<^item> \<open>KHeapCheck\<close>: the consistency checks and the dump of the heap.
  \<^item> \<open>Threads\<close>: \<^verbatim>\<open>kern/thread/thread.c\<close>, \<^verbatim>\<open>scheduler.c\<close>, \<^verbatim>\<open>hardclock.c\<close> and the C part of the context switch; every thread is in exactly one place, turns are taken in queue order, and where the preallocation falls short.
  \<^item> \<open>Synch\<close>: \<^verbatim>\<open>kern/thread/synch.c\<close>; semaphores, locks and condition variables are atomic objects, no wakeup is lost, locks exclude each other.
  \<^item> \<open>Uio\<close>: \<^verbatim>\<open>kern/lib/copyinout.c\<close> and \<^verbatim>\<open>kern/userprog/uio.c\<close>; copies stay inside user space and move exactly the bytes asked for.
  \<^item> \<open>Lhd\<close>: the disk driver; a request for a range of sectors transfers them all, and the driver is a \<open>block_device\<close>.
  \<^item> \<open>SfsDisk\<close>: on-disk formats and \<^verbatim>\<open>sfs_io.c\<close>; layouts round-trip, and a media error on a write is lost in the retry.
  \<^item> \<open>SfsFile\<close>: block allocation and the block map (\<^verbatim>\<open>sfs_balloc\<close>, \<^verbatim>\<open>sfs_bmap\<close>) and the definitions of file I/O; allocation keeps the contents and the ownership of blocks.
  \<^item> \<open>SfsFileIO\<close>: \<^verbatim>\<open>sfs_io\<close> reads and writes exactly the bytes of the file.
  \<^item> \<open>SfsDir\<close>: directory entries; a directory is a finite map from names to inode numbers.
  \<^item> \<open>SfsVnode\<close>: vnode reference counts (\<^verbatim>\<open>kern/fs/vfs/vnode.c\<close>) and all vnode operations of SFS with their tables.
  \<^item> \<open>SfsTruncate\<close>: truncation; which blocks survive, including the one too many.
  \<^item> \<open>CString\<close>: string and memory routines of \<^verbatim>\<open>lib/libc\<close>.
  \<^item> \<open>Printf\<close>: \<^verbatim>\<open>lib/libc/__printf.c\<close> and \<^verbatim>\<open>snprintf.c\<close>; bounds, number conversion and its round trip through \<^verbatim>\<open>atoi\<close>.

  \<^bold>\<open>Termination and fuel.\<close> Loops over a range are recursion on the number of rounds left, so they are total. Loops
  whose end depends on the data in memory (\<open>CString\<close>) are partial functions, and the theorems state
  that they return. No definition takes fuel except where the source itself counts.

  \<^bold>\<open>Not modelled.\<close>
  \<^item> Assembly and hardware: start-up, exception entry, context switch, TLB and cache instructions.
  \<^item> User programs (\<^verbatim>\<open>bin\<close>, \<^verbatim>\<open>sbin\<close>, \<^verbatim>\<open>testbin\<close>) and kernel self tests (\<^verbatim>\<open>kern/test\<close>, \<^verbatim>\<open>kern/asst1\<close>): they drive the kernel and are not part of it.
\<close>

end
